(* ===== verification/Prelude.thy ===== *)
theory Prelude
  imports Main "HOL-Library.Word" "HOL-Library.Sublist"
begin

text \<open>
  Shared vocabulary of the development: the machine types of the C++ sources, the build
  target (assertions on or off, byte order), the outcome of running a C++ function that may
  fail an \<^verbatim>\<open>assert\<close>, call \<^verbatim>\<open>std::abort\<close> or run into undefined behaviour, and the generic
  lemmas on lists, words and association maps that the component theories share.

  \<^item> \<^verbatim>\<open>std::byte\<close> is \<open>byte\<close> (8 word), \<^verbatim>\<open>std::uintN_t\<close> is the N-bit word, \<^verbatim>\<open>std::size_t\<close> is \<open>nat\<close>
    with the 64-bit wrap-around written out by \<open>size_wrap\<close> where an addition could overflow.
  \<^item> \<^verbatim>\<open>std::expected<T, E>\<close> is the sum \<open>'e + 't\<close> (\<open>Inl\<close> the error), \<^verbatim>\<open>std::optional<T>\<close> is
    \<open>'t option\<close>, \<^verbatim>\<open>std::vector<std::byte>\<close> and \<^verbatim>\<open>std::span<const std::byte>\<close> are \<open>byte list\<close>.
  \<^item> The POSIX branch of every \<^verbatim>\<open>#if defined(_WIN32)\<close> is the one modelled: \<^verbatim>\<open>NativeSocket\<close> is
    a C \<^verbatim>\<open>int\<close>, here \<open>int\<close>.
\<close>

unbundle bit_operations_syntax

section \<open>Machine types\<close>

type_synonym byte = "8 word"
type_synonym u8 = "8 word"
type_synonym u16 = "16 word"
type_synonym u32 = "32 word"
type_synonym u64 = "64 word"
type_synonym i64 = "64 word"
type_synonym size_t = nat
type_synonym NativeSocket = int
type_synonym errno = int

text \<open>Arithmetic on \<^verbatim>\<open>std::size_t\<close> wraps at 64 bits.\<close>

definition size_wrap :: "nat \<Rightarrow> size_t" where
  "size_wrap n = n mod 2 ^ 64"

section \<open>Build target\<close>

datatype build = Debug | Release
datatype endian = Little | Big

text \<open>\<open>Release\<close> is a build with \<^verbatim>\<open>NDEBUG\<close>: assertions are compiled away.\<close>

record target =
  build_mode :: build
  native_endian :: endian

section \<open>Outcomes\<close>

text \<open>
  \<open>Done\<close> is a normal return. \<open>Abort\<close> is a failed assertion or \<^verbatim>\<open>std::abort\<close>, with a tag for the
  place. \<open>Undefined\<close> is undefined behaviour of C++ or of a library precondition.
\<close>

datatype 'a outcome = Done 'a | Abort string | Undefined string

fun bind_outcome :: "'a outcome \<Rightarrow> ('a \<Rightarrow> 'b outcome) \<Rightarrow> 'b outcome" where
  "bind_outcome (Done x) f = f x"
| "bind_outcome (Abort m) f = Abort m"
| "bind_outcome (Undefined m) f = Undefined m"

definition assert_that :: "build \<Rightarrow> string \<Rightarrow> bool \<Rightarrow> 'a outcome \<Rightarrow> 'a outcome" where
  "assert_that b tag P k = (if b = Debug \<and> \<not> P then Abort tag else k)"

named_theorems outcome_simps \<open>how asserted code runs when the asserted condition holds\<close>
named_theorems word_bytes \<open>words as lists of bytes\<close>

lemma assert_that_True [simp, outcome_simps]: "P \<Longrightarrow> assert_that b tag P k = k"
  by (simp add: assert_that_def)

lemma assert_that_Release [simp, outcome_simps]: "assert_that Release tag P k = k"
  by (simp add: assert_that_def)

lemma assert_that_Debug [outcome_simps]:
  "assert_that Debug tag P k = (if P then k else Abort tag)"
  by (simp add: assert_that_def)

lemma assert_that_Done_iff [simp]:
  "assert_that b tag P k = Done x \<longleftrightarrow> (b = Debug \<longrightarrow> P) \<and> k = Done x"
  by (auto simp: assert_that_def)

lemma bind_outcome_Done_iff [simp]:
  "bind_outcome m f = Done y \<longleftrightarrow> (\<exists>x. m = Done x \<and> f x = Done y)"
  by (cases m) auto

lemma bind_outcome_assoc:
  "bind_outcome (bind_outcome m f) g = bind_outcome m (\<lambda>x. bind_outcome (f x) g)"
  by (cases m) auto

lemma size_wrap_small [simp]: "n < 2 ^ 64 \<Longrightarrow> size_wrap n = n"
  by (simp add: size_wrap_def)

lemma size_wrap_less: "size_wrap n < 2 ^ 64"
  by (simp add: size_wrap_def)

section \<open>Lists\<close>

lemma take_4_conv:
  "4 \<le> length xs \<Longrightarrow> take 4 xs = [xs ! 0, xs ! 1, xs ! 2, xs ! 3]"
  by (cases xs; cases "tl xs"; cases "tl (tl xs)"; cases "tl (tl (tl xs))")
    (auto simp: numeral_eq_Suc)

lemma take_append_le [simp]: "n \<le> length xs \<Longrightarrow> take n (xs @ ys) = take n xs"
  by simp

lemma nth_append_le [simp]: "i < length xs \<Longrightarrow> (xs @ ys) ! i = xs ! i"
  by (simp add: nth_append)

lemma strict_prefix_length_take:
  "strict_prefix b c \<Longrightarrow> b = take (length b) c \<and> length b < length c"
  by (auto simp: strict_prefix_def prefix_def)

section \<open>Bytes of a word\<close>

lemma bit_255 [word_bytes]: "bit (255::int) n \<longleftrightarrow> n < 8"
proof -
  have "(255::int) = mask 8" by (simp add: mask_eq_exp_minus_1)
  then show ?thesis by (simp only: bit_mask_iff) simp
qed

lemma bit_65280 [word_bytes]: "bit (65280::int) n \<longleftrightarrow> 8 \<le> n \<and> n < 16"
proof -
  have "(65280::int) = push_bit 8 (mask 8)" by (simp add: mask_eq_exp_minus_1 push_bit_eq_mult)
  then show ?thesis by (simp only: bit_push_bit_iff bit_mask_iff) auto
qed

lemma bit_byte_high [word_bytes]: "8 \<le> n \<Longrightarrow> \<not> bit (b::byte) n"
  using bit_imp_le_length [of b n] by auto

text \<open>The four byte positions of a 32-bit word.\<close>

lemma byte_position:
  obtains "n < 8" | k where "n = 8 + k" "k < 8" | k where "n = 16 + k" "k < 8"
    | k where "n = 24 + k" "k < 8" | "32 \<le> (n::nat)"
proof -
  consider "n < 8" | "8 \<le> n" "n < 16" | "16 \<le> n" "n < 24" | "24 \<le> n" "n < 32" | "32 \<le> n" by linarith
  then show thesis
    using that
    by cases (auto dest!: le_Suc_ex)
qed

section \<open>Decimal text\<close>

text \<open>What \<^verbatim>\<open>std::to_string\<close> and stream output print for an unsigned number.\<close>

definition digit :: "nat \<Rightarrow> char" where
  "digit d = char_of (48 + d)"

fun decimal :: "nat \<Rightarrow> string" where
  "decimal n = (if n < 10 then [digit n] else decimal (n div 10) @ [digit (n mod 10)])"

declare decimal.simps [simp del]

definition is_digit :: "char \<Rightarrow> bool" where
  "is_digit c \<longleftrightarrow> 48 \<le> (of_char c :: nat) \<and> (of_char c :: nat) \<le> 57"

definition digit_value :: "char \<Rightarrow> nat" where
  "digit_value c = of_char c - 48"

definition digits_value :: "string \<Rightarrow> nat" where
  "digits_value ds = fold (\<lambda>c n. n * 10 + digit_value c) ds 0"

lemma of_char_digit: "d < 10 \<Longrightarrow> (of_char (digit d) :: nat) = 48 + d"
  unfolding digit_def by (simp add: of_char_of)

lemma digit_is_digit [simp]: "d < 10 \<Longrightarrow> is_digit (digit d)"
  by (simp add: is_digit_def of_char_digit)

lemma digit_value_digit [simp]: "d < 10 \<Longrightarrow> digit_value (digit d) = d"
  by (simp add: digit_value_def of_char_digit)

lemma decimal_digits: "decimal n \<noteq> [] \<and> list_all is_digit (decimal n)"
proof (induction n rule: decimal.induct)
  case (1 n)
  then show ?case by (subst (1 2) decimal.simps) auto
qed

lemma digits_value_decimal: "digits_value (decimal n) = n"
proof (induction n rule: decimal.induct)
  case (1 n)
  show ?case
  proof (cases "n < 10")
    case True
    then show ?thesis by (subst decimal.simps) (simp add: digits_value_def)
  next
    case False
    with 1 have "digits_value (decimal (n div 10)) = n div 10" by simp
    with False show ?thesis by (subst decimal.simps) (simp add: digits_value_def)
  qed
qed

end
