(* ===== verification/Posix.thy ===== *)
theory Posix
  imports Prelude
begin

text \<open>
  What the networking sources use of the operating system, as parameters: the header constants
  (\<open>posix\<close>), and the results of system calls, which every operation takes as arguments. The model
  records which calls the code makes (\<open>syscall\<close>); it defines no kernel behaviour. Where a theorem
  needs some, it is a named hypothesis.
\<close>

record posix =
  eintr :: errno
  eagain :: errno
  ewouldblock :: errno
  o_nonblock :: int
  FD_SETSIZE :: u32

text \<open>\<^verbatim>\<open>FD_SETSIZE\<close> is a constant of type \<^verbatim>\<open>int\<close>.\<close>

definition fd_setsize :: "posix \<Rightarrow> int" where
  "fd_setsize px = sint (FD_SETSIZE px)"

text \<open>The Linux values, for concrete runs.\<close>

definition linux :: posix where
  "linux = \<lparr>eintr = 4, eagain = 11, ewouldblock = 11, o_nonblock = 2048, FD_SETSIZE = 1024\<rparr>"

lemma fd_setsize_value [simp]:
  "fd_setsize \<lparr>eintr = a, eagain = b, ewouldblock = c, o_nonblock = d, FD_SETSIZE = n\<rparr> = sint n"
  by (simp add: fd_setsize_def)

lemma fd_setsize_bound: "fd_setsize px \<le> 2147483647"
  using sint_less [of "FD_SETSIZE px"] by (simp add: fd_setsize_def)

datatype syscall =
    Sys_accept NativeSocket
  | Sys_opened NativeSocket
  | Sys_close NativeSocket
  | Sys_getfl NativeSocket
  | Sys_setfl NativeSocket int
  | Sys_setsockopt NativeSocket
  | Sys_bind NativeSocket
  | Sys_listen NativeSocket int

text \<open>A call that returns a C \<^verbatim>\<open>int\<close> and, when negative or non-zero as documented, sets \<^verbatim>\<open>errno\<close>.\<close>

record int_ret =
  rc :: int
  err :: errno

text \<open>
  The loop \<^verbatim>\<open>do { r = call(); } while (r < 0 && errno == EINTR);\<close> over the results the kernel
  gives to successive calls: the first result that is not interrupted, and the results left for
  later calls. \<open>None\<close> means every result given was an interruption: the loop is still running.
\<close>

fun retry_eintr :: "('r \<Rightarrow> bool) \<Rightarrow> 'r list \<Rightarrow> ('r \<times> 'r list) option" where
  "retry_eintr interrupted [] = None"
| "retry_eintr interrupted (r # rs) =
     (if interrupted r then retry_eintr interrupted rs else Some (r, rs))"

lemma retry_eintr_Some:
  "retry_eintr i rs = Some (r, rs') \<Longrightarrow>
     \<not> i r \<and> (\<exists>pre. rs = pre @ r # rs' \<and> list_all i pre)"
proof (induction rs)
  case (Cons a rs)
  show ?case
  proof (cases "i a")
    case True
    with Cons obtain pre where "\<not> i r" "rs = pre @ r # rs'" "list_all i pre" by auto
    with True have "a # rs = (a # pre) @ r # rs'" "list_all i (a # pre)" by auto
    with \<open>\<not> i r\<close> show ?thesis by blast
  next
    case False
    with Cons.prems have "r = a" "rs = rs'" by auto
    with False have "a # rs = [] @ r # rs'" "list_all i []" by auto
    with False \<open>r = a\<close> show ?thesis by blast
  qed
qed simp

lemma retry_eintr_None_iff: "retry_eintr i rs = None \<longleftrightarrow> list_all i rs"
  by (induction rs) auto

lemma retry_eintr_append [simp]:
  "list_all i pre \<Longrightarrow> retry_eintr i (pre @ rs) = retry_eintr i rs"
  by (induction pre) auto

lemma retry_eintr_set:
  "retry_eintr i rs = Some (r, rs') \<Longrightarrow> r \<in> set rs \<and> set rs' \<subseteq> set rs \<and> length rs' < length rs"
  using retry_eintr_Some [of i rs r rs'] by auto

end
