(* ===== verification/Socket.thy ===== *)
theory Socket
  imports Posix
begin

text \<open>
  \<^verbatim>\<open>src/net/socket.cpp\<close> and its header: the RAII socket handle. Single operations are functions
  from the handle and the results of the system calls they make to the result, the new handle and
  the calls made. Moves, assignment and destruction relate several objects, so they work on a
  store of live objects; \<open>sock_step\<close> is one operation of a program on that store.
\<close>

unbundle bit_operations_syntax

section \<open>The handle\<close>

datatype SocketErrorCode = NotInitialized | CreateFailed | CloseFailed | NonBlockingFailed

record SocketError =
  se_code :: SocketErrorCode
  se_message :: string
  se_native_error :: int

definition make_error :: "SocketErrorCode \<Rightarrow> string \<Rightarrow> int \<Rightarrow> SocketError" where
  "make_error code msg native = \<lparr>se_code = code, se_message = msg, se_native_error = native\<rparr>"

definition k_invalid_socket :: NativeSocket where
  "k_invalid_socket = - 1"

text \<open>\<^verbatim>\<open>NetworkSession\<close>: without Winsock there is nothing to start or clean up.\<close>

record NetworkSession =
  ns_ok :: bool
  ns_last_error :: int

definition NetworkSession_new :: NetworkSession where
  "NetworkSession_new = \<lparr>ns_ok = True, ns_last_error = 0\<rparr>"

definition NetworkSession_destroy :: "NetworkSession \<Rightarrow> syscall list" where
  "NetworkSession_destroy ns = []"

record Socket =
  native_handle :: NativeSocket

definition Socket_default :: Socket where
  "Socket_default = \<lparr>native_handle = k_invalid_socket\<rparr>"

definition Socket_valid :: "Socket \<Rightarrow> bool" where
  "Socket_valid s \<longleftrightarrow> native_handle s \<noteq> k_invalid_socket"

text \<open>\<^verbatim>\<open>create_tcp_v4\<close>: the argument is what \<^verbatim>\<open>::socket\<close> returned.\<close>

definition create_tcp_v4 :: "int_ret \<Rightarrow> SocketError + Socket" where
  "create_tcp_v4 r =
     (if rc r < 0 then Inl (make_error CreateFailed ''socket() failed'' (err r))
      else Inr \<lparr>native_handle = rc r\<rparr>)"

definition Socket_close :: "int_ret \<Rightarrow> Socket \<Rightarrow> (SocketError + unit) \<times> Socket \<times> syscall list" where
  "Socket_close r sk =
     (if native_handle sk = k_invalid_socket then (Inr (), sk, [])
      else
        let s = native_handle sk; sk' = sk\<lparr>native_handle := k_invalid_socket\<rparr>
        in if rc r \<noteq> 0
           then (Inl (make_error CloseFailed ''close() failed'' (err r)), sk', [Sys_close s])
           else (Inr (), sk', [Sys_close s]))"

text \<open>\<^verbatim>\<open>set_nonblocking\<close>: the arguments are the results of the two \<^verbatim>\<open>::fcntl\<close> calls.\<close>

definition set_nonblocking ::
  "posix \<Rightarrow> int_ret \<Rightarrow> int_ret \<Rightarrow> bool \<Rightarrow> Socket \<Rightarrow> (SocketError + unit) \<times> syscall list" where
  "set_nonblocking px getfl setfl enable sk =
     (if \<not> Socket_valid sk then (Inl (make_error NotInitialized ''socket is invalid'' 0), [])
      else
        let s = native_handle sk; flags = rc getfl
        in if flags < 0
           then (Inl (make_error NonBlockingFailed ''fcntl(F_GETFL) failed'' (err getfl)), [Sys_getfl s])
           else
             let new_flags = (if enable then flags OR o_nonblock px else flags AND NOT (o_nonblock px))
             in if rc setfl \<noteq> 0
                then (Inl (make_error NonBlockingFailed ''fcntl(F_SETFL) failed'' (err setfl)),
                      [Sys_getfl s, Sys_setfl s new_flags])
                else (Inr (), [Sys_getfl s, Sys_setfl s new_flags]))"

definition Socket_release :: "Socket \<Rightarrow> NativeSocket \<times> Socket" where
  "Socket_release sk = (native_handle sk, sk\<lparr>native_handle := k_invalid_socket\<rparr>)"

definition Socket_reset :: "int_ret \<Rightarrow> NativeSocket \<Rightarrow> Socket \<Rightarrow> Socket \<times> syscall list" where
  "Socket_reset r s sk =
     (case Socket_close r sk of (_, sk', calls) \<Rightarrow> (sk'\<lparr>native_handle := s\<rparr>, calls))"

text \<open>The destructor: the calls it makes.\<close>

definition Socket_destroy :: "int_ret \<Rightarrow> Socket \<Rightarrow> syscall list" where
  "Socket_destroy r sk = (case Socket_close r sk of (_, _, calls) \<Rightarrow> calls)"

text \<open>The move constructor: the new object and the source it leaves.\<close>

definition Socket_move :: "Socket \<Rightarrow> Socket \<times> Socket" where
  "Socket_move other = (\<lparr>native_handle = native_handle other\<rparr>, other\<lparr>native_handle := k_invalid_socket\<rparr>)"

section \<open>Objects in a store\<close>

type_synonym objid = nat
type_synonym sock_store = "objid \<rightharpoonup> Socket"

text \<open>Move assignment \<^verbatim>\<open>*dst = std::move(*src)\<close> with the \<^verbatim>\<open>this == &other\<close> test.\<close>

definition Socket_assign :: "int_ret \<Rightarrow> objid \<Rightarrow> objid \<Rightarrow> sock_store \<Rightarrow> (sock_store \<times> syscall list) option" where
  "Socket_assign r dst src st =
     (case (st dst, st src) of
        (Some d, Some s) \<Rightarrow>
          if dst = src then Some (st, [])
          else
            (case Socket_close r d of (_, d', calls) \<Rightarrow>
               Some (st(dst \<mapsto> d'\<lparr>native_handle := native_handle s\<rparr>,
                        src \<mapsto> s\<lparr>native_handle := k_invalid_socket\<rparr>), calls))
      | _ \<Rightarrow> None)"

text \<open>
  A program state: the live \<^verbatim>\<open>Socket\<close> objects, the descriptors the program holds outside any
  object (just returned by the kernel, or released), the descriptors the kernel has open for it,
  and whether a close was ever issued on a descriptor that was not open.
\<close>

record sock_prog =
  objs :: sock_store
  raw :: "NativeSocket set"
  live :: "NativeSocket set"
  bad_close :: bool

datatype sock_op =
    KernelOpens NativeSocket
  | Construct objid NativeSocket
  | ConstructEmpty objid
  | MoveConstruct objid objid
  | MoveAssign objid objid
  | CloseObj objid
  | ReleaseObj objid
  | ResetObj objid NativeSocket
  | Destroy objid

fun run_syscall :: "syscall \<Rightarrow> sock_prog \<Rightarrow> sock_prog" where
  "run_syscall (Sys_close s) p = p\<lparr>live := live p - {s}, bad_close := bad_close p \<or> s \<notin> live p\<rparr>"
| "run_syscall _ p = p"

definition run_syscalls :: "syscall list \<Rightarrow> sock_prog \<Rightarrow> sock_prog" where
  "run_syscalls cs p = fold run_syscall cs p"

text \<open>
  One operation; \<open>None\<close> when the program may not do it: an object that is not alive (or already
  alive), a raw descriptor the program does not hold. \<open>r\<close> is what \<^verbatim>\<open>::close\<close> returns, if called.
\<close>

fun sock_step :: "int_ret \<Rightarrow> sock_op \<Rightarrow> sock_prog \<Rightarrow> sock_prog option" where
  "sock_step r (KernelOpens s) p =
     (if s \<ge> 0 \<and> s \<notin> live p then Some (p\<lparr>live := insert s (live p), raw := insert s (raw p)\<rparr>) else None)"
| "sock_step r (Construct a s) p =
     (if objs p a = None \<and> s \<in> raw p
      then Some (p\<lparr>objs := (objs p)(a \<mapsto> \<lparr>native_handle = s\<rparr>), raw := raw p - {s}\<rparr>) else None)"
| "sock_step r (ConstructEmpty a) p =
     (if objs p a = None then Some (p\<lparr>objs := (objs p)(a \<mapsto> Socket_default)\<rparr>) else None)"
| "sock_step r (MoveConstruct a b) p =
     (case objs p b of
        Some sb \<Rightarrow>
          if objs p a = None
          then (case Socket_move sb of (new, old) \<Rightarrow> Some (p\<lparr>objs := (objs p)(a \<mapsto> new, b \<mapsto> old)\<rparr>))
          else None
      | None \<Rightarrow> None)"
| "sock_step r (MoveAssign a b) p =
     (case Socket_assign r a b (objs p) of
        Some (st, calls) \<Rightarrow> Some (run_syscalls calls (p\<lparr>objs := st\<rparr>))
      | None \<Rightarrow> None)"
| "sock_step r (CloseObj a) p =
     (case objs p a of
        Some sa \<Rightarrow> (case Socket_close r sa of (_, sa', calls) \<Rightarrow>
            Some (run_syscalls calls (p\<lparr>objs := (objs p)(a \<mapsto> sa')\<rparr>)))
      | None \<Rightarrow> None)"
| "sock_step r (ReleaseObj a) p =
     (case objs p a of
        Some sa \<Rightarrow> (case Socket_release sa of (h, sa') \<Rightarrow>
            Some (p\<lparr>objs := (objs p)(a \<mapsto> sa'),
                    raw := (if h = k_invalid_socket then raw p else insert h (raw p))\<rparr>))
      | None \<Rightarrow> None)"
| "sock_step r (ResetObj a s) p =
     (case objs p a of
        Some sa \<Rightarrow>
          if s = k_invalid_socket \<or> s \<in> raw p
          then (case Socket_reset r s sa of (sa', calls) \<Rightarrow>
                  Some (run_syscalls calls (p\<lparr>objs := (objs p)(a \<mapsto> sa'), raw := raw p - {s}\<rparr>)))
          else None
      | None \<Rightarrow> None)"
| "sock_step r (Destroy a) p =
     (case objs p a of
        Some sa \<Rightarrow> Some (run_syscalls (Socket_destroy r sa) (p\<lparr>objs := (objs p)(a := None)\<rparr>))
      | None \<Rightarrow> None)"

definition init_prog :: sock_prog where
  "init_prog = \<lparr>objs = Map.empty, raw = {}, live = {}, bad_close = False\<rparr>"

fun run_ops :: "(int_ret \<times> sock_op) list \<Rightarrow> sock_prog \<Rightarrow> sock_prog option" where
  "run_ops [] p = Some p"
| "run_ops ((r, x) # xs) p = (case sock_step r x p of Some q \<Rightarrow> run_ops xs q | None \<Rightarrow> None)"

section \<open>Ownership\<close>

text \<open>
  The abstract state: which object holds which descriptor. Every operation is a composition of
  five moves of a descriptor between the kernel, the program and an object, and each move keeps
  the invariant that every open descriptor has exactly one holder.
\<close>

definition handle_of :: "Socket option \<Rightarrow> NativeSocket option" where
  "handle_of x = (case x of None \<Rightarrow> None
     | Some s \<Rightarrow> if Socket_valid s then Some (native_handle s) else None)"

definition held :: "sock_store \<Rightarrow> objid \<rightharpoonup> NativeSocket" where
  "held st a = handle_of (st a)"

definition one_holder :: "(objid \<rightharpoonup> NativeSocket) \<Rightarrow> NativeSocket set \<Rightarrow> NativeSocket set \<Rightarrow> bool" where
  "one_holder h rw lv \<longleftrightarrow>
     (\<forall>a b x. h a = Some x \<longrightarrow> h b = Some x \<longrightarrow> a = b) \<and>
     ran h \<inter> rw = {} \<and> k_invalid_socket \<notin> rw \<and> lv = rw \<union> ran h"

definition owner_inv :: "sock_prog \<Rightarrow> bool" where
  "owner_inv p \<longleftrightarrow> \<not> bad_close p \<and> one_holder (held (objs p)) (raw p) (live p)"

lemma one_holder_open:
  "one_holder h rw lv \<Longrightarrow> s \<notin> lv \<Longrightarrow> s \<noteq> k_invalid_socket \<Longrightarrow> one_holder h (insert s rw) (insert s lv)"
  by (auto simp: one_holder_def)

lemma ran_upd_None: "inj_on h (dom h) \<Longrightarrow> ran (h(a := None)) = ran h - set_option (h a)"
  by (auto simp: ran_def inj_on_def dom_def)

lemma one_holder_inj: "one_holder h rw lv \<Longrightarrow> inj_on h (dom h)"
  by (auto simp: one_holder_def inj_on_def dom_def)

lemma one_holder_give:
  "one_holder h rw lv \<Longrightarrow> h a = None \<Longrightarrow> s \<in> rw \<Longrightarrow> one_holder (h(a \<mapsto> s)) (rw - {s}) lv"
  by (auto simp: one_holder_def ran_map_upd intro: ranI)

lemma one_holder_drop:
  assumes "one_holder h rw lv" "h a = Some x"
  shows "one_holder (h(a := None)) rw (lv - {x})" "x \<in> lv"
proof -
  have "x \<in> ran h" using assms(2) by (rule ranI)
  with assms show "one_holder (h(a := None)) rw (lv - {x})" "x \<in> lv"
    using ran_upd_None [OF one_holder_inj [OF assms(1)], of a] by (auto simp: one_holder_def)
qed

lemma one_holder_release:
  assumes "one_holder h rw lv" "h a = Some x" "x \<noteq> k_invalid_socket"
  shows "one_holder (h(a := None)) (insert x rw) lv"
proof -
  have "x \<in> ran h" using assms(2) by (rule ranI)
  with assms show ?thesis
    using ran_upd_None [OF one_holder_inj [OF assms(1)], of a] by (auto simp: one_holder_def)
qed

lemma one_holder_transfer:
  assumes "one_holder h rw lv" "h a = None" "a \<noteq> b"
  shows "one_holder (h(a := h b, b := None)) rw lv"
proof -
  have "ran (h(a := h b, b := None)) = ran h"
    using assms(2,3) by (auto simp: ran_def) (metis option.distinct(1))
  with assms show ?thesis by (auto simp: one_holder_def)
qed

lemma handle_of_simps [simp]:
  "handle_of None = None"
  "handle_of (Some \<lparr>native_handle = h\<rparr>) = (if h = k_invalid_socket then None else Some h)"
  "handle_of (Some (s\<lparr>native_handle := h\<rparr>)) = (if h = k_invalid_socket then None else Some h)"
  by (simp_all add: handle_of_def Socket_valid_def)

lemma handle_of_Some:
  "handle_of (Some s) = (if native_handle s = k_invalid_socket then None else Some (native_handle s))"
  by (simp add: handle_of_def Socket_valid_def)

lemma held_upd [simp]: "held (st(a := x)) = (held st)(a := handle_of x)"
  by (simp add: held_def fun_eq_iff)

lemmas socket_defs = Socket_close_def Socket_default_def Socket_move_def Socket_release_def
  Socket_reset_def Socket_destroy_def Socket_assign_def run_syscalls_def

lemma owner_inv_init [simp]: "owner_inv init_prog"
  by (simp add: owner_inv_def one_holder_def held_def fun_eq_iff init_prog_def ran_def)

text \<open>System calls touch only the kernel's side of the state.\<close>

lemma run_syscalls_objs [simp]:
  "objs (run_syscalls cs p) = objs p" "raw (run_syscalls cs p) = raw p"
  "live (run_syscalls cs (p\<lparr>objs := st\<rparr>)) = live (run_syscalls cs p)"
  "bad_close (run_syscalls cs (p\<lparr>objs := st\<rparr>)) = bad_close (run_syscalls cs p)"
  "live (run_syscalls cs (p\<lparr>raw := rw\<rparr>)) = live (run_syscalls cs p)"
  "bad_close (run_syscalls cs (p\<lparr>raw := rw\<rparr>)) = bad_close (run_syscalls cs p)"
proof -
  have 1: "objs (run_syscall c p) = objs p" "raw (run_syscall c p) = raw p"
    "run_syscall c (p\<lparr>objs := st\<rparr>) = (run_syscall c p)\<lparr>objs := st\<rparr>"
    "run_syscall c (p\<lparr>raw := rw\<rparr>) = (run_syscall c p)\<lparr>raw := rw\<rparr>" for c p
    by (cases c; simp)+
  have 2: "run_syscalls cs (p\<lparr>objs := st\<rparr>) = (run_syscalls cs p)\<lparr>objs := st\<rparr>"
    "run_syscalls cs (p\<lparr>raw := rw\<rparr>) = (run_syscalls cs p)\<lparr>raw := rw\<rparr>"
    "objs (run_syscalls cs p) = objs p" "raw (run_syscalls cs p) = raw p"
    by (induction cs arbitrary: p) (simp_all add: run_syscalls_def 1)
  show "objs (run_syscalls cs p) = objs p" "raw (run_syscalls cs p) = raw p"
    "live (run_syscalls cs (p\<lparr>objs := st\<rparr>)) = live (run_syscalls cs p)"
    "bad_close (run_syscalls cs (p\<lparr>objs := st\<rparr>)) = bad_close (run_syscalls cs p)"
    "live (run_syscalls cs (p\<lparr>raw := rw\<rparr>)) = live (run_syscalls cs p)"
    "bad_close (run_syscalls cs (p\<lparr>raw := rw\<rparr>)) = bad_close (run_syscalls cs p)"
    by (simp_all add: 2)
qed

text \<open>The operations that close what an object holds.\<close>

lemma close_owner_inv:
  assumes "owner_inv p" "objs p a = Some sa" "handle_of x = None"
    and "Socket_close r sa = (res, sa', calls)"
  shows "owner_inv (run_syscalls calls (p\<lparr>objs := (objs p)(a := x)\<rparr>))" "handle_of (Some sa') = None"
  using assms one_holder_drop [of "held (objs p)" "raw p" "live p" a "native_handle sa"]
  by (auto simp: owner_inv_def socket_defs handle_of_Some held_def Let_def fun_upd_idem
      split: if_splits)

lemma sock_step_owner_inv:
  assumes inv: "owner_inv p" and st: "sock_step r x p = Some q"
  shows "owner_inv q"
proof (cases x)
  case (KernelOpens s)
  then show ?thesis using st inv
    by (auto simp: owner_inv_def k_invalid_socket_def split: if_splits intro!: one_holder_open)
next
  case (Construct a s)
  then show ?thesis using st inv
    by (auto simp: owner_inv_def one_holder_def [of _ "raw p"] held_def
        split: if_splits intro!: one_holder_give)
next
  case (ConstructEmpty a)
  then show ?thesis using st inv
    by (auto simp: owner_inv_def socket_defs held_def fun_upd_idem split: if_splits)
next
  case (MoveConstruct a b)
  with st have "a \<noteq> b" by (auto split: option.splits if_splits)
  with MoveConstruct st inv one_holder_transfer [of "held (objs p)" "raw p" "live p" a b]
  show ?thesis
    by (auto simp: owner_inv_def socket_defs held_def handle_of_Some split: if_splits option.splits)
next
  case (MoveAssign a b)
  with st consider "q = p" | da sb res d' calls where "a \<noteq> b" "objs p a = Some da" "objs p b = Some sb"
    "Socket_close r da = (res, d', calls)"
    "q = run_syscalls calls (p\<lparr>objs := (objs p)(a \<mapsto> d'\<lparr>native_handle := native_handle sb\<rparr>,
                                             b \<mapsto> sb\<lparr>native_handle := k_invalid_socket\<rparr>)\<rparr>)"
    by (cases "Socket_close r (the (objs p a))")
      (auto simp: Socket_assign_def run_syscalls_def split: option.splits if_splits)
  then show ?thesis
  proof cases
    case 1 then show ?thesis using inv by simp
  next
    case 2
    from close_owner_inv(1) [OF inv 2(2) _ 2(4), of None]
    have "owner_inv (run_syscalls calls (p\<lparr>objs := (objs p)(a := None)\<rparr>))" by simp
    then show ?thesis
      using 2 one_holder_transfer [of "(held (objs p))(a := None)" "raw p" _ a b]
      by (auto simp: owner_inv_def held_def handle_of_Some split: if_splits)
  qed
next
  case (CloseObj a)
  with st obtain sa res sa' calls where c: "objs p a = Some sa" "Socket_close r sa = (res, sa', calls)"
    "q = run_syscalls calls (p\<lparr>objs := (objs p)(a \<mapsto> sa')\<rparr>)"
    by (auto split: option.splits prod.splits)
  with close_owner_inv(1) [OF inv c(1) _ c(2), of "Some sa'"]
    close_owner_inv(2) [OF inv c(1) handle_of_simps(1) c(2)]
  show ?thesis by simp
next
  case (ReleaseObj a)
  then show ?thesis using st inv one_holder_release [of "held (objs p)" "raw p" "live p" a]
    by (auto simp: owner_inv_def socket_defs held_def handle_of_Some fun_upd_idem split: option.splits if_splits)
next
  case (ResetObj a s)
  with st obtain sa res sa' calls where c: "objs p a = Some sa" "Socket_close r sa = (res, sa', calls)"
    "s = k_invalid_socket \<or> s \<in> raw p"
    "q = run_syscalls calls (p\<lparr>objs := (objs p)(a \<mapsto> sa'\<lparr>native_handle := s\<rparr>), raw := raw p - {s}\<rparr>)"
    by (cases "Socket_close r (the (objs p a))") (auto simp: Socket_reset_def split: option.splits if_splits)
  from close_owner_inv(1) [OF inv c(1) _ c(2), of None]
  have p1: "owner_inv (run_syscalls calls (p\<lparr>objs := (objs p)(a := None)\<rparr>))" by simp
  show ?thesis
  proof (cases "s = k_invalid_socket")
    case True
    with inv have "raw p - {s} = raw p" by (auto simp: owner_inv_def one_holder_def)
    with p1 True show ?thesis by (simp add: owner_inv_def c(4))
  next
    case False
    with c(3) have "s \<in> raw p" by simp
    from p1 have "one_holder ((held (objs p))(a := None)) (raw p) (live (run_syscalls calls p))"
      and "\<not> bad_close (run_syscalls calls p)" by (simp_all add: owner_inv_def)
    moreover from one_holder_give [OF this(1) _ \<open>s \<in> raw p\<close>, of a]
    have "one_holder ((held (objs p))(a \<mapsto> s)) (raw p - {s}) (live (run_syscalls calls p))" by simp
    ultimately show ?thesis using False by (simp add: owner_inv_def c(4))
  qed
next
  case (Destroy a)
  with st obtain sa res sa' calls where c: "objs p a = Some sa" "Socket_close r sa = (res, sa', calls)"
    "q = run_syscalls calls (p\<lparr>objs := (objs p)(a := None)\<rparr>)"
    by (auto simp: Socket_destroy_def split: option.splits prod.splits)
  with close_owner_inv [OF inv c(1) _ c(2)] show ?thesis by auto
qed

lemma run_ops_owner_inv:
  "owner_inv p \<Longrightarrow> run_ops xs p = Some q \<Longrightarrow> owner_inv q"
  by (induction xs p rule: run_ops.induct)
    (auto split: option.splits intro: sock_step_owner_inv)

section \<open>Properties\<close>

text \<open>C7: Unique ownership and no double close. In every program that creates, moves, assigns (to
  itself included), closes, releases, resets and destroys sockets, starting from no open descriptor
  and using only raw descriptors it holds: no two live objects hold the same valid handle, every held
  handle is open, and no \<^verbatim>\<open>::close\<close> is ever issued on a descriptor that is not open.\<close>

theorem socket_unique_ownership:
  assumes "run_ops xs init_prog = Some p"
  shows "\<not> bad_close p \<and>
    (\<forall>a b sa sb. objs p a = Some sa \<longrightarrow> objs p b = Some sb \<longrightarrow> Socket_valid sa \<longrightarrow>
       native_handle sa = native_handle sb \<longrightarrow> a = b) \<and>
    (\<forall>a sa. objs p a = Some sa \<longrightarrow> Socket_valid sa \<longrightarrow> native_handle sa \<in> live p)"
proof -
  have "owner_inv p" by (rule run_ops_owner_inv [OF owner_inv_init assms])
  then have o: "\<not> bad_close p" "one_holder (held (objs p)) (raw p) (live p)"
    by (simp_all add: owner_inv_def)
  have h: "held (objs p) a = Some (native_handle sa)" if "objs p a = Some sa" "Socket_valid sa" for a sa
    using that by (simp add: held_def handle_of_def)
  show ?thesis using o h by (fastforce simp: one_holder_def Socket_valid_def intro: ranI)
qed

text \<open>Two sockets; move assignment closes the overwritten one, self-assignment closes nothing.\<close>

definition demo_ops :: "(int_ret \<times> sock_op) list" where
  "demo_ops = map (Pair \<lparr>rc = 0, err = 0\<rparr>)
     [KernelOpens 3, Construct 0 3, KernelOpens 4, Construct 1 4, MoveAssign 0 0,
      MoveAssign 0 1, MoveConstruct 2 0, Destroy 0, CloseObj 2, CloseObj 2, Destroy 1, Destroy 2]"

lemma demo_ops_run:
  "run_ops (take 7 demo_ops) init_prog =
     Some \<lparr>objs = [0 \<mapsto> Socket_default, 1 \<mapsto> Socket_default, 2 \<mapsto> \<lparr>native_handle = 4\<rparr>],
           raw = {}, live = {4}, bad_close = False\<rparr>"
  by (auto simp: demo_ops_def init_prog_def socket_defs k_invalid_socket_def fun_upd_twist)

theorem socket_unique_ownership_witness:
  "\<not> bad_close \<lparr>objs = [0 \<mapsto> Socket_default, 1 \<mapsto> Socket_default, 2 \<mapsto> \<lparr>native_handle = 4\<rparr>],
                raw = {}, live = {4}, bad_close = False\<rparr>"
  using socket_unique_ownership [OF demo_ops_run] by blast

text \<open>No leak. When every object of such a program has been destroyed and the program holds no
  released descriptor, every descriptor the kernel opened for it is closed again.\<close>

lemma socket_no_leak:
  assumes "run_ops xs init_prog = Some p" and "objs p = Map.empty" and "raw p = {}"
  shows "live p = {}"
proof -
  have "owner_inv p" by (rule run_ops_owner_inv [OF owner_inv_init assms(1)])
  with assms(2,3) show ?thesis by (simp add: owner_inv_def one_holder_def held_def ran_def)
qed

lemma socket_no_leak_witness:
  "live \<lparr>objs = Map.empty, raw = {}, live = {}, bad_close = False\<rparr> = {}"
  by (rule socket_no_leak [of demo_ops])
    (auto simp: demo_ops_def init_prog_def socket_defs k_invalid_socket_def fun_eq_iff)

text \<open>Setting non-blocking mode changes exactly that flag. The call succeeds exactly when the
  socket is valid and both \<^verbatim>\<open>::fcntl\<close> calls succeed; the only flags ever written go to this socket, after
  its flags were read, with \<^verbatim>\<open>O_NONBLOCK\<close> set (or cleared) and every other bit as it was read; an invalid
  socket makes no call at all.\<close>

lemma set_nonblocking_flags:
  assumes "set_nonblocking px getfl setfl enable sk = (res, calls)"
  shows "(res = Inr () \<longleftrightarrow> Socket_valid sk \<and> 0 \<le> rc getfl \<and> rc setfl = 0) \<and>
    (\<forall>h fl. Sys_setfl h fl \<in> set calls \<longrightarrow>
       h = native_handle sk \<and> 0 \<le> rc getfl \<and>
       (\<forall>n. bit fl n = (if bit (o_nonblock px) n then enable else bit (rc getfl) n))) \<and>
    (res = Inr () \<longrightarrow> (\<exists>fl. calls = [Sys_getfl (native_handle sk), Sys_setfl (native_handle sk) fl])) \<and>
    (\<not> Socket_valid sk \<longrightarrow> calls = [])"
  using assms by (auto simp: set_nonblocking_def Let_def bit_simps split: if_splits)

lemma set_nonblocking_flags_witness:
  "(Inr () :: SocketError + unit) = Inr () \<longleftrightarrow>
     Socket_valid \<lparr>native_handle = 5\<rparr> \<and> 0 \<le> rc \<lparr>rc = 2, err = 0\<rparr> \<and> rc \<lparr>rc = 0, err = 0\<rparr> = 0"
  by (rule set_nonblocking_flags [THEN conjunct1, of linux _ _ True _ _ "[Sys_getfl 5, Sys_setfl 5 2050]"])
    (simp add: set_nonblocking_def Socket_valid_def k_invalid_socket_def linux_def)

end
