(* ===== verification/Framing.thy ===== *)
theory Framing
  imports Prelude
begin

text \<open>
  The interface between a frame codec and the code that reads a byte stream with it.

  \<open>'p decoded\<close> is what one call of a decoder says about the front of a buffer. \<open>drain\<close> is the
  receive loop "decode, consume, repeat until incomplete" as a function on buffers, and \<open>feed\<close>
  runs it after each chunk a socket delivers. The locale \<open>framing\<close> states what a codec promises
  and proves once what every reader relies on: no frame is lost, duplicated or reordered, however
  the stream is cut into chunks.
\<close>

datatype 'p decoded = NeedMore | Got 'p nat | Reject

function drain :: "(byte list \<Rightarrow> 'p decoded) \<Rightarrow> byte list \<Rightarrow> 'p list \<times> byte list \<times> bool" where
  "drain dec buf =
     (case dec buf of
        NeedMore \<Rightarrow> ([], buf, False)
      | Reject \<Rightarrow> ([], buf, True)
      | Got p n \<Rightarrow>
          if 0 < n \<and> n \<le> length buf
          then (case drain dec (drop n buf) of (ps, r, bad) \<Rightarrow> (p # ps, r, bad))
          else ([], buf, True))"
  by pat_completeness auto
termination
  by (relation "measure (\<lambda>(dec, buf). length buf)") auto

declare drain.simps [simp del]

fun feed :: "(byte list \<Rightarrow> 'p decoded) \<Rightarrow> byte list \<Rightarrow> byte list list \<Rightarrow> 'p list \<times> byte list \<times> bool" where
  "feed dec buf [] = ([], buf, False)"
| "feed dec buf (c # cs) =
     (case drain dec (buf @ c) of
        (ps, r, True) \<Rightarrow> (ps, r @ concat cs, True)
      | (ps, r, False) \<Rightarrow>
          (case feed dec r cs of (qs, r', bad) \<Rightarrow> (ps @ qs, r', bad)))"

lemma drain_NeedMore [simp]: "dec buf = NeedMore \<Longrightarrow> drain dec buf = ([], buf, False)"
  by (simp add: drain.simps)

lemma drain_Reject [simp]: "dec buf = Reject \<Longrightarrow> drain dec buf = ([], buf, True)"
  by (simp add: drain.simps)

lemma drain_Got:
  "dec buf = Got p n \<Longrightarrow> 0 < n \<Longrightarrow> n \<le> length buf \<Longrightarrow>
     drain dec buf = (case drain dec (drop n buf) of (ps, r, bad) \<Rightarrow> (p # ps, r, bad))"
  by (subst drain.simps) simp

locale framing =
  fixes dec :: "byte list \<Rightarrow> 'p decoded"
    and enc :: "'p \<Rightarrow> byte list"
    and ok :: "'p \<Rightarrow> bool"
  assumes dec_enc: "ok p \<Longrightarrow> dec (enc p @ r) = Got p (length (enc p))"
    and dec_prefix: "ok p \<Longrightarrow> strict_prefix b (enc p) \<Longrightarrow> dec b = NeedMore"
    and dec_sound: "dec b = Got p n \<Longrightarrow> ok p \<and> n = length (enc p) \<and> take n b = enc p"
    and dec_reject: "dec b = Reject \<Longrightarrow> dec (b @ c) = Reject"
    and enc_nonempty: "enc p \<noteq> []"
begin

lemma dec_soundD:
  assumes "dec b = Got p n"
  shows "ok p" "n = length (enc p)" "b = enc p @ drop n b" "0 < n" "n \<le> length b"
proof -
  from dec_sound [OF assms] have *: "ok p" "n = length (enc p)" "take n b = enc p" by auto
  then show "ok p" "n = length (enc p)" by auto
  from *(3) show "b = enc p @ drop n b" by (metis append_take_drop_id)
  from *(2) enc_nonempty [of p] show "0 < n" by simp
  from * show "n \<le> length b" by (metis length_take min.cobounded1)
qed

lemma dec_mono:
  assumes "dec b = Got p n"
  shows "dec (b @ c) = Got p n"
  using dec_enc [of p "drop n b @ c"] dec_soundD [OF assms] by (metis append_assoc)

lemma dec_Nil [simp]: "ok p \<Longrightarrow> dec [] = NeedMore"
  using dec_prefix [of p "[]"] enc_nonempty [of p] by (simp add: strict_prefix_def)

lemma drain_enc:
  assumes "ok p"
  shows "drain dec (enc p @ r) = (case drain dec r of (ps, s, bad) \<Rightarrow> (p # ps, s, bad))"
  using drain_Got [of dec "enc p @ r" p "length (enc p)"] dec_enc [OF assms, of r] enc_nonempty [of p]
  by simp

lemma drain_encs:
  assumes "list_all ok ps"
  shows "drain dec (concat (map enc ps) @ r) =
           (case drain dec r of (qs, s, bad) \<Rightarrow> (ps @ qs, s, bad))"
  using assms by (induction ps) (auto simp: drain_enc split: prod.splits)

text \<open>A stream of whole frames followed by an unfinished one decodes to exactly those frames.\<close>

lemma drain_stream:
  assumes "list_all ok ps" "ok p" "strict_prefix b (enc p)"
  shows "drain dec (concat (map enc ps) @ b) = (ps, b, False)"
  using drain_encs [OF assms(1), of b] dec_prefix [OF assms(2,3)] by simp

lemma drain_sound:
  "drain dec b = (ps, r, bad) \<Longrightarrow>
     b = concat (map enc ps) @ r \<and> list_all ok ps \<and> (if bad then dec r = Reject else dec r = NeedMore)"
proof (induction b arbitrary: ps r bad rule: measure_induct_rule [where f = length, case_names step])
  case (step b)
  show ?case
  proof (cases "dec b")
    case (Got p n)
    note * = dec_soundD [OF Got]
    from step.prems obtain qs where qs: "drain dec (drop n b) = (qs, r, bad)" "ps = p # qs"
      by (auto simp: drain_Got [of dec b p n, OF Got *(4,5)] split: prod.splits)
    from step.IH [OF _ qs(1)] *(4,5) have
      rest: "drop n b = concat (map enc qs) @ r" "list_all ok qs"
        "if bad then dec r = Reject else dec r = NeedMore" by auto
    from *(3) rest(1) have "b = enc p @ concat (map enc qs) @ r" by metis
    with rest(2,3) *(1) qs(2) show ?thesis by simp
  qed (use step.prems in auto)
qed

text \<open>More input only extends what was decoded.\<close>

lemma drain_append:
  assumes "drain dec b = (ps, r, False)"
  shows "drain dec (b @ c) = (case drain dec (r @ c) of (qs, s, bad) \<Rightarrow> (ps @ qs, s, bad))"
  using drain_sound [OF assms] drain_encs [of ps "r @ c"] by simp

lemma drain_append_bad:
  assumes "drain dec b = (ps, r, True)"
  shows "drain dec (b @ c) = (ps, r @ c, True)"
  using drain_sound [OF assms] drain_encs [of ps "r @ c"] dec_reject [of r c] by simp

text \<open>Decoding chunk by chunk is decoding the whole stream at once.\<close>

lemma feed_drain:
  "dec buf = NeedMore \<Longrightarrow> feed dec buf cs = drain dec (buf @ concat cs)"
proof (induction cs arbitrary: buf)
  case (Cons c cs)
  obtain ps r bad where d: "drain dec (buf @ c) = (ps, r, bad)" by (cases "drain dec (buf @ c)")
  show ?case
  proof (cases bad)
    case True
    with d drain_append_bad [of "buf @ c" ps r "concat cs"] show ?thesis by simp
  next
    case False
    with d drain_sound [OF d] have "feed dec r cs = drain dec (r @ concat cs)"
      by (auto intro: Cons.IH)
    with d False drain_append [of "buf @ c" ps r "concat cs"] show ?thesis by simp
  qed
qed simp

lemma encs_inject:
  assumes "list_all ok ps" "list_all ok qs" "concat (map enc ps) = concat (map enc qs)"
  shows "ps = qs"
  using drain_encs [OF assms(1), of "[]"] drain_encs [OF assms(2), of "[]"] assms(3)
  by (auto split: prod.splits)

end

end
