(* ===== verification/Frame_Decoder.thy ===== *)
theory Frame_Decoder
  imports Framing
begin

text \<open>
  \<^verbatim>\<open>src/protocol/frame_decoder.cpp\<close> and its header: \<^verbatim>\<open>try_decode_frame\<close> and its helpers. The
  length prefix is read by a native-order \<^verbatim>\<open>memcpy\<close> followed, on little-endian targets, by
  \<^verbatim>\<open>std::byteswap\<close>; both byte orders are modelled. The three assertions at the end of the function
  are branches of the model.
\<close>

unbundle bit_operations_syntax

datatype DecodeStatus = Incomplete | Complete | OversizedLength

record FrameDecodeResult =
  fdr_status :: DecodeStatus
  consumed_bytes :: size_t
  fdr_payload :: "byte list"

definition k_frame_length_field_bytes :: size_t where
  "k_frame_length_field_bytes = 4"

text \<open>\<^verbatim>\<open>std::memcpy\<close> of four bytes into a \<^verbatim>\<open>std::uint32_t\<close> on a target of the given byte order.\<close>

definition load_u32 :: "endian \<Rightarrow> byte list \<Rightarrow> u32" where
  "load_u32 e p =
     (case e of
        Little \<Rightarrow> ucast (p ! 0) OR push_bit 8 (ucast (p ! 1)) OR
                  push_bit 16 (ucast (p ! 2)) OR push_bit 24 (ucast (p ! 3))
      | Big \<Rightarrow> push_bit 24 (ucast (p ! 0)) OR push_bit 16 (ucast (p ! 1)) OR
               push_bit 8 (ucast (p ! 2)) OR ucast (p ! 3))"

text \<open>\<^verbatim>\<open>std::byteswap\<close> on 32 bits.\<close>

definition byteswap32 :: "u32 \<Rightarrow> u32" where
  "byteswap32 x =
     push_bit 24 (x AND 255) OR push_bit 8 (x AND 65280) OR
     (drop_bit 8 x AND 65280) OR (drop_bit 24 x AND 255)"

definition read_u32_be :: "endian \<Rightarrow> byte list \<Rightarrow> u32" where
  "read_u32_be e p = (let x = load_u32 e p in if e = Little then byteswap32 x else x)"

definition effective_max_payload :: "u64 \<Rightarrow> u64" where
  "effective_max_payload max_payload_bytes = min max_payload_bytes (ucast (4294967295 :: u32))"

text \<open>\<^verbatim>\<open>FrameDecodeResult{.status = s}\<close>: the other members keep their default initialisers.\<close>

definition default_result :: "DecodeStatus \<Rightarrow> FrameDecodeResult" where
  "default_result s = \<lparr>fdr_status = s, consumed_bytes = 0, fdr_payload = []\<rparr>"

definition try_decode_frame :: "target \<Rightarrow> byte list \<Rightarrow> u64 \<Rightarrow> FrameDecodeResult outcome" where
  "try_decode_frame tgt buffer max_payload_bytes =
     (if length buffer < k_frame_length_field_bytes then Done (default_result Incomplete)
      else
        let payload_len = (ucast (read_u32_be (native_endian tgt) buffer) :: u64);
            cap = effective_max_payload max_payload_bytes
        in if payload_len > cap then Done (default_result OversizedLength)
           else
             let total = size_wrap (k_frame_length_field_bytes + unat payload_len)
             in if length buffer < total then Done (default_result Incomplete)
                else
                  let out0 = (default_result Complete)\<lparr>consumed_bytes := total\<rparr>;
                      out = (if payload_len > 0
                             then out0\<lparr>fdr_payload :=
                                    take (unat payload_len) (drop k_frame_length_field_bytes buffer)\<rparr>
                             else out0)
                  in assert_that (build_mode tgt) ''decode: status'' (fdr_status out = Complete)
                      (assert_that (build_mode tgt) ''decode: consumed'' (consumed_bytes out = total)
                       (assert_that (build_mode tgt) ''decode: size''
                          (consumed_bytes out = k_frame_length_field_bytes + length (fdr_payload out))
                          (Done out))))"

section \<open>The length prefix\<close>

lemma bit_load_Big:
  "bit (load_u32 Big p) n \<longleftrightarrow>
     (if n < 8 then bit (p ! 3) n else if n < 16 then bit (p ! 2) (n - 8)
      else if n < 24 then bit (p ! 1) (n - 16) else n < 32 \<and> bit (p ! 0) (n - 24))"
  by (cases n rule: byte_position) (simp_all add: load_u32_def bit_simps bit_byte_high)

lemma bit_load_Little:
  "bit (load_u32 Little p) n \<longleftrightarrow>
     (if n < 8 then bit (p ! 0) n else if n < 16 then bit (p ! 1) (n - 8)
      else if n < 24 then bit (p ! 2) (n - 16) else n < 32 \<and> bit (p ! 3) (n - 24))"
  by (cases n rule: byte_position) (simp_all add: load_u32_def bit_simps bit_byte_high)

lemma bit_byteswap32:
  "bit (byteswap32 x) n \<longleftrightarrow>
     (if n < 8 then bit x (n + 24) else if n < 16 then bit x (n + 8)
      else if n < 24 then bit x (n - 8) else n < 32 \<and> bit x (n - 24))"
  by (cases n rule: byte_position)
    (simp_all add: byteswap32_def bit_and_iff bit_or_iff bit_push_bit_iff bit_drop_bit_eq
      word_bytes add.commute del: push_bit_and)

lemma byteswap_load: "byteswap32 (load_u32 Little p) = load_u32 Big p"
proof (rule bit_word_eqI)
  fix n show "bit (byteswap32 (load_u32 Little p)) n = bit (load_u32 Big p) n"
    by (cases n rule: byte_position) (simp_all add: bit_byteswap32 bit_load_Little bit_load_Big)
qed

lemma read_u32_be_eq: "read_u32_be e p = load_u32 Big p"
  by (cases e) (simp_all add: read_u32_be_def byteswap_load)

section \<open>The cap\<close>

lemma unat_u32_less: "unat (x::u32) < 4294967296"
  using unsigned_less [of x, where ?'a = nat] by simp

lemma unat_ucast_u32 [simp]: "unat (ucast (x::u32) :: u64) = unat x"
  using unat_u32_less [of x] by (simp add: unsigned_ucast_eq take_bit_nat_eq_self)

lemma unat_max_u32: "unat (ucast (4294967295 :: u32) :: u64) = 2 ^ 32 - 1"
  by simp

lemma unat_effective_max_payload:
  "unat (effective_max_payload m) = min (unat m) (2 ^ 32 - 1)"
  by (auto simp: effective_max_payload_def min_def word_le_nat_alt unat_max_u32)

section \<open>The decoder in one equation\<close>

definition declared_length :: "byte list \<Rightarrow> nat" where
  "declared_length b = unat (load_u32 Big b)"

definition decode_spec :: "byte list \<Rightarrow> nat \<Rightarrow> FrameDecodeResult" where
  "decode_spec b cap =
     (if length b < 4 then default_result Incomplete
      else if cap < declared_length b then default_result OversizedLength
      else if length b < 4 + declared_length b then default_result Incomplete
      else \<lparr>fdr_status = Complete, consumed_bytes = 4 + declared_length b,
            fdr_payload = take (declared_length b) (drop 4 b)\<rparr>)"

lemma try_decode_frame_eq:
  "try_decode_frame tgt b m = Done (decode_spec b (min (unat m) (2 ^ 32 - 1)))"
proof -
  have tot: "size_wrap (4 + unat (load_u32 Big b)) = 4 + unat (load_u32 Big b)"
    using unat_u32_less [of "load_u32 Big b"] by (intro size_wrap_small) simp
  show ?thesis
    by (simp add: try_decode_frame_def decode_spec_def declared_length_def default_result_def
        k_frame_length_field_bytes_def read_u32_be_eq Let_def tot word_less_nat_alt
        unat_effective_max_payload not_less)
qed

end
