(* ===== verification/Frame_Encoder.thy ===== *)
theory Frame_Encoder
  imports Frame_Decoder
begin

text \<open>
  \<^verbatim>\<open>src/protocol/frame_encoder.cpp\<close> and its header: \<^verbatim>\<open>append_encoded_frame\<close> on a byte vector. The
  \<^verbatim>\<open>reserve\<close> call changes only the vector's capacity, which no code of the repository reads
  elsewhere, and is not part of the state. The overload on a \<^verbatim>\<open>Connection\<close> is in the theory
  of connections.
\<close>

unbundle bit_operations_syntax

datatype EncodeErrorCode = PayloadTooLarge

record FrameEncodeError =
  fee_code :: EncodeErrorCode
  fee_message :: string

text \<open>The encoder's own copy of the decoder's cap.\<close>

definition enc_effective_max_payload :: "u64 \<Rightarrow> u64" where
  "enc_effective_max_payload max_payload_bytes = min max_payload_bytes (ucast (4294967295 :: u32))"

definition push_be32 :: "byte list \<Rightarrow> u32 \<Rightarrow> byte list" where
  "push_be32 out v =
     out @ [ucast (drop_bit 24 v AND 255), ucast (drop_bit 16 v AND 255),
            ucast (drop_bit 8 v AND 255), ucast (v AND 255)]"

text \<open>The result pairs the returned \<^verbatim>\<open>std::expected<void, FrameEncodeError>\<close> with the new \<open>out\<close>.\<close>

definition append_encoded_frame ::
  "target \<Rightarrow> byte list \<Rightarrow> byte list \<Rightarrow> u64 \<Rightarrow> ((FrameEncodeError + unit) \<times> byte list) outcome" where
  "append_encoded_frame tgt out pay max_payload_bytes =
     (let cap = enc_effective_max_payload max_payload_bytes
      in if length pay > unat cap
         then Done (Inl \<lparr>fee_code = PayloadTooLarge,
                         fee_message = ''payload exceeds configured max message size''\<rparr>, out)
         else
           let len = (of_nat (length pay) :: u32);
               before = length out;
               out1 = push_be32 out len;
               out2 = out1 @ pay
           in assert_that (build_mode tgt) ''encode: size''
                (length out2 = before + k_frame_length_field_bytes + length pay)
                (Done (Inr (), out2)))"

text \<open>The wire format: the big-endian length, then the payload.\<close>

definition frame :: "byte list \<Rightarrow> byte list" where
  "frame pay = push_be32 [] (of_nat (length pay)) @ pay"

definition fits :: "u64 \<Rightarrow> byte list \<Rightarrow> bool" where
  "fits m pay \<longleftrightarrow> length pay \<le> min (unat m) (2 ^ 32 - 1)"

lemma length_push_be32 [simp]: "length (push_be32 out v) = length out + 4"
  by (simp add: push_be32_def)

lemma push_be32_append: "push_be32 out v = out @ push_be32 [] v"
  by (simp add: push_be32_def)

lemma length_frame [simp]: "length (frame p) = 4 + length p"
  by (simp add: frame_def)

lemma load_push_be32: "load_u32 Big (push_be32 [] v @ rest) = v"
proof (rule bit_word_eqI)
  fix n assume "n < LENGTH(32)" then show "bit (load_u32 Big (push_be32 [] v @ rest)) n = bit v n"
    by (cases n rule: byte_position) (simp_all add: bit_load_Big push_be32_def bit_simps word_bytes)
qed

lemma push_be32_load:
  assumes "4 \<le> length p"
  shows "push_be32 [] (load_u32 Big p) = take 4 p"
proof -
  have "ucast (drop_bit 24 (load_u32 Big p) AND 255) = p ! 0"
    "ucast (drop_bit 16 (load_u32 Big p) AND 255) = p ! 1"
    "ucast (drop_bit 8 (load_u32 Big p) AND 255) = p ! 2"
    "ucast (load_u32 Big p AND 255) = p ! 3"
    by (rule bit_word_eqI, simp add: bit_simps bit_load_Big word_bytes)+
  with assms show ?thesis by (simp add: push_be32_def take_4_conv)
qed

lemma enc_effective_max_payload_eq: "enc_effective_max_payload = effective_max_payload"
  by (simp add: fun_eq_iff enc_effective_max_payload_def effective_max_payload_def)

lemma append_encoded_frame_eq:
  "append_encoded_frame tgt out p m =
     (if fits m p then Done (Inr (), out @ frame p)
      else Done (Inl \<lparr>fee_code = PayloadTooLarge,
                      fee_message = ''payload exceeds configured max message size''\<rparr>, out))"
  by (auto simp: append_encoded_frame_def fits_def frame_def Let_def enc_effective_max_payload_eq
      unat_effective_max_payload k_frame_length_field_bytes_def push_be32_append [of out])

lemma fits_less: "fits m p \<Longrightarrow> length p < 4294967296"
  by (simp add: fits_def)

lemma declared_length_frame:
  "length p < 4294967296 \<Longrightarrow> declared_length (frame p @ r) = length p"
  by (simp add: declared_length_def frame_def load_push_be32 unat_of_nat)

end
