(* ===== verification/Frame_Codec.thy ===== *)
theory Frame_Codec
  imports Frame_Encoder
begin

text \<open>
  Encoder and decoder together: they satisfy the interface \<open>framing\<close>, so every stream property of
  that interface holds of the code's codec. \<open>frame_dec\<close> is the view of one \<^verbatim>\<open>try_decode_frame\<close> call
  that its callers branch on.
\<close>

definition decode_view :: "FrameDecodeResult \<Rightarrow> byte list decoded" where
  "decode_view r =
     (case fdr_status r of
        Incomplete \<Rightarrow> NeedMore
      | Complete \<Rightarrow> Got (fdr_payload r) (consumed_bytes r)
      | OversizedLength \<Rightarrow> Reject)"

definition frame_dec :: "target \<Rightarrow> u64 \<Rightarrow> byte list \<Rightarrow> byte list decoded" where
  "frame_dec tgt m b =
     (case try_decode_frame tgt b m of Done r \<Rightarrow> decode_view r | _ \<Rightarrow> Reject)"

lemma frame_dec_eq:
  "frame_dec tgt m b =
     (if length b < 4 then NeedMore
      else if min (unat m) (2 ^ 32 - 1) < declared_length b then Reject
      else if length b < 4 + declared_length b then NeedMore
      else Got (take (declared_length b) (drop 4 b)) (4 + declared_length b))"
  by (simp add: frame_dec_def try_decode_frame_eq decode_view_def decode_spec_def default_result_def)

lemma declared_length_append:
  "4 \<le> length b \<Longrightarrow> declared_length (b @ c) = declared_length b"
  by (cases b) (auto simp: declared_length_def load_u32_def nth_append)

lemma frame_take:
  assumes "4 + declared_length b \<le> length b"
  shows "frame (take (declared_length b) (drop 4 b)) = take (4 + declared_length b) b"
proof -
  have "of_nat (declared_length b) = load_u32 Big b"
    by (simp add: declared_length_def)
  with assms show ?thesis
    by (simp add: frame_def push_be32_load min_absorb2 take_add)
qed

lemma drop_frame [simp]: "drop 4 (frame p) = p"
  by (simp add: frame_def push_be32_def)

lemma strict_prefix_frame:
  assumes "strict_prefix b (frame p)" "length p < 4294967296" "4 \<le> length b"
  shows "declared_length b = length p" "length b < 4 + length p"
proof -
  from assms(1) obtain c where c: "frame p = b @ c"
    by (auto simp: strict_prefix_def prefix_def)
  show "length b < 4 + length p"
    using prefix_length_less [OF assms(1)] by simp
  show "declared_length b = length p"
    using declared_length_frame [OF assms(2), of "[]"] declared_length_append [OF assms(3), of c] c
    by simp
qed

interpretation codec: framing "frame_dec tgt m" frame "fits m" for tgt m
proof unfold_locales
  fix p r assume "fits m p"
  then show "frame_dec tgt m (frame p @ r) = Got p (length (frame p))"
    by (simp add: frame_dec_eq declared_length_frame [OF fits_less] ) (auto simp: fits_def)
next
  fix p b assume p: "fits m p" and b: "strict_prefix b (frame p)"
  show "frame_dec tgt m b = NeedMore"
    using strict_prefix_frame [OF b fits_less [OF p]] p
    by (auto simp: frame_dec_eq fits_def)
next
  fix b p n assume "frame_dec tgt m b = Got p n"
  then show "fits m p \<and> n = length (frame p) \<and> take n b = frame p"
    by (auto simp: frame_dec_eq fits_def frame_take split: if_splits)
next
  fix b c assume "frame_dec tgt m b = Reject"
  then show "frame_dec tgt m (b @ c) = Reject"
    by (auto simp: frame_dec_eq declared_length_append split: if_splits)
next
  fix p show "frame p \<noteq> []" by (simp add: frame_def push_be32_def)
qed

section \<open>Facts for the callers\<close>

lemma try_decode_frame_frame:
  "fits m p \<Longrightarrow> try_decode_frame tgt (frame p @ r) m =
     Done \<lparr>fdr_status = Complete, consumed_bytes = 4 + length p, fdr_payload = p\<rparr>"
  using declared_length_frame [OF fits_less, of m p r]
  by (auto simp: try_decode_frame_eq decode_spec_def fits_def)

lemma decode_spec_Complete_iff:
  "fdr_status (decode_spec b (min (unat m) (2 ^ 32 - 1))) = Complete \<longleftrightarrow>
     (\<exists>p. fits m p \<and> prefix (frame p) b)"
proof
  assume "fdr_status (decode_spec b (min (unat m) (2 ^ 32 - 1))) = Complete"
  then have "frame_dec tgt m b =
      Got (fdr_payload (decode_spec b (min (unat m) (2 ^ 32 - 1))))
          (consumed_bytes (decode_spec b (min (unat m) (2 ^ 32 - 1))))" for tgt
    by (simp add: frame_dec_def try_decode_frame_eq decode_view_def)
  from codec.dec_soundD [OF this] show "\<exists>p. fits m p \<and> prefix (frame p) b"
    by (metis prefix_def)
next
  assume "\<exists>p. fits m p \<and> prefix (frame p) b"
  then obtain p r where "fits m p" "b = frame p @ r" by (auto simp: prefix_def)
  then show "fdr_status (decode_spec b (min (unat m) (2 ^ 32 - 1))) = Complete"
    using try_decode_frame_frame [of m p "\<lparr>build_mode = Debug, native_endian = Big\<rparr>" r]
    by (simp add: try_decode_frame_eq)
qed

section \<open>Properties\<close>

text \<open>C1: Encoding then decoding gives the payload back. On any two targets (assertions on or off,
  either byte order), a payload within the limit is appended as exactly \<open>4 + length\<close> bytes after the
  old contents, and decoding those bytes, whatever follows them, reports \<open>Complete\<close> with the payload
  and consumes exactly that frame. No assertion fails.\<close>

theorem codec_roundtrip:
  assumes "length pay \<le> min (unat m) (2 ^ 32 - 1)"
  shows "\<exists>w. append_encoded_frame tgt1 out pay m = Done (Inr (), out @ w) \<and> length w = 4 + length pay \<and>
           try_decode_frame tgt2 (w @ rest) m =
             Done \<lparr>fdr_status = Complete, consumed_bytes = 4 + length pay, fdr_payload = pay\<rparr>"
proof -
  from assms have "fits m pay" by (simp add: fits_def)
  then show ?thesis by (auto simp: append_encoded_frame_eq try_decode_frame_frame)
qed

theorem codec_roundtrip_witness:
  "\<exists>w. append_encoded_frame \<lparr>build_mode = Debug, native_endian = Little\<rparr> [1] [7, 9] 1024 =
          Done (Inr (), [1] @ w) \<and> length w = 4 + length [7 :: byte, 9] \<and>
       try_decode_frame \<lparr>build_mode = Debug, native_endian = Big\<rparr> (w @ [5]) 1024 =
          Done \<lparr>fdr_status = Complete, consumed_bytes = 4 + length [7 :: byte, 9], fdr_payload = [7, 9]\<rparr>"
  by (rule codec_roundtrip) simp

text \<open>C17: The decoder is total and classifies every buffer: it never fails an assertion; it reports
  \<open>Complete\<close> exactly when the buffer starts with the encoding of a payload within the limit (and then
  consumes that frame and returns that payload), \<open>OversizedLength\<close> exactly when the four prefix bytes
  are present and declare more than the limit, and \<open>Incomplete\<close> otherwise; nothing is consumed unless
  the status is \<open>Complete\<close>.\<close>

theorem decode_classifies:
  "\<exists>r. try_decode_frame tgt b m = Done r \<and>
     (fdr_status r = Complete \<longleftrightarrow> (\<exists>p. fits m p \<and> prefix (frame p) b)) \<and>
     (fdr_status r = OversizedLength \<longleftrightarrow>
        4 \<le> length b \<and> min (unat m) (2 ^ 32 - 1) < unat (load_u32 Big b)) \<and>
     (if fdr_status r = Complete
      then frame (fdr_payload r) = take (consumed_bytes r) b \<and>
           consumed_bytes r = 4 + length (fdr_payload r)
      else consumed_bytes r = 0 \<and> fdr_payload r = [])"
proof -
  let ?r = "decode_spec b (min (unat m) (2 ^ 32 - 1))"
  have over: "fdr_status ?r = OversizedLength \<longleftrightarrow>
      4 \<le> length b \<and> min (unat m) (2 ^ 32 - 1) < unat (load_u32 Big b)"
    by (auto simp: decode_spec_def default_result_def declared_length_def not_less)
  have rest: "if fdr_status ?r = Complete
      then frame (fdr_payload ?r) = take (consumed_bytes ?r) b \<and>
           consumed_bytes ?r = 4 + length (fdr_payload ?r)
      else consumed_bytes ?r = 0 \<and> fdr_payload ?r = []"
    by (auto simp: decode_spec_def default_result_def frame_take)
  show ?thesis
    by (intro exI [of _ ?r] conjI try_decode_frame_eq decode_spec_Complete_iff over rest)
qed

text \<open>C2: However the socket cuts the stream, decoding chunk by chunk is decoding the whole stream at once. For every
  stream of bytes and every way to cut it, draining the read buffer after each chunk gives the same payloads, the
  same rest and the same verdict as draining the concatenated chunks. What it gives is determined by the stream: the
  payloads, all within the limit, whose frames and the rest make up the stream; decoding stops with an error exactly
  when the rest starts with four bytes that declare more than the limit, and otherwise the rest has no whole frame at
  its front. In particular a stream of encodings of \<open>ps\<close> (all within the limit) followed by a proper prefix of one
  more gives exactly \<open>ps\<close> and that prefix, without an error.\<close>

theorem stream_chunking:
  "feed (frame_dec tgt m) [] chunks = drain (frame_dec tgt m) (concat chunks) \<and>
   (case feed (frame_dec tgt m) [] chunks of (ps, rest, bad) \<Rightarrow>
      list_all (fits m) ps \<and> concat chunks = concat (map frame ps) @ rest \<and>
      (bad \<longleftrightarrow> 4 \<le> length rest \<and> min (unat m) (2 ^ 32 - 1) < unat (load_u32 Big rest)) \<and>
      (\<forall>p. fits m p \<longrightarrow> \<not> prefix (frame p) rest)) \<and>
   (\<forall>ps p b. list_all (fits m) ps \<and> fits m p \<and> strict_prefix b (frame p) \<and> concat chunks = concat (map frame ps) @ b \<longrightarrow>
      feed (frame_dec tgt m) [] chunks = (ps, b, False))"
proof -
  have whole: "feed (frame_dec tgt m) [] chunks = drain (frame_dec tgt m) (concat chunks)"
    using codec.feed_drain [of tgt m "[]" chunks] by (simp add: frame_dec_eq)
  obtain ps rest bad where d: "drain (frame_dec tgt m) (concat chunks) = (ps, rest, bad)"
    by (cases "drain (frame_dec tgt m) (concat chunks)")
  note sound = codec.drain_sound [OF d]
  have "bad \<longleftrightarrow> frame_dec tgt m rest = Reject" using sound by (auto split: if_splits)
  also have "\<dots> \<longleftrightarrow> 4 \<le> length rest \<and> min (unat m) (2 ^ 32 - 1) < unat (load_u32 Big rest)"
    by (auto simp: frame_dec_eq declared_length_def)
  finally have bad: "bad \<longleftrightarrow> 4 \<le> length rest \<and> min (unat m) (2 ^ 32 - 1) < unat (load_u32 Big rest)" .
  have "\<not> prefix (frame p) rest" if "fits m p" for p
    using sound codec.dec_enc [OF that, of tgt] by (auto elim!: prefixE split: if_splits)
  with whole d sound bad have result: "case feed (frame_dec tgt m) [] chunks of (ps, rest, bad) \<Rightarrow>
      list_all (fits m) ps \<and> concat chunks = concat (map frame ps) @ rest \<and>
      (bad \<longleftrightarrow> 4 \<le> length rest \<and> min (unat m) (2 ^ 32 - 1) < unat (load_u32 Big rest)) \<and>
      (\<forall>p. fits m p \<longrightarrow> \<not> prefix (frame p) rest)" by (simp only: prod.case) blast
  have "feed (frame_dec tgt m) [] chunks = (ps, b, False)"
    if "list_all (fits m) ps \<and> fits m p \<and> strict_prefix b (frame p) \<and> concat chunks = concat (map frame ps) @ b" for ps p b
    using that codec.drain_stream [of m ps p b tgt] by (simp only: whole)
  with whole result show ?thesis by blast
qed

theorem stream_chunking_witness:
  "feed (frame_dec \<lparr>build_mode = Debug, native_endian = Little\<rparr> 16) []
     [[0, 0], [0, 1, 42, 0], [0], [0, 0, 0]] = ([[42], []], [0], False) \<and>
   feed (frame_dec \<lparr>build_mode = Debug, native_endian = Little\<rparr> 16) [] [[0, 0], [0, 17, 5]] =
     drain (frame_dec \<lparr>build_mode = Debug, native_endian = Little\<rparr> 16) [0, 0, 0, 17, 5]"
proof -
  let ?tgt = "\<lparr>build_mode = Debug, native_endian = Little\<rparr>"
  have "list_all (fits 16) [[42], []] \<and> fits 16 [] \<and> strict_prefix [0] (frame []) \<and>
      concat [[0, 0], [0, 1, 42, 0], [0], [0, 0, 0]] = concat (map frame [[42], []]) @ [0]"
    by (simp add: fits_def frame_def push_be32_def strict_prefix_def prefix_def)
  with stream_chunking [of ?tgt 16 "[[0, 0], [0, 1, 42, 0], [0], [0, 0, 0]]", THEN conjunct2, THEN conjunct2]
  have "feed (frame_dec ?tgt 16) [] [[0, 0], [0, 1, 42, 0], [0], [0, 0, 0]] = ([[42], []], [0], False)" by blast
  moreover have "concat [[0, 0], [0, 17, 5]] = [0, 0, 0, 17, 5 :: byte]" by simp
  ultimately show ?thesis
    using stream_chunking [of ?tgt 16 "[[0, 0], [0, 17, 5]]", THEN conjunct1] by (simp only: simp_thms)
qed

text \<open>The encoder fails exactly on payloads above the limit, and then leaves the output unchanged;
  otherwise it appends the four big-endian length bytes (whose value is the payload's length) and the
  payload. This does not depend on the target, and no assertion fails.\<close>

lemma encode_all_branches:
  "append_encoded_frame tgt out pay m =
     (if min (unat m) (2 ^ 32 - 1) < length pay
      then Done (Inl \<lparr>fee_code = PayloadTooLarge,
                      fee_message = ''payload exceeds configured max message size''\<rparr>, out)
      else Done (Inr (), push_be32 out (of_nat (length pay)) @ pay)) \<and>
   (length pay \<le> min (unat m) (2 ^ 32 - 1) \<longrightarrow>
      unat (load_u32 Big (push_be32 [] (of_nat (length pay)))) = length pay)"
proof (rule conjI)
  show "append_encoded_frame tgt out pay m =
     (if min (unat m) (2 ^ 32 - 1) < length pay
      then Done (Inl \<lparr>fee_code = PayloadTooLarge,
                      fee_message = ''payload exceeds configured max message size''\<rparr>, out)
      else Done (Inr (), push_be32 out (of_nat (length pay)) @ pay))"
    by (auto simp: append_encoded_frame_eq fits_def frame_def push_be32_append [of out])
  show "length pay \<le> min (unat m) (2 ^ 32 - 1) \<longrightarrow>
      unat (load_u32 Big (push_be32 [] (of_nat (length pay)))) = length pay"
    using load_push_be32 [of "of_nat (length pay)" "[]"] by (auto simp: unat_of_nat)
qed

lemma encode_all_branches_witness:
  "append_encoded_frame \<lparr>build_mode = Debug, native_endian = Little\<rparr> [] [3] 8 =
     Done (Inr (), push_be32 [] 1 @ [3])"
  using encode_all_branches [of "\<lparr>build_mode = Debug, native_endian = Little\<rparr>" "[]" "[3]" 8]
  by simp

text \<open>Memory safety of the decoder: it reads and copies only bytes of the buffer, what it consumes
  never exceeds the buffer, the addition that forms the frame size does not wrap, and the payload it
  allocates is at most the configured limit.\<close>

lemma decode_bounds:
  assumes "try_decode_frame tgt b m = Done r"
  shows "consumed_bytes r \<le> length b \<and> length (fdr_payload r) \<le> unat m \<and>
    length (fdr_payload r) < 2 ^ 32 \<and> consumed_bytes r < 2 ^ 32 + 4"
  using assms unat_u32_less [of "load_u32 Big b"]
  by (auto simp: try_decode_frame_eq decode_spec_def default_result_def declared_length_def)

lemma decode_bounds_witness:
  "let r = \<lparr>fdr_status = Complete, consumed_bytes = 5, fdr_payload = [42]\<rparr>;
       b = [0, 0, 0, 1, 42 :: byte, 8]
   in consumed_bytes r \<le> length b \<and> length (fdr_payload r) \<le> unat (9 :: u64) \<and>
      length (fdr_payload r) < 2 ^ 32 \<and> consumed_bytes r < 2 ^ 32 + 4"
  unfolding Let_def
  by (rule decode_bounds [of "\<lparr>build_mode = Debug, native_endian = Big\<rparr>"])
    (simp add: try_decode_frame_def k_frame_length_field_bytes_def read_u32_be_def load_u32_def
      effective_max_payload_def default_result_def Let_def)

end
