(* ===== verification/Connection.thy ===== *)
theory Connection
  imports Socket Frame_Codec
begin

text \<open>
  \<^verbatim>\<open>src/net/connection.cpp\<close>, its header, and the encoder overload that appends to a connection's
  write buffer. Both buffers are byte queues: bytes are appended at the end and consumed from the
  front. The locale \<open>byte_queue\<close> is that contract; both buffers satisfy it.
\<close>

section \<open>State\<close>

text \<open>The enumeration has the underlying type \<^verbatim>\<open>std::uint8_t\<close>, so any byte is a value of it.\<close>

type_synonym ConnectionState = u8

definition CS_Closed :: ConnectionState where "CS_Closed = 0"
definition CS_Reading :: ConnectionState where "CS_Reading = 1"
definition CS_Parsing :: ConnectionState where "CS_Parsing = 2"
definition CS_Handling :: ConnectionState where "CS_Handling = 3"
definition CS_Writing :: ConnectionState where "CS_Writing = 4"
definition CS_Closing :: ConnectionState where "CS_Closing = 5"

record Connection =
  conn_socket :: Socket
  conn_state :: ConnectionState
  read_buf :: "byte list"
  write_buf :: "byte list"

definition is_valid_connection_state :: "ConnectionState \<Rightarrow> bool" where
  "is_valid_connection_state s \<longleftrightarrow> s \<le> CS_Closing"

text \<open>The constructor: the new connection and the socket it moved from.\<close>

definition Connection_new :: "Socket \<Rightarrow> Connection \<times> Socket" where
  "Connection_new sk =
     (case Socket_move sk of (new, old) \<Rightarrow>
        (\<lparr>conn_socket = new, conn_state = CS_Reading, read_buf = [], write_buf = []\<rparr>, old))"

text \<open>The defaulted move constructor: members are moved one by one; a moved-from vector is empty.\<close>

definition Connection_move :: "Connection \<Rightarrow> Connection \<times> Connection" where
  "Connection_move c =
     (case Socket_move (conn_socket c) of (new, old) \<Rightarrow>
        (c\<lparr>conn_socket := new\<rparr>, c\<lparr>conn_socket := old, read_buf := [], write_buf := []\<rparr>))"

definition set_state :: "target \<Rightarrow> ConnectionState \<Rightarrow> Connection \<Rightarrow> Connection outcome" where
  "set_state tgt s c =
     assert_that (build_mode tgt) ''set_state'' (is_valid_connection_state s) (Done (c\<lparr>conn_state := s\<rparr>))"

definition append_read :: "byte list \<Rightarrow> Connection \<Rightarrow> Connection" where
  "append_read data c = c\<lparr>read_buf := read_buf c @ data\<rparr>"

definition consume_read :: "target \<Rightarrow> size_t \<Rightarrow> Connection \<Rightarrow> Connection outcome" where
  "consume_read tgt byte_count c =
     assert_that (build_mode tgt) ''consume_read'' (byte_count \<le> length (read_buf c))
       (if byte_count \<ge> length (read_buf c) then Done (c\<lparr>read_buf := []\<rparr>)
        else Done (c\<lparr>read_buf := drop byte_count (read_buf c)\<rparr>))"

definition append_write :: "byte list \<Rightarrow> Connection \<Rightarrow> Connection" where
  "append_write data c = c\<lparr>write_buf := write_buf c @ data\<rparr>"

definition consume_write :: "target \<Rightarrow> size_t \<Rightarrow> Connection \<Rightarrow> Connection outcome" where
  "consume_write tgt byte_count c =
     assert_that (build_mode tgt) ''consume_write'' (byte_count \<le> length (write_buf c))
       (if byte_count \<ge> length (write_buf c) then Done (c\<lparr>write_buf := []\<rparr>)
        else Done (c\<lparr>write_buf := drop byte_count (write_buf c)\<rparr>))"

definition clear_write :: "Connection \<Rightarrow> Connection" where
  "clear_write c = c\<lparr>write_buf := []\<rparr>"

definition Connection_native_handle :: "Connection \<Rightarrow> NativeSocket" where
  "Connection_native_handle c = native_handle (conn_socket c)"

text \<open>\<^verbatim>\<open>append_encoded_frame(net::Connection&, ...)\<close>.\<close>

definition append_encoded_frame_conn ::
  "target \<Rightarrow> Connection \<Rightarrow> byte list \<Rightarrow> u64 \<Rightarrow> ((FrameEncodeError + unit) \<times> Connection) outcome" where
  "append_encoded_frame_conn tgt c pay m =
     bind_outcome (append_encoded_frame tgt (write_buf c) pay m)
       (\<lambda>(res, wb). Done (res, c\<lparr>write_buf := wb\<rparr>))"

section \<open>Byte queues\<close>

datatype queue_op = Append "byte list" | Consume nat

text \<open>A run of queue operations: the bytes taken out and the final state.\<close>

fun run_queue ::
  "('c \<Rightarrow> byte list) \<Rightarrow> (byte list \<Rightarrow> 'c \<Rightarrow> 'c) \<Rightarrow> (nat \<Rightarrow> 'c \<Rightarrow> 'c outcome) \<Rightarrow>
     queue_op list \<Rightarrow> 'c \<Rightarrow> (byte list \<times> 'c) outcome" where
  "run_queue buf app con [] c = Done ([], c)"
| "run_queue buf app con (Append d # xs) c = run_queue buf app con xs (app d c)"
| "run_queue buf app con (Consume n # xs) c =
     bind_outcome (con n c) (\<lambda>c'.
       bind_outcome (run_queue buf app con xs c') (\<lambda>(out, c''). Done (take n (buf c) @ out, c'')))"

fun appended :: "queue_op list \<Rightarrow> byte list" where
  "appended [] = []"
| "appended (Append d # xs) = d @ appended xs"
| "appended (Consume n # xs) = appended xs"

fun taken_out :: "queue_op list \<Rightarrow> nat" where
  "taken_out [] = 0"
| "taken_out (Append d # xs) = taken_out xs"
| "taken_out (Consume n # xs) = n + taken_out xs"

text \<open>No operation takes more than there is, when a queue starts with \<open>n\<close> bytes.\<close>

fun queue_allows :: "queue_op list \<Rightarrow> nat \<Rightarrow> bool" where
  "queue_allows [] n = True"
| "queue_allows (Append d # xs) n = queue_allows xs (n + length d)"
| "queue_allows (Consume k # xs) n = (k \<le> n \<and> queue_allows xs (n - k))"

text \<open>\<open>put\<close> replaces the contents and nothing else; \<open>checked\<close> says that taking too much is noticed.\<close>

locale byte_queue =
  fixes buf :: "'c \<Rightarrow> byte list"
    and put :: "byte list \<Rightarrow> 'c \<Rightarrow> 'c"
    and app :: "byte list \<Rightarrow> 'c \<Rightarrow> 'c"
    and con :: "nat \<Rightarrow> 'c \<Rightarrow> 'c outcome"
    and checked :: bool
    and msg :: string
  assumes buf_put: "buf (put b c) = b"
    and put_put: "put b (put b' c) = put b c"
    and put_buf: "put (buf c) c = c"
    and app_put: "app d c = put (buf c @ d) c"
    and con_put: "n \<le> length (buf c) \<Longrightarrow> con n c = Done (put (drop n (buf c)) c)"
    and con_checked: "checked \<Longrightarrow> length (buf c) < n \<Longrightarrow> con n c = Abort msg"
begin

text \<open>First in, first out: what went in is what came out, then what is left.\<close>

lemma fifo:
  "queue_allows xs (length (buf c)) \<Longrightarrow>
     run_queue buf app con xs c =
       Done (take (taken_out xs) (buf c @ appended xs), put (drop (taken_out xs) (buf c @ appended xs)) c)"
proof (induction xs arbitrary: c)
  case (Cons x xs)
  show ?case
  proof (cases x)
    case (Append d)
    with Cons show ?thesis by (simp add: app_put buf_put put_put)
  next
    case (Consume n)
    with Cons show ?thesis by (simp add: con_put buf_put put_put take_add add.commute)
  qed
qed (simp add: put_buf)

lemma overdrawn:
  assumes checked
  shows "\<not> queue_allows xs (length (buf c)) \<Longrightarrow> run_queue buf app con xs c = Abort msg"
proof (induction xs arbitrary: c)
  case (Cons x xs)
  show ?case
  proof (cases x)
    case (Append d)
    with Cons show ?thesis by (simp add: app_put buf_put)
  next
    case (Consume n)
    with Cons con_checked [OF assms, of c n] show ?thesis
      by (cases "n \<le> length (buf c)") (simp_all add: con_put buf_put)
  qed
qed simp

end

section \<open>Facts\<close>

lemma consume_read_Done:
  "n \<le> length (read_buf c) \<Longrightarrow> consume_read tgt n c = Done (c\<lparr>read_buf := drop n (read_buf c)\<rparr>)"
  by (simp add: consume_read_def)

lemma consume_write_Done:
  "n \<le> length (write_buf c) \<Longrightarrow> consume_write tgt n c = Done (c\<lparr>write_buf := drop n (write_buf c)\<rparr>)"
  by (simp add: consume_write_def)

lemma append_encoded_frame_conn_eq:
  "append_encoded_frame_conn tgt c p m =
     (if fits m p then Done (Inr (), c\<lparr>write_buf := write_buf c @ frame p\<rparr>)
      else Done (Inl \<lparr>fee_code = PayloadTooLarge,
                      fee_message = ''payload exceeds configured max message size''\<rparr>, c))"
  by (simp add: append_encoded_frame_conn_def append_encoded_frame_eq)

text \<open>Both buffers are byte queues; a build with assertions notices when too much is taken.\<close>

interpretation read_queue: byte_queue read_buf "\<lambda>b c. c\<lparr>read_buf := b\<rparr>" append_read "consume_read tgt"
    "build_mode tgt = Debug" "''consume_read''" for tgt
  by unfold_locales (auto simp: append_read_def consume_read_def assert_that_def)

interpretation write_queue: byte_queue write_buf "\<lambda>b c. c\<lparr>write_buf := b\<rparr>" append_write "consume_write tgt"
    "build_mode tgt = Debug" "''consume_write''" for tgt
  by unfold_locales (auto simp: append_write_def consume_write_def assert_that_def)

section \<open>Properties\<close>

text \<open>C21: Both connection buffers are first-in first-out byte queues. For every sequence of appends and
  consumes in which no consume asks for more than the buffer then holds, the bytes consumed are the front of
  the initial bytes followed by the appended ones, the buffer is left with the rest of these, and nothing else of
  the connection has changed, in every build. If some consume asks for more, a build with assertions aborts there.\<close>

theorem connection_buffers_fifo:
  shows "(queue_allows xs (length (read_buf c)) \<longrightarrow>
      run_queue read_buf append_read (consume_read tgt) xs c =
        Done (take (taken_out xs) (read_buf c @ appended xs),
              c\<lparr>read_buf := drop (taken_out xs) (read_buf c @ appended xs)\<rparr>)) \<and>
    (\<not> queue_allows xs (length (read_buf c)) \<and> build_mode tgt = Debug \<longrightarrow>
      run_queue read_buf append_read (consume_read tgt) xs c = Abort ''consume_read'') \<and>
    (queue_allows xs (length (write_buf c)) \<longrightarrow>
      run_queue write_buf append_write (consume_write tgt) xs c =
        Done (take (taken_out xs) (write_buf c @ appended xs),
              c\<lparr>write_buf := drop (taken_out xs) (write_buf c @ appended xs)\<rparr>)) \<and>
    (\<not> queue_allows xs (length (write_buf c)) \<and> build_mode tgt = Debug \<longrightarrow>
      run_queue write_buf append_write (consume_write tgt) xs c = Abort ''consume_write'')"
  by (simp add: read_queue.fifo read_queue.overdrawn write_queue.fifo write_queue.overdrawn)

theorem connection_buffers_fifo_witness:
  "let c = \<lparr>conn_socket = Socket_default, conn_state = CS_Reading, read_buf = [1], write_buf = []\<rparr>;
       tgt = \<lparr>build_mode = Debug, native_endian = Little\<rparr>; xs = [Append [2, 3], Consume 2]
   in run_queue read_buf append_read (consume_read tgt) xs c = Done ([1, 2], c\<lparr>read_buf := [3]\<rparr>) \<and>
      run_queue write_buf append_write (consume_write tgt) (xs @ [Consume 1]) c = Abort ''consume_write''"
  unfolding Let_def
  using connection_buffers_fifo [of "[Append [2, 3], Consume 2]"
      "\<lparr>conn_socket = Socket_default, conn_state = CS_Reading, read_buf = [1], write_buf = []\<rparr>"
      "\<lparr>build_mode = Debug, native_endian = Little\<rparr>"]
    connection_buffers_fifo [of "[Append [2, 3], Consume 2, Consume 1]"
      "\<lparr>conn_socket = Socket_default, conn_state = CS_Reading, read_buf = [1], write_buf = []\<rparr>"
      "\<lparr>build_mode = Debug, native_endian = Little\<rparr>"]
  by (simp add: Let_def del: run_queue.simps)

text \<open>Consuming is safe and exact. On either buffer a consume within the buffer removes exactly that
  prefix and changes nothing else of the connection; a consume beyond the buffer fails the assertion
  in a build with assertions and empties that buffer otherwise. An out-of-range connection state
  fails the assertion of \<^verbatim>\<open>set_state\<close>, a valid one is stored.\<close>

lemma connection_consume:
  "consume_read tgt n c =
     (if n \<le> length (read_buf c) then Done (c\<lparr>read_buf := drop n (read_buf c)\<rparr>)
      else if build_mode tgt = Debug then Abort ''consume_read'' else Done (c\<lparr>read_buf := []\<rparr>)) \<and>
   consume_write tgt n c =
     (if n \<le> length (write_buf c) then Done (c\<lparr>write_buf := drop n (write_buf c)\<rparr>)
      else if build_mode tgt = Debug then Abort ''consume_write'' else Done (c\<lparr>write_buf := []\<rparr>)) \<and>
   set_state tgt s c =
     (if build_mode tgt = Debug \<and> 5 < unat s then Abort ''set_state'' else Done (c\<lparr>conn_state := s\<rparr>))"
  by (auto simp: consume_read_def consume_write_def set_state_def assert_that_def
      is_valid_connection_state_def CS_Closing_def word_le_nat_alt)

section \<open>All operations together\<close>

text \<open>Everything a holder of a connection can do to it, one call at a time.\<close>

datatype conn_op =
    Set_state ConnectionState
  | Append_read "byte list" | Consume_read size_t
  | Append_write "byte list" | Consume_write size_t | Clear_write
  | Append_frame "byte list" u64

fun conn_step :: "target \<Rightarrow> conn_op \<Rightarrow> Connection \<Rightarrow> Connection outcome" where
  "conn_step tgt (Set_state s) c = set_state tgt s c"
| "conn_step tgt (Append_read d) c = Done (append_read d c)"
| "conn_step tgt (Consume_read n) c = consume_read tgt n c"
| "conn_step tgt (Append_write d) c = Done (append_write d c)"
| "conn_step tgt (Consume_write n) c = consume_write tgt n c"
| "conn_step tgt Clear_write c = Done (clear_write c)"
| "conn_step tgt (Append_frame p m) c = bind_outcome (append_encoded_frame_conn tgt c p m) (\<lambda>(_, c'). Done c')"

fun conn_run :: "target \<Rightarrow> conn_op list \<Rightarrow> Connection \<Rightarrow> Connection outcome" where
  "conn_run tgt [] c = Done c"
| "conn_run tgt (x # xs) c = bind_outcome (conn_step tgt x c) (conn_run tgt xs)"

lemma conn_run_snoc: "conn_run tgt (xs @ [x]) c = bind_outcome (conn_run tgt xs c) (conn_step tgt x)"
proof (induction xs arbitrary: c)
  case Nil
  show ?case by (cases "conn_step tgt x c") simp_all
next
  case (Cons y ys)
  then show ?case by (cases "conn_step tgt y c") simp_all
qed

section \<open>The connection as a function of its history\<close>

text \<open>What a sequence of calls has put into and taken out of the two buffers, and the state it has set last.\<close>

definition received :: "conn_op list \<Rightarrow> byte list \<Rightarrow> byte list" where
  "received xs r = r @ concat (map (\<lambda>x. case x of Append_read d \<Rightarrow> d | _ \<Rightarrow> []) xs)"

definition read_taken :: "conn_op list \<Rightarrow> nat" where
  "read_taken xs = sum_list (map (\<lambda>x. case x of Consume_read n \<Rightarrow> n | _ \<Rightarrow> 0) xs)"

definition last_state :: "conn_op list \<Rightarrow> ConnectionState \<Rightarrow> ConnectionState" where
  "last_state xs s = last (s # concat (map (\<lambda>x. case x of Set_state s \<Rightarrow> [s] | _ \<Rightarrow> []) xs))"

definition since_clear :: "conn_op list \<Rightarrow> conn_op list" where
  "since_clear xs = rev (takeWhile (\<lambda>x. x \<noteq> Clear_write) (rev xs))"

text \<open>The bytes put into the output, and the number taken out of it, since it was last cleared.\<close>

definition written :: "conn_op list \<Rightarrow> byte list \<Rightarrow> byte list" where
  "written xs w = (if Clear_write \<in> set xs then [] else w) @
     concat (map (\<lambda>x. case x of Append_write d \<Rightarrow> d | Append_frame p m \<Rightarrow> if fits m p then frame p else [] | _ \<Rightarrow> [])
       (since_clear xs))"

definition write_taken :: "conn_op list \<Rightarrow> nat" where
  "write_taken xs = sum_list (map (\<lambda>x. case x of Consume_write n \<Rightarrow> n | _ \<Rightarrow> 0) (since_clear xs))"

text \<open>What a call asks of its caller, after the calls \<open>past\<close>.\<close>

definition legal_op :: "conn_op list \<Rightarrow> Connection \<Rightarrow> conn_op \<Rightarrow> bool" where
  "legal_op past c x \<longleftrightarrow>
     (case x of
        Set_state s \<Rightarrow> unat s \<le> 5
      | Consume_read n \<Rightarrow> read_taken past + n \<le> length (received past (read_buf c))
      | Consume_write n \<Rightarrow> write_taken past + n \<le> length (written past (write_buf c))
      | _ \<Rightarrow> True)"

definition legal :: "conn_op list \<Rightarrow> Connection \<Rightarrow> bool" where
  "legal xs c \<longleftrightarrow> (\<forall>i<length xs. legal_op (take i xs) c (xs ! i))"

lemma legal_snoc: "legal (xs @ [x]) c \<longleftrightarrow> legal xs c \<and> legal_op xs c x"
  by (auto simp: legal_def nth_append less_Suc_eq)

lemma conn_history_Nil:
  "received [] r = r" "read_taken [] = 0" "last_state [] s = s" "written [] w = w" "write_taken [] = 0" "legal [] c"
  by (simp_all add: received_def read_taken_def last_state_def written_def write_taken_def since_clear_def legal_def)

lemma conn_history_snoc:
  "received (xs @ [x]) r = received xs r @ (case x of Append_read d \<Rightarrow> d | _ \<Rightarrow> [])"
  "read_taken (xs @ [x]) = read_taken xs + (case x of Consume_read n \<Rightarrow> n | _ \<Rightarrow> 0)"
  "last_state (xs @ [x]) s = (case x of Set_state s' \<Rightarrow> s' | _ \<Rightarrow> last_state xs s)"
  "written (xs @ [x]) w =
     (case x of Clear_write \<Rightarrow> [] | Append_write d \<Rightarrow> written xs w @ d
      | Append_frame p m \<Rightarrow> written xs w @ (if fits m p then frame p else []) | _ \<Rightarrow> written xs w)"
  "write_taken (xs @ [x]) =
     (case x of Clear_write \<Rightarrow> 0 | Consume_write n \<Rightarrow> write_taken xs + n | _ \<Rightarrow> write_taken xs)"
  by (cases x; simp add: received_def read_taken_def last_state_def written_def write_taken_def since_clear_def)+

lemma legal_bounds:
  "legal xs c \<Longrightarrow> read_taken xs \<le> length (received xs (read_buf c)) \<and> write_taken xs \<le> length (written xs (write_buf c))"
proof (induction xs rule: rev_induct)
  case (snoc x xs)
  then show ?case by (cases x) (auto simp: legal_snoc legal_op_def conn_history_snoc)
qed (simp add: conn_history_Nil)

lemma legal_last_state: "legal xs c \<Longrightarrow> unat (conn_state c) \<le> 5 \<Longrightarrow> unat (last_state xs (conn_state c)) \<le> 5"
  by (induction xs rule: rev_induct) (auto simp: legal_snoc legal_op_def conn_history_snoc conn_history_Nil split: conn_op.split)

definition conn_after :: "conn_op list \<Rightarrow> Connection \<Rightarrow> Connection" where
  "conn_after xs c = \<lparr>conn_socket = conn_socket c, conn_state = last_state xs (conn_state c),
     read_buf = drop (read_taken xs) (received xs (read_buf c)),
     write_buf = drop (write_taken xs) (written xs (write_buf c))\<rparr>"

lemma valid_state_iff: "is_valid_connection_state s \<longleftrightarrow> unat s \<le> 5"
  by (simp add: is_valid_connection_state_def CS_Closing_def word_le_nat_alt)

lemma conn_after_legal:
  assumes "legal xs c" "legal_op xs c x"
  shows "conn_step tgt x (conn_after xs c) = Done (conn_after (xs @ [x]) c)"
  using legal_bounds [OF assms(1)] assms(2)
  by (cases x) (simp_all add: conn_after_def conn_history_snoc legal_op_def set_state_def valid_state_iff append_read_def
      consume_read_Done append_write_def consume_write_Done clear_write_def append_encoded_frame_conn_eq add.commute)

lemma conn_after_illegal:
  assumes "build_mode tgt = Debug" "legal xs c" "\<not> legal_op xs c x"
  shows "\<exists>m. conn_step tgt x (conn_after xs c) = Abort m"
  using assms legal_bounds [OF assms(2)]
  by (cases x) (auto simp: conn_after_def legal_op_def set_state_def valid_state_iff consume_read_def consume_write_def
      assert_that_def)

lemma conn_run_legal: "legal xs c \<Longrightarrow> conn_run tgt xs c = Done (conn_after xs c)"
proof (induction xs rule: rev_induct)
  case Nil
  then show ?case by (simp add: conn_after_def conn_history_Nil)
next
  case (snoc x xs)
  then show ?case by (simp add: legal_snoc conn_run_snoc conn_after_legal)
qed

lemma conn_run_illegal: "build_mode tgt = Debug \<Longrightarrow> \<not> legal xs c \<Longrightarrow> \<exists>m. conn_run tgt xs c = Abort m"
proof (induction xs rule: rev_induct)
  case (snoc x xs)
  show ?case
  proof (cases "legal xs c")
    case True
    with snoc.prems conn_after_illegal [of tgt xs c x] show ?thesis
      by (simp add: legal_snoc conn_run_snoc conn_run_legal)
  next
    case False
    with snoc show ?thesis by (auto simp: conn_run_snoc)
  qed
qed (simp add: conn_history_Nil)

text \<open>C37: A connection is a function of the calls made on it. For any interleaving of calls that set the state, append
  to and consume from both buffers, clear the output and append frames to it: call a sequence legal if every state
  set is one of the six declared ones and no consume takes more bytes than were put in, for the output since it was
  last cleared, and not yet taken. After a legal sequence, in every build, the connection has its old socket, the
  last state set, as input the bytes received less those consumed, and as output the bytes and frames appended since
  the last clear less those consumed, where a frame above its limit adds nothing. A build with assertions aborts in
  every sequence that is not legal. A connection that is in a declared state before a legal sequence is so after it.\<close>

theorem connection_well_formed:
  "(legal xs c \<longrightarrow> conn_run tgt xs c =
      Done \<lparr>conn_socket = conn_socket c, conn_state = last_state xs (conn_state c),
        read_buf = drop (read_taken xs) (received xs (read_buf c)),
        write_buf = drop (write_taken xs) (written xs (write_buf c))\<rparr>) \<and>
   (\<not> legal xs c \<and> build_mode tgt = Debug \<longrightarrow> (\<exists>m. conn_run tgt xs c = Abort m)) \<and>
   (\<forall>c'. unat (conn_state c) \<le> 5 \<and> legal xs c \<and> conn_run tgt xs c = Done c' \<longrightarrow> unat (conn_state c') \<le> 5)"
  using conn_run_legal [of xs c tgt] conn_run_illegal [of tgt xs c] legal_last_state [of xs c]
  by (auto simp: conn_after_def)

theorem connection_well_formed_witness:
  "conn_run \<lparr>build_mode = Release, native_endian = Big\<rparr>
     [Append_read [1, 2], Set_state 3, Append_write [9], Clear_write, Consume_read 1, Append_frame [7] 10, Consume_write 4]
     (fst (Connection_new \<lparr>native_handle = 5\<rparr>)) =
   Done \<lparr>conn_socket = \<lparr>native_handle = 5\<rparr>, conn_state = 3, read_buf = [2], write_buf = [7]\<rparr>"
proof -
  let ?xs = "[Append_read [1, 2], Set_state 3, Append_write [9], Clear_write, Consume_read 1, Append_frame [7] 10, Consume_write 4]"
  let ?c = "fst (Connection_new \<lparr>native_handle = 5\<rparr>)"
  have f: "fits 10 [7]" "frame [7] = [0, 0, 0, 1, 7]" by (simp_all add: fits_def frame_def push_be32_def)
  have c: "conn_socket ?c = \<lparr>native_handle = 5\<rparr>" "conn_state ?c = 1" "read_buf ?c = []" "write_buf ?c = []"
    by (simp_all add: Connection_new_def Socket_move_def CS_Reading_def)
  note hist = received_def read_taken_def last_state_def written_def write_taken_def since_clear_def
  have "legal ?xs ?c"
    by (simp add: legal_def less_Suc_eq legal_op_def hist c f)
  then have "conn_run \<lparr>build_mode = Release, native_endian = Big\<rparr> ?xs ?c =
      Done \<lparr>conn_socket = conn_socket ?c, conn_state = last_state ?xs (conn_state ?c),
        read_buf = drop (read_taken ?xs) (received ?xs (read_buf ?c)),
        write_buf = drop (write_taken ?xs) (written ?xs (write_buf ?c))\<rparr>"
    using connection_well_formed [of ?xs ?c "\<lparr>build_mode = Release, native_endian = Big\<rparr>"] by blast
  then show ?thesis by (simp only: c) (simp add: hist f)
qed

end
