(* ===== verification/Transport.thy ===== *)
theory Transport
  imports Connection
begin

text \<open>
  \<^verbatim>\<open>src/net/recv.cpp\<close> and \<^verbatim>\<open>src/net/send.cpp\<close>: one non-blocking receive into, or send from, a
  connection. The argument \<open>script\<close> lists what the kernel returns to the successive \<^verbatim>\<open>::recv\<close> or
  \<^verbatim>\<open>::send\<close> calls; the unused rest of it is returned. \<open>None\<close> is a call still looping on \<^verbatim>\<open>EINTR\<close>.
\<close>

section \<open>Receiving\<close>

datatype RecvErrorCode = RecvWouldBlock | RecvClosed | RecvIoError | RecvInvalidArgument

record RecvError =
  re_code :: RecvErrorCode
  re_message :: string
  re_native_error :: int

definition recv_err :: "RecvErrorCode \<Rightarrow> string \<Rightarrow> int \<Rightarrow> RecvError" where
  "recv_err code msg native = \<lparr>re_code = code, re_message = msg, re_native_error = native\<rparr>"

text \<open>\<^verbatim>\<open>::recv\<close> returns the number of bytes it wrote at the front of the buffer, or -1 and \<^verbatim>\<open>errno\<close>.\<close>

datatype recv_ret = Received "byte list" | RecvFailed errno

fun recv_interrupted :: "posix \<Rightarrow> recv_ret \<Rightarrow> bool" where
  "recv_interrupted px (Received d) = False"
| "recv_interrupted px (RecvFailed e) = (e = eintr px)"

definition receive_nonblocking ::
  "posix \<Rightarrow> Connection \<Rightarrow> byte list \<Rightarrow> recv_ret list \<Rightarrow>
     (((RecvError + size_t) \<times> Connection) outcome \<times> recv_ret list) option" where
  "receive_nonblocking px conn scratch script =
     (if scratch = []
      then Some (Done (Inl (recv_err RecvInvalidArgument ''scratch buffer is empty'' 0), conn), script)
      else if \<not> Socket_valid (conn_socket conn)
      then Some (Done (Inl (recv_err RecvIoError ''connection socket is invalid'' 0), conn), script)
      else
        (case retry_eintr (recv_interrupted px) script of
           None \<Rightarrow> None
         | Some (RecvFailed e, rest) \<Rightarrow>
             if e = eagain px \<or> e = ewouldblock px
             then Some (Done (Inl (recv_err RecvWouldBlock ''recv would block'' e), conn), rest)
             else Some (Done (Inl (recv_err RecvIoError ''recv failed'' e), conn), rest)
         | Some (Received d, rest) \<Rightarrow>
             if length d = 0
             then Some (Done (Inl (recv_err RecvClosed ''peer closed connection'' 0), conn), rest)
             else if length scratch < length d then Some (Undefined ''span::first'', rest)
             else
               let scratch' = d @ drop (length d) scratch;
                   chunk = take (length d) scratch'
               in Some (Done (Inr (length chunk), append_read chunk conn), rest)))"

section \<open>Sending\<close>

datatype SendErrorCode = SendWouldBlock | SendIoError

record SendError =
  sde_code :: SendErrorCode
  sde_message :: string
  sde_native_error :: int

definition send_err :: "SendErrorCode \<Rightarrow> string \<Rightarrow> int \<Rightarrow> SendError" where
  "send_err code msg native = \<lparr>sde_code = code, sde_message = msg, sde_native_error = native\<rparr>"

text \<open>\<^verbatim>\<open>::send\<close> returns how many bytes, from the front of the buffer, the kernel took.\<close>

datatype send_ret = Sent nat | SendFailed errno

fun send_interrupted :: "posix \<Rightarrow> send_ret \<Rightarrow> bool" where
  "send_interrupted px (Sent n) = False"
| "send_interrupted px (SendFailed e) = (e = eintr px)"

definition flush_write_nonblocking ::
  "target \<Rightarrow> posix \<Rightarrow> Connection \<Rightarrow> send_ret list \<Rightarrow>
     (((SendError + size_t) \<times> Connection) outcome \<times> send_ret list) option" where
  "flush_write_nonblocking tgt px conn script =
     (if write_buf conn = [] then Some (Done (Inr 0, conn), script)
      else if \<not> Socket_valid (conn_socket conn)
      then Some (Done (Inl (send_err SendIoError ''connection socket is invalid'' 0), conn), script)
      else
        (case retry_eintr (send_interrupted px) script of
           None \<Rightarrow> None
         | Some (SendFailed e, rest) \<Rightarrow>
             if e = eagain px \<or> e = ewouldblock px
             then Some (Done (Inl (send_err SendWouldBlock ''send would block'' e), conn), rest)
             else Some (Done (Inl (send_err SendIoError ''send failed'' e), conn), rest)
         | Some (Sent n, rest) \<Rightarrow>
             if n = 0 then Some (Done (Inl (send_err SendIoError ''send returned 0'' 0), conn), rest)
             else Some (bind_outcome (consume_write tgt n conn) (\<lambda>conn'. Done (Inr n, conn')), rest)))"

section \<open>What the kernel promises\<close>

text \<open>POSIX: \<^verbatim>\<open>recv\<close> never returns more bytes than the buffer it was given, nor does \<^verbatim>\<open>send\<close>.\<close>

fun recv_fits :: "nat \<Rightarrow> recv_ret \<Rightarrow> bool" where
  "recv_fits n (Received d) = (length d \<le> n)"
| "recv_fits n (RecvFailed e) = True"

fun send_fits :: "nat \<Rightarrow> send_ret \<Rightarrow> bool" where
  "send_fits n (Sent k) = (k \<le> n)"
| "send_fits n (SendFailed e) = True"

section \<open>Facts\<close>

lemma retry_eintr_head:
  "\<not> i r \<Longrightarrow> list_all i pre \<Longrightarrow> retry_eintr i (pre @ r # rest) = Some (r, rest)"
  by simp

lemma receive_nonblocking_loops_iff:
  "receive_nonblocking px conn scratch script = None \<longleftrightarrow>
     scratch \<noteq> [] \<and> Socket_valid (conn_socket conn) \<and> list_all (recv_interrupted px) script"
  by (auto simp: receive_nonblocking_def Let_def simp flip: retry_eintr_None_iff
      split: option.splits recv_ret.splits prod.splits if_splits)

lemma flush_loops_iff:
  "flush_write_nonblocking tgt px conn script = None \<longleftrightarrow>
     write_buf conn \<noteq> [] \<and> Socket_valid (conn_socket conn) \<and> list_all (send_interrupted px) script"
  by (auto simp: flush_write_nonblocking_def simp flip: retry_eintr_None_iff
      split: option.splits send_ret.splits prod.splits if_splits)

lemma receive_cases:
  assumes "receive_nonblocking px conn scratch script = Some (out, rest)"
    and "scratch \<noteq> []" "Socket_valid (conn_socket conn)"
  obtains (data) pre d where "script = pre @ Received d # rest" "list_all (recv_interrupted px) pre" "d \<noteq> []"
      "out = (if length d \<le> length scratch then Done (Inr (length d), append_read d conn)
              else Undefined ''span::first'')"
  | (closed) pre where "script = pre @ Received [] # rest" "list_all (recv_interrupted px) pre"
      "out = Done (Inl (recv_err RecvClosed ''peer closed connection'' 0), conn)"
  | (blocked) pre e where "script = pre @ RecvFailed e # rest" "list_all (recv_interrupted px) pre"
      "e = eagain px \<or> e = ewouldblock px" "e \<noteq> eintr px"
      "out = Done (Inl (recv_err RecvWouldBlock ''recv would block'' e), conn)"
  | (failed) pre e where "script = pre @ RecvFailed e # rest" "list_all (recv_interrupted px) pre"
      "e \<noteq> eagain px" "e \<noteq> ewouldblock px" "e \<noteq> eintr px"
      "out = Done (Inl (recv_err RecvIoError ''recv failed'' e), conn)"
proof -
  from assms obtain r rest' where r: "retry_eintr (recv_interrupted px) script = Some (r, rest')"
    by (auto simp: receive_nonblocking_def split: option.splits)
  from retry_eintr_Some [OF r] obtain pre where
    p: "script = pre @ r # rest'" "list_all (recv_interrupted px) pre" "\<not> recv_interrupted px r" by auto
  show thesis
  proof (cases r)
    case (Received d)
    with assms r p show thesis
      by (cases "d = []") (auto simp: receive_nonblocking_def Let_def split: if_splits intro: data closed)
  next
    case (RecvFailed e)
    with assms r p show thesis
      by (auto simp: receive_nonblocking_def split: if_splits intro: blocked failed)
  qed
qed

lemma flush_cases:
  assumes "flush_write_nonblocking tgt px conn script = Some (out, rest)"
    and "write_buf conn \<noteq> []" "Socket_valid (conn_socket conn)"
  obtains (taken) pre n where "script = pre @ Sent n # rest" "list_all (send_interrupted px) pre" "0 < n"
      "out = bind_outcome (consume_write tgt n conn) (\<lambda>conn'. Done (Inr n, conn'))"
  | (zero) pre where "script = pre @ Sent 0 # rest" "list_all (send_interrupted px) pre"
      "out = Done (Inl (send_err SendIoError ''send returned 0'' 0), conn)"
  | (blocked) pre e where "script = pre @ SendFailed e # rest" "list_all (send_interrupted px) pre"
      "e = eagain px \<or> e = ewouldblock px" "e \<noteq> eintr px"
      "out = Done (Inl (send_err SendWouldBlock ''send would block'' e), conn)"
  | (failed) pre e where "script = pre @ SendFailed e # rest" "list_all (send_interrupted px) pre"
      "e \<noteq> eagain px" "e \<noteq> ewouldblock px" "e \<noteq> eintr px"
      "out = Done (Inl (send_err SendIoError ''send failed'' e), conn)"
proof -
  from assms obtain r rest' where r: "retry_eintr (send_interrupted px) script = Some (r, rest')"
    by (auto simp: flush_write_nonblocking_def split: option.splits)
  from retry_eintr_Some [OF r] obtain pre where
    p: "script = pre @ r # rest'" "list_all (send_interrupted px) pre" "\<not> send_interrupted px r" by auto
  show thesis
  proof (cases r)
    case (Sent n)
    with assms r p show thesis
      by (cases "n = 0") (auto simp: flush_write_nonblocking_def intro: taken zero)
  next
    case (SendFailed e)
    with assms r p show thesis
      by (auto simp: flush_write_nonblocking_def split: if_splits intro: blocked failed)
  qed
qed

section \<open>Properties\<close>

text \<open>C18: A receive appends exactly the bytes the kernel delivered, in order, or changes nothing. On a
  valid socket with a non-empty scratch buffer, and a kernel that never delivers more than it was
  asked for: a successful call stopped at the first result that is not \<^verbatim>\<open>EINTR\<close>, that result is a
  non-empty delivery, its bytes are what was appended to the read buffer and their number is what is
  returned; end of stream is reported exactly for an empty delivery, \<open>WouldBlock\<close> exactly for
  \<^verbatim>\<open>EAGAIN\<close> or \<^verbatim>\<open>EWOULDBLOCK\<close>, and on every error the connection is unchanged.\<close>

theorem receive_exact:
  assumes "receive_nonblocking px conn scratch script = Some (out, rest)"
    and "scratch \<noteq> []" and "Socket_valid (conn_socket conn)"
    and "list_all (recv_fits (length scratch)) script"
  shows "\<exists>pre r res conn'. script = pre @ r # rest \<and> list_all (recv_interrupted px) pre \<and>
    \<not> recv_interrupted px r \<and> out = Done (res, conn') \<and>
    (case r of
       Received d \<Rightarrow>
         if d = [] then conn' = conn \<and> (\<exists>e. res = Inl e \<and> re_code e = RecvClosed)
         else res = Inr (length d) \<and> conn' = conn\<lparr>read_buf := read_buf conn @ d\<rparr>
     | RecvFailed e \<Rightarrow>
         conn' = conn \<and> (\<exists>x. res = Inl x \<and> re_native_error x = e \<and>
           re_code x = (if e = eagain px \<or> e = ewouldblock px then RecvWouldBlock else RecvIoError)))"
  using assms(1-3)
proof (cases rule: receive_cases)
  case (data pre d)
  with assms(4) show ?thesis
    by (intro exI [of _ pre] exI [of _ "Received d"]) (auto simp: append_read_def)
next
  case (closed pre)
  then show ?thesis
    by (intro exI [of _ pre] exI [of _ "Received []"]) (auto simp: recv_err_def)
next
  case (blocked pre e)
  then show ?thesis
    by (intro exI [of _ pre] exI [of _ "RecvFailed e"]) (auto simp: recv_err_def)
next
  case (failed pre e)
  then show ?thesis
    by (intro exI [of _ pre] exI [of _ "RecvFailed e"]) (auto simp: recv_err_def)
qed

theorem receive_exact_witness:
  "let c = \<lparr>conn_socket = \<lparr>native_handle = 5\<rparr>, conn_state = 1, read_buf = [6], write_buf = []\<rparr>;
       out = Done (Inr 2, c\<lparr>read_buf := [6, 7, 8]\<rparr>) :: ((RecvError + size_t) \<times> Connection) outcome
   in \<exists>pre r res conn'.
     [RecvFailed 4, Received [7, 8], RecvFailed 11] = pre @ r # [RecvFailed 11] \<and>
     list_all (recv_interrupted linux) pre \<and> \<not> recv_interrupted linux r \<and> out = Done (res, conn') \<and>
     (case r of
        Received d \<Rightarrow>
          if d = [] then conn' = c \<and> (\<exists>e. res = Inl e \<and> re_code e = RecvClosed)
          else res = Inr (length d) \<and> conn' = c\<lparr>read_buf := read_buf c @ d\<rparr>
      | RecvFailed e \<Rightarrow>
          conn' = c \<and> (\<exists>x. res = Inl x \<and> re_native_error x = e \<and>
            re_code x = (if e = eagain linux \<or> e = ewouldblock linux then RecvWouldBlock else RecvIoError)))"
  unfolding Let_def
  by (rule receive_exact [where scratch = "[0, 0, 0]"])
    (simp_all add: receive_nonblocking_def linux_def Socket_valid_def k_invalid_socket_def append_read_def)

text \<open>C19: A flush loses, duplicates and reorders no byte. When the kernel never takes more than it was
  offered, the bytes it took (\<open>n\<close> when the call returns \<open>n\<close>, none on an error) followed by the new write
  buffer are the old write buffer; a positive count means progress; nothing but the write buffer
  changes; no assertion fails; and \<open>WouldBlock\<close> is reported exactly for \<^verbatim>\<open>EAGAIN\<close> or \<^verbatim>\<open>EWOULDBLOCK\<close>.\<close>

theorem flush_exact:
  assumes "flush_write_nonblocking tgt px conn script = Some (out, rest)"
    and "write_buf conn \<noteq> []" and "Socket_valid (conn_socket conn)"
    and "list_all (send_fits (length (write_buf conn))) script"
  shows "\<exists>pre r res conn'. script = pre @ r # rest \<and> list_all (send_interrupted px) pre \<and>
    \<not> send_interrupted px r \<and> out = Done (res, conn') \<and>
    (case r of
       Sent n \<Rightarrow>
         if n = 0 then conn' = conn \<and> (\<exists>e. res = Inl e \<and> sde_code e = SendIoError)
         else res = Inr n \<and> conn' = conn\<lparr>write_buf := write_buf conn'\<rparr> \<and>
              take n (write_buf conn) @ write_buf conn' = write_buf conn \<and>
              length (write_buf conn') < length (write_buf conn)
     | SendFailed e \<Rightarrow>
         conn' = conn \<and> (\<exists>x. res = Inl x \<and> sde_native_error x = e \<and>
           sde_code x = (if e = eagain px \<or> e = ewouldblock px then SendWouldBlock else SendIoError)))"
  using assms(1-3)
proof (cases rule: flush_cases)
  case (taken pre n)
  with assms(2,4) show ?thesis
    by (intro exI [of _ pre] exI [of _ "Sent n"]) (auto simp: consume_write_Done)
next
  case (zero pre)
  then show ?thesis by (intro exI [of _ pre] exI [of _ "Sent 0"]) (auto simp: send_err_def)
next
  case (blocked pre e)
  then show ?thesis by (intro exI [of _ pre] exI [of _ "SendFailed e"]) (auto simp: send_err_def)
next
  case (failed pre e)
  then show ?thesis by (intro exI [of _ pre] exI [of _ "SendFailed e"]) (auto simp: send_err_def)
qed

theorem flush_exact_witness:
  "let c = \<lparr>conn_socket = \<lparr>native_handle = 5\<rparr>, conn_state = 1, read_buf = [], write_buf = [1, 2, 3 :: byte]\<rparr>;
       out = Done (Inr 2, c\<lparr>write_buf := [3]\<rparr>) :: ((SendError + size_t) \<times> Connection) outcome
   in \<exists>pre r res conn'. [SendFailed 4, Sent 2] = pre @ r # [] \<and> list_all (send_interrupted linux) pre \<and>
    \<not> send_interrupted linux r \<and> out = Done (res, conn') \<and>
    (case r of
       Sent n \<Rightarrow>
         if n = 0 then conn' = c \<and> (\<exists>e. res = Inl e \<and> sde_code e = SendIoError)
         else res = Inr n \<and> conn' = c\<lparr>write_buf := write_buf conn'\<rparr> \<and>
              take n (write_buf c) @ write_buf conn' = write_buf c \<and>
              length (write_buf conn') < length (write_buf c)
     | SendFailed e \<Rightarrow>
         conn' = c \<and> (\<exists>x. res = Inl x \<and> sde_native_error x = e \<and>
           sde_code x = (if e = eagain linux \<or> e = ewouldblock linux then SendWouldBlock else SendIoError)))"
  unfolding Let_def
  by (rule flush_exact [where tgt = "\<lparr>build_mode = Debug, native_endian = Little\<rparr>"])
    (simp_all add: flush_write_nonblocking_def linux_def Socket_valid_def k_invalid_socket_def consume_write_def)

text \<open>The \<^verbatim>\<open>EINTR\<close> loops end. A receive or a flush returns as soon as the kernel gives one result that is
  not an interruption, whatever the connection and the build: it keeps looping exactly when it has
  reached its system call and every result so far was \<^verbatim>\<open>EINTR\<close>.\<close>

lemma transport_terminates:
  "((\<exists>out rest. receive_nonblocking px conn scratch script = Some (out, rest)) \<longleftrightarrow>
      scratch = [] \<or> \<not> Socket_valid (conn_socket conn) \<or> (\<exists>r\<in>set script. \<not> recv_interrupted px r)) \<and>
   ((\<exists>out rest. flush_write_nonblocking tgt px conn sscript = Some (out, rest)) \<longleftrightarrow>
      write_buf conn = [] \<or> \<not> Socket_valid (conn_socket conn) \<or> (\<exists>r\<in>set sscript. \<not> send_interrupted px r))"
  using receive_nonblocking_loops_iff [of px conn scratch script] flush_loops_iff [of tgt px conn sscript]
  by (cases "receive_nonblocking px conn scratch script"; cases "flush_write_nonblocking tgt px conn sscript")
    (auto simp: list_all_iff)

lemma transport_terminates_witness:
  "\<exists>out rest. flush_write_nonblocking \<lparr>build_mode = Release, native_endian = Little\<rparr> linux
     \<lparr>conn_socket = \<lparr>native_handle = 5\<rparr>, conn_state = 1, read_buf = [], write_buf = [1]\<rparr>
     [SendFailed 4, SendFailed 32] = Some (out, rest)"
  by (rule transport_terminates [THEN conjunct2, THEN iffD2]) (simp add: linux_def)

end
