(* ===== verification/Registry.thy ===== *)
theory Registry
  imports Prelude
begin

text \<open>
  The contract shared by the two tables keyed by a socket: the poller's interests
  (\<^verbatim>\<open>SelectPoller::interests_\<close>) and the idle manager's last activity
  (\<^verbatim>\<open>IdleTimeoutManager::last_activity_\<close>). \<open>view\<close> is the table a state holds; putting an admissible
  key stores its value and changes no other entry, dropping a key removes it and nothing else.
\<close>

locale registry =
  fixes put :: "NativeSocket \<Rightarrow> 'v \<Rightarrow> 's \<Rightarrow> 's"
    and drop_key :: "NativeSocket \<Rightarrow> 's \<Rightarrow> 's"
    and view :: "'s \<Rightarrow> NativeSocket \<rightharpoonup> 'v"
    and admissible :: "NativeSocket \<Rightarrow> bool"
  assumes view_put: "admissible k \<Longrightarrow> view (put k v s) = (view s)(k \<mapsto> v)"
    and view_drop: "view (drop_key k s) = (view s)(k := None)"
begin

lemma drop_put: "admissible k \<Longrightarrow> view s k = None \<Longrightarrow> view (drop_key k (put k v s)) = view s"
  by (simp add: view_put view_drop fun_upd_idem)

lemma put_put: "admissible k \<Longrightarrow> view (put k w (put k v s)) = view (put k w s)"
  by (simp add: view_put)

lemma put_commute:
  "admissible j \<Longrightarrow> admissible k \<Longrightarrow> j \<noteq> k \<Longrightarrow>
     view (put j w (put k v s)) = view (put k v (put j w s))"
  by (simp add: view_put fun_upd_twist)

lemma drop_twice: "view (drop_key k (drop_key k s)) = view (drop_key k s)"
  by (simp add: view_drop)

lemma put_dom: "admissible k \<Longrightarrow> dom (view (put k v s)) = insert k (dom (view s))"
  by (simp add: view_put)

lemma drop_dom: "dom (view (drop_key k s)) = dom (view s) - {k}"
  by (simp add: view_drop)

lemma finite_view:
  "finite (dom (view s)) \<Longrightarrow> admissible k \<Longrightarrow> finite (dom (view (put k v s)))"
  "finite (dom (view s)) \<Longrightarrow> finite (dom (view (drop_key k s)))"
  by (simp_all add: put_dom drop_dom)

end

end
