(* ===== verification/Poller.thy ===== *)
theory Poller
  imports Socket Registry
begin

text \<open>
  \<^verbatim>\<open>event_loop.hpp\<close> (event masks, events, the abstract \<^verbatim>\<open>Poller\<close>) and \<^verbatim>\<open>select_poller.cpp\<close>. The
  abstract class is the locale \<open>poller\<close>; \<^verbatim>\<open>SelectPoller\<close> is proved to satisfy it. The unspecified
  iteration order of \<^verbatim>\<open>std::unordered_map\<close> and the result of \<^verbatim>\<open>::select\<close> are arguments. \<^verbatim>\<open>FD_SET\<close> on a
  descriptor outside \<open>0 ..< FD_SETSIZE\<close> writes outside the set, and \<^verbatim>\<open>FD_ISSET\<close> reads outside it: undefined
  behaviour.
\<close>

unbundle bit_operations_syntax

section \<open>Masks and events\<close>

type_synonym EventMask = u8

definition EM_None :: EventMask where "EM_None = 0"
definition EM_Read :: EventMask where "EM_Read = 1"
definition EM_Write :: EventMask where "EM_Write = 2"
definition EM_Error :: EventMask where "EM_Error = 4"

definition mask_or :: "EventMask \<Rightarrow> EventMask \<Rightarrow> EventMask" where
  "mask_or a b = a OR b"

definition mask_and :: "EventMask \<Rightarrow> EventMask \<Rightarrow> EventMask" where
  "mask_and a b = a AND b"

definition has :: "EventMask \<Rightarrow> EventMask \<Rightarrow> bool" where
  "has em b \<longleftrightarrow> mask_and em b \<noteq> EM_None"

record PollError =
  pe_message :: string
  pe_native_error :: int

record Event =
  ev_socket :: NativeSocket
  ev_mask :: EventMask

definition poll_err :: "string \<Rightarrow> int \<Rightarrow> PollError" where
  "poll_err msg native = \<lparr>pe_message = msg, pe_native_error = native\<rparr>"

section \<open>The interface\<close>

locale poller =
  fixes upsert :: "NativeSocket \<Rightarrow> EventMask \<Rightarrow> 'p \<Rightarrow> (PollError + unit) \<times> 'p"
    and erase :: "NativeSocket \<Rightarrow> 'p \<Rightarrow> (PollError + unit) \<times> 'p"
    and interest :: "'p \<Rightarrow> NativeSocket \<rightharpoonup> EventMask"
  assumes upsert_valid: "s \<noteq> k_invalid_socket \<Longrightarrow> fst (upsert s m p) = Inr ()"
    and upsert_interest: "s \<noteq> k_invalid_socket \<Longrightarrow> interest (snd (upsert s m p)) = (interest p)(s \<mapsto> m)"
    and upsert_invalid: "\<exists>e. fst (upsert k_invalid_socket m p) = Inl e"
    and upsert_invalid_interest: "interest (snd (upsert k_invalid_socket m p)) = interest p"
    and erase_ok: "fst (erase s p) = Inr ()"
    and erase_interest: "interest (snd (erase s p)) = (interest p)(s := None)"
begin

lemma upsert_fails_iff: "(\<exists>e. fst (upsert s m p) = Inl e) \<longleftrightarrow> s = k_invalid_socket"
  using upsert_valid [of s m p] upsert_invalid [of m p] by (cases "s = k_invalid_socket") auto

lemma erase_upsert:
  "s \<noteq> k_invalid_socket \<Longrightarrow>
     interest (snd (erase s (snd (upsert s m p)))) = (interest p)(s := None)"
  by (simp add: erase_interest upsert_interest)

lemma interest_other:
  "t \<noteq> s \<Longrightarrow> interest (snd (upsert s m p)) t = interest p t"
  "t \<noteq> s \<Longrightarrow> interest (snd (erase s p)) t = interest p t"
  by (cases "s = k_invalid_socket"; simp add: upsert_interest upsert_invalid_interest erase_interest)+

end

text \<open>Every poller is a registry of interests, for the sockets it accepts.\<close>

sublocale poller \<subseteq> reg: registry "\<lambda>s m p. snd (upsert s m p)" "\<lambda>s p. snd (erase s p)" interest
    "\<lambda>s. s \<noteq> k_invalid_socket"
  by unfold_locales (simp_all add: upsert_interest erase_interest)

section \<open>The select backend\<close>

record SelectPoller =
  interests :: "NativeSocket \<rightharpoonup> EventMask"

definition SelectPoller_default :: SelectPoller where
  "SelectPoller_default = \<lparr>interests = Map.empty\<rparr>"

definition sp_upsert :: "NativeSocket \<Rightarrow> EventMask \<Rightarrow> SelectPoller \<Rightarrow> (PollError + unit) \<times> SelectPoller" where
  "sp_upsert s m p =
     (if s = k_invalid_socket then (Inl (poll_err ''invalid socket'' 0), p)
      else (Inr (), p\<lparr>interests := (interests p)(s \<mapsto> m)\<rparr>))"

definition sp_erase :: "NativeSocket \<Rightarrow> SelectPoller \<Rightarrow> (PollError + unit) \<times> SelectPoller" where
  "sp_erase s p = (Inr (), p\<lparr>interests := (interests p)(s := None)\<rparr>)"

type_synonym fd_set = "NativeSocket set"

record timeval =
  tv_sec :: int
  tv_usec :: int

text \<open>The arguments of one \<^verbatim>\<open>::select\<close> call, and what it returns and leaves in the three sets.\<close>

record select_call =
  sc_nfds :: int
  sc_read :: fd_set
  sc_write :: fd_set
  sc_except :: fd_set
  sc_timeout :: "timeval option"

record select_ret =
  sr_rc :: int
  sr_err :: errno
  sr_read :: fd_set
  sr_write :: fd_set
  sr_except :: fd_set

text \<open>The entries of the map, in the order \<open>order\<close> in which it is iterated.\<close>

definition entries :: "NativeSocket list \<Rightarrow> SelectPoller \<Rightarrow> (NativeSocket \<times> EventMask) list" where
  "entries order p =
     concat (map (\<lambda>s. case interests p s of None \<Rightarrow> [] | Some m \<Rightarrow> [(s, m)]) order)"

definition iterates :: "NativeSocket list \<Rightarrow> SelectPoller \<Rightarrow> bool" where
  "iterates order p \<longleftrightarrow> distinct order \<and> set order = dom (interests p)"

definition FD_SET :: "posix \<Rightarrow> NativeSocket \<Rightarrow> fd_set \<Rightarrow> fd_set outcome" where
  "FD_SET px fd S =
     (if 0 \<le> fd \<and> fd < fd_setsize px then Done (insert fd S) else Undefined ''FD_SET out of range'')"

text \<open>The loop that fills the sets and computes the largest descriptor.\<close>

fun fill_sets :: "posix \<Rightarrow> (NativeSocket \<times> EventMask) list \<Rightarrow>
    fd_set \<times> fd_set \<times> fd_set \<times> int \<Rightarrow> (fd_set \<times> fd_set \<times> fd_set \<times> int) outcome" where
  "fill_sets px [] st = Done st"
| "fill_sets px ((sock, em) # es) (r, w, x, max_fd) =
     bind_outcome (if has em EM_Read then FD_SET px sock r else Done r) (\<lambda>r'.
     bind_outcome (if has em EM_Write then FD_SET px sock w else Done w) (\<lambda>w'.
     bind_outcome (if has em EM_Error then FD_SET px sock x else Done x) (\<lambda>x'.
       fill_sets px es (r', w', x', if sock > max_fd then sock else max_fd))))"

definition timeout_arg :: "int \<Rightarrow> timeval option" where
  "timeout_arg timeout_ms =
     (if timeout_ms \<ge> 0
      then Some \<lparr>tv_sec = timeout_ms div 1000, tv_usec = (timeout_ms mod 1000) * 1000\<rparr>
      else None)"

text \<open>The largest descriptor is an \<^verbatim>\<open>int\<close>, so adding one to the largest \<^verbatim>\<open>int\<close> overflows.\<close>

definition select_args :: "posix \<Rightarrow> int \<Rightarrow> NativeSocket list \<Rightarrow> SelectPoller \<Rightarrow> select_call outcome" where
  "select_args px timeout_ms order p =
     bind_outcome (fill_sets px (entries order p) ({}, {}, {}, 0)) (\<lambda>(r, w, x, max_fd).
       if max_fd \<ge> 2147483647 then Undefined ''max_fd + 1 overflows''
       else Done \<lparr>sc_nfds = max_fd + 1, sc_read = r, sc_write = w, sc_except = x,
             sc_timeout = timeout_arg timeout_ms\<rparr>)"

definition FD_ISSET :: "posix \<Rightarrow> NativeSocket \<Rightarrow> fd_set \<Rightarrow> bool outcome" where
  "FD_ISSET px fd S =
     (if 0 \<le> fd \<and> fd < fd_setsize px then Done (fd \<in> S) else Undefined ''FD_ISSET out of range'')"

text \<open>The conditions that fired for one socket of the map.\<close>

definition fired :: "posix \<Rightarrow> select_ret \<Rightarrow> NativeSocket \<Rightarrow> EventMask outcome" where
  "fired px ret sock =
     bind_outcome (FD_ISSET px sock (sr_read ret)) (\<lambda>r.
     let f1 = (if r then mask_or EM_None EM_Read else EM_None) in
     bind_outcome (FD_ISSET px sock (sr_write ret)) (\<lambda>w.
     let f2 = (if w then mask_or f1 EM_Write else f1) in
     bind_outcome (FD_ISSET px sock (sr_except ret)) (\<lambda>x.
       Done (if x then mask_or f2 EM_Error else f2))))"

text \<open>The loop that reports events, stopping when the caller's array is full.\<close>

fun collect_events ::
  "posix \<Rightarrow> select_ret \<Rightarrow> nat \<Rightarrow> (NativeSocket \<times> EventMask) list \<Rightarrow> Event list \<Rightarrow> Event list outcome" where
  "collect_events px ret cap [] acc = Done acc"
| "collect_events px ret cap ((sock, m) # es) acc =
     (if length acc \<ge> cap then Done acc
      else
        bind_outcome (fired px ret sock) (\<lambda>f.
          collect_events px ret cap es
            (if f \<noteq> EM_None then acc @ [\<lparr>ev_socket = sock, ev_mask = f\<rparr>] else acc)))"

text \<open>\<open>cap\<close> is the size of \<^verbatim>\<open>out_events\<close>; the result is the events written to its front.\<close>

definition sp_wait ::
  "posix \<Rightarrow> (select_call \<Rightarrow> select_ret) \<Rightarrow> nat \<Rightarrow> int \<Rightarrow> NativeSocket list \<Rightarrow> SelectPoller \<Rightarrow>
     (PollError + Event list) outcome" where
  "sp_wait px sel cap timeout_ms order p =
     (if cap = 0 then Done (Inl (poll_err ''out_events must not be empty'' 0))
      else
        bind_outcome (select_args px timeout_ms order p) (\<lambda>c.
          let ret = sel c
          in if sr_rc ret < 0 then Done (Inl (poll_err ''select() failed'' (sr_err ret)))
             else if sr_rc ret = 0 then Done (Inr [])
             else bind_outcome (collect_events px ret cap (entries order p) []) (\<lambda>evs. Done (Inr evs))))"

section \<open>What select promises\<close>

text \<open>POSIX: on success the sets are reduced to the ready descriptors among those asked for.\<close>

definition select_contract :: "(select_call \<Rightarrow> select_ret) \<Rightarrow> bool" where
  "select_contract sel \<longleftrightarrow>
     (\<forall>c. 0 \<le> sr_rc (sel c) \<longrightarrow>
        sr_read (sel c) \<subseteq> sc_read c \<and> sr_write (sel c) \<subseteq> sc_write c \<and> sr_except (sel c) \<subseteq> sc_except c)"

section \<open>Facts\<close>

lemmas mask_defs = EM_None_def EM_Read_def EM_Write_def EM_Error_def mask_or_def mask_and_def has_def

interpretation select: poller sp_upsert sp_erase interests
  by unfold_locales (auto simp: sp_upsert_def sp_erase_def)

lemma set_entries: "iterates order p \<Longrightarrow> set (entries order p) = {(s, m). interests p s = Some m}"
  by (force simp: entries_def iterates_def dom_def split: option.splits)

lemma distinct_entries: "iterates order p \<Longrightarrow> distinct (map fst (entries order p))"
proof -
  have "distinct order \<Longrightarrow> distinct (map fst (entries order p)) \<and> fst ` set (entries order p) \<subseteq> set order" for order
    by (induction order) (auto simp: entries_def split: option.splits)
  then show "iterates order p \<Longrightarrow> ?thesis" by (simp add: iterates_def)
qed

definition selectable :: "posix \<Rightarrow> NativeSocket \<times> EventMask \<Rightarrow> bool" where
  "selectable px e \<longleftrightarrow>
     (has (snd e) EM_Read \<or> has (snd e) EM_Write \<or> has (snd e) EM_Error \<longrightarrow>
        0 \<le> fst e \<and> fst e < fd_setsize px)"

lemma fill_sets_Done:
  "list_all (selectable px) es \<Longrightarrow>
     fill_sets px es (r, w, x, m) =
       Done (r \<union> {s. \<exists>k. (s, k) \<in> set es \<and> has k EM_Read},
             w \<union> {s. \<exists>k. (s, k) \<in> set es \<and> has k EM_Write},
             x \<union> {s. \<exists>k. (s, k) \<in> set es \<and> has k EM_Error},
             fold (\<lambda>e a. max a (fst e)) es m)"
proof (induction px es "(r, w, x, m)" arbitrary: r w x m rule: fill_sets.induct)
  case (2 px sock em es r w x m)
  then show ?case
    by (auto simp: selectable_def FD_SET_def max_def)
qed simp

lemma fill_sets_Undefined:
  "\<not> list_all (selectable px) es \<Longrightarrow> fill_sets px es st = Undefined ''FD_SET out of range''"
proof (induction px es st rule: fill_sets.induct)
  case (2 px sock em es r w x m)
  then show ?case
    by (auto simp: selectable_def FD_SET_def)
qed simp

lemma fold_max_bound:
  "m \<le> fold (\<lambda>e a. max a (fst e)) es m \<and> (\<forall>e\<in>set es. fst e \<le> fold (\<lambda>e a. max a (fst e)) es (m::int))"
proof (induction es arbitrary: m)
  case (Cons e es)
  from Cons [of "max m (fst e)"] show ?case by auto
qed simp

lemma fold_max_less:
  "m < b \<Longrightarrow> \<forall>e\<in>set es. fst e < b \<Longrightarrow> fold (\<lambda>e a. max a (fst e)) es m < (b::int)"
  by (induction es arbitrary: m) auto

lemma select_args_Done_iff:
  assumes "iterates order p"
  shows "select_args px t order p = Done c \<longleftrightarrow>
     (\<forall>s m. interests p s = Some m \<longrightarrow> selectable px (s, m)) \<and>
     fold (\<lambda>e a. max a (fst e)) (entries order p) 0 < 2147483647 \<and>
     c = \<lparr>sc_nfds = fold (\<lambda>e a. max a (fst e)) (entries order p) 0 + 1,
          sc_read = {s. \<exists>m. interests p s = Some m \<and> has m EM_Read},
          sc_write = {s. \<exists>m. interests p s = Some m \<and> has m EM_Write},
          sc_except = {s. \<exists>m. interests p s = Some m \<and> has m EM_Error},
          sc_timeout = timeout_arg t\<rparr>"
proof (cases "list_all (selectable px) (entries order p)")
  case True
  with set_entries [OF assms] show ?thesis
    by (auto simp: select_args_def fill_sets_Done list_all_iff)
next
  case False
  with set_entries [OF assms] show ?thesis
    by (auto simp: select_args_def fill_sets_Undefined list_all_iff)
qed

lemma select_args_Undefined_iff:
  assumes "iterates order p"
  shows "select_args px t order p = Undefined ''FD_SET out of range'' \<longleftrightarrow>
     (\<exists>s m. interests p s = Some m \<and> \<not> selectable px (s, m))"
proof (cases "list_all (selectable px) (entries order p)")
  case True
  with set_entries [OF assms] show ?thesis
    by (auto simp: select_args_def fill_sets_Done list_all_iff)
next
  case False
  with set_entries [OF assms] show ?thesis
    by (auto simp: select_args_def fill_sets_Undefined list_all_iff)
qed

text \<open>The conditions that the returned sets give for a socket, and the events that follow from them.\<close>

definition fired_mask :: "select_ret \<Rightarrow> NativeSocket \<Rightarrow> EventMask" where
  "fired_mask ret sock =
     (let f0 = EM_None;
          f1 = (if sock \<in> sr_read ret then mask_or f0 EM_Read else f0);
          f2 = (if sock \<in> sr_write ret then mask_or f1 EM_Write else f1)
      in if sock \<in> sr_except ret then mask_or f2 EM_Error else f2)"

definition ready_events :: "select_ret \<Rightarrow> (NativeSocket \<times> EventMask) list \<Rightarrow> Event list" where
  "ready_events ret es =
     map (\<lambda>(s, m). \<lparr>ev_socket = s, ev_mask = fired_mask ret s\<rparr>)
       (filter (\<lambda>(s, m). fired_mask ret s \<noteq> EM_None) es)"

lemma fired_eq:
  "fired px ret s =
     (if 0 \<le> s \<and> s < fd_setsize px then Done (fired_mask ret s) else Undefined ''FD_ISSET out of range'')"
  by (simp add: fired_def FD_ISSET_def fired_mask_def Let_def)

lemma collect_events_Done:
  "collect_events px ret cap es acc = Done evs \<Longrightarrow> length acc \<le> cap \<Longrightarrow> evs = take cap (acc @ ready_events ret es)"
proof (induction px ret cap es acc rule: collect_events.induct)
  case (2 px ret cap sock m es acc)
  from 2(1) [of "fired_mask ret sock"] 2(2,3) show ?case
    by (auto simp: ready_events_def fired_eq take_Cons' split: if_splits)
qed (simp add: ready_events_def)

lemma collect_events_in_range:
  "list_all (\<lambda>(s, m). 0 \<le> s \<and> s < fd_setsize px) es \<Longrightarrow> \<exists>evs. collect_events px ret cap es acc = Done evs"
  by (induction px ret cap es acc rule: collect_events.induct) (auto simp: fired_eq)

lemma collect_events_range:
  "(\<exists>evs. collect_events px ret cap es acc = Done evs) \<or>
     collect_events px ret cap es acc = Undefined ''FD_ISSET out of range''"
  by (induction px ret cap es acc rule: collect_events.induct) (auto simp: fired_eq)

lemma fired_mask_bits:
  "has (fired_mask ret s) EM_Read \<longleftrightarrow> s \<in> sr_read ret"
  "has (fired_mask ret s) EM_Write \<longleftrightarrow> s \<in> sr_write ret"
  "has (fired_mask ret s) EM_Error \<longleftrightarrow> s \<in> sr_except ret"
  "fired_mask ret s \<noteq> EM_None \<longleftrightarrow> s \<in> sr_read ret \<or> s \<in> sr_write ret \<or> s \<in> sr_except ret"
  by (auto simp: fired_mask_def mask_defs)

lemma sp_wait_events:
  assumes "sp_wait px sel cap t order p = Done (Inr evs)"
  obtains c where "select_args px t order p = Done c" "0 \<le> sr_rc (sel c)"
    "evs = (if sr_rc (sel c) = 0 then [] else take cap (ready_events (sel c) (entries order p)))"
proof -
  from assms obtain c where c: "select_args px t order p = Done c" "0 \<le> sr_rc (sel c)"
    "(if sr_rc (sel c) = 0 then evs = [] else collect_events px (sel c) cap (entries order p) [] = Done evs)"
    by (auto simp: sp_wait_def Let_def split: if_splits)
  with that collect_events_Done [of px "sel c" cap "entries order p" "[]" evs] show thesis by (auto split: if_splits)
qed

lemma distinct_ready_events:
  assumes "iterates order p"
  shows "distinct (map ev_socket (ready_events ret (entries order p)))"
proof -
  have "map ev_socket (ready_events ret es) = map fst (filter (\<lambda>(s, m). fired_mask ret s \<noteq> EM_None) es)" for es
    by (auto simp: ready_events_def)
  then show ?thesis using distinct_entries [OF assms] by (simp add: distinct_map_filter)
qed

section \<open>Properties\<close>

text \<open>C31: The poller reports only what was asked for. If \<^verbatim>\<open>select\<close> reduces its sets as POSIX says, then
  whatever order the map is iterated in, every event returned is for a registered socket, with a
  non-empty mask that contains only conditions registered for that socket; no socket is reported
  twice, and never more events than fit the caller's array.\<close>

theorem poller_events_sound:
  assumes "select_contract sel" and "iterates order p"
    and "sp_wait px sel cap t order p = Done (Inr evs)"
  shows "length evs \<le> cap \<and> distinct (map ev_socket evs) \<and>
    (\<forall>ev\<in>set evs. \<exists>m. interests p (ev_socket ev) = Some m \<and> ev_mask ev \<noteq> EM_None \<and>
       (\<forall>b\<in>{EM_Read, EM_Write, EM_Error}. has (ev_mask ev) b \<longrightarrow> has m b))"
proof -
  from assms(3) obtain c where c: "select_args px t order p = Done c" "0 \<le> sr_rc (sel c)"
    "evs = (if sr_rc (sel c) = 0 then [] else take cap (ready_events (sel c) (entries order p)))"
    by (rule sp_wait_events)
  have in_sets: "sr_read (sel c) \<subseteq> sc_read c" "sr_write (sel c) \<subseteq> sc_write c" "sr_except (sel c) \<subseteq> sc_except c"
    using assms(1) c(2) by (auto simp: select_contract_def)
  have "\<exists>m. interests p (ev_socket ev) = Some m \<and> ev_mask ev \<noteq> EM_None \<and>
       (\<forall>b\<in>{EM_Read, EM_Write, EM_Error}. has (ev_mask ev) b \<longrightarrow> has m b)"
    if "ev \<in> set (ready_events (sel c) (entries order p))" for ev
    using that in_sets c(1) select_args_Done_iff [OF assms(2)] set_entries [OF assms(2)]
    by (force simp: ready_events_def fired_mask_bits)
  with c(3) distinct_ready_events [OF assms(2), of "sel c"] show ?thesis
    by (auto simp flip: take_map dest: in_set_takeD)
qed

definition ready_now :: "select_call \<Rightarrow> select_ret" where
  "ready_now c = \<lparr>sr_rc = 2, sr_err = 0, sr_read = sc_read c, sr_write = {}, sr_except = {}\<rparr>"

theorem poller_events_sound_witness:
  "length [\<lparr>ev_socket = 4, ev_mask = 1\<rparr>] \<le> (1 :: nat)"
proof -
  have "sp_wait linux ready_now 1 50 [4, 3] \<lparr>interests = [3 \<mapsto> 1, 4 \<mapsto> 3]\<rparr> =
      Done (Inr [\<lparr>ev_socket = 4, ev_mask = 1\<rparr>])"
    by (simp add: sp_wait_def select_args_def entries_def mask_defs FD_SET_def linux_def
        ready_now_def fired_eq fired_mask_def Let_def)
  from poller_events_sound [OF _ _ this] show ?thesis
    by (auto simp: select_contract_def ready_now_def iterates_def)
qed

text \<open>C32: No ready socket is missed. When \<^verbatim>\<open>select\<close> reports readiness and the caller's array has room for
  every registered socket, each registered socket that is in one of the returned sets is reported,
  with exactly the conditions the sets give.\<close>

theorem poller_events_complete:
  assumes "iterates order p" and "sp_wait px sel cap t order p = Done (Inr evs)"
    and "select_args px t order p = Done c" and "sr_rc (sel c) > 0"
    and "card (dom (interests p)) \<le> cap" and "interests p s = Some m"
    and "s \<in> sr_read (sel c) \<union> sr_write (sel c) \<union> sr_except (sel c)"
  shows "\<exists>ev\<in>set evs. ev_socket ev = s \<and>
    (has (ev_mask ev) EM_Read \<longleftrightarrow> s \<in> sr_read (sel c)) \<and>
    (has (ev_mask ev) EM_Write \<longleftrightarrow> s \<in> sr_write (sel c)) \<and>
    (has (ev_mask ev) EM_Error \<longleftrightarrow> s \<in> sr_except (sel c))"
proof -
  have "distinct order" "set order = dom (interests p)" using assms(1) by (auto simp: iterates_def)
  then have "length order = card (dom (interests p))" by (metis distinct_card)
  moreover have "length (entries order p) \<le> length order"
    by (induction order) (auto simp: entries_def split: option.splits)
  moreover have "length (ready_events (sel c) (entries order p)) \<le> length (entries order p)"
    by (simp add: ready_events_def)
  ultimately have "length (ready_events (sel c) (entries order p)) \<le> cap"
    using assms(5) by linarith
  then have "evs = ready_events (sel c) (entries order p)"
    using assms(2,3,4) by (auto elim!: sp_wait_events)
  moreover have "(s, m) \<in> set (entries order p)" using set_entries [OF assms(1)] assms(6) by simp
  ultimately show ?thesis using assms(7)
    by (force simp: ready_events_def fired_mask_bits)
qed

theorem poller_events_complete_witness:
  "\<exists>ev\<in>set [\<lparr>ev_socket = 4, ev_mask = 1\<rparr>, \<lparr>ev_socket = 3, ev_mask = 1\<rparr>]. ev_socket ev = 3 \<and>
     (has (ev_mask ev) EM_Read \<longleftrightarrow> 3 \<in> {3, 4 :: int}) \<and>
     (has (ev_mask ev) EM_Write \<longleftrightarrow> (3 :: int) \<in> {}) \<and> (has (ev_mask ev) EM_Error \<longleftrightarrow> (3 :: int) \<in> {})"
proof -
  let ?p = "\<lparr>interests = [3 \<mapsto> 1, 4 \<mapsto> 3]\<rparr>"
  let ?c = "\<lparr>sc_nfds = 5, sc_read = {3, 4}, sc_write = {4}, sc_except = {},
             sc_timeout = Some \<lparr>tv_sec = 0, tv_usec = 50000\<rparr>\<rparr>"
  have a: "select_args linux 50 [4, 3] ?p = Done ?c"
    by (simp add: select_args_def entries_def mask_defs FD_SET_def linux_def timeout_arg_def)
  have w: "sp_wait linux ready_now 2 50 [4, 3] ?p =
      Done (Inr [\<lparr>ev_socket = 4, ev_mask = 1\<rparr>, \<lparr>ev_socket = 3, ev_mask = 1\<rparr>])"
    by (simp add: sp_wait_def a ready_now_def) (simp add: entries_def fired_eq fired_mask_def mask_defs linux_def)
  show ?thesis
    using poller_events_complete [OF _ w a, of 3 1] by (auto simp: iterates_def ready_now_def)
qed

text \<open>When a wait is defined behaviour. With room for an event, waiting runs into undefined
  behaviour in \<^verbatim>\<open>FD_SET\<close> exactly when a socket registered for some condition has a
  descriptor outside \<open>0 ..< FD_SETSIZE\<close>. If the arguments of \<^verbatim>\<open>select\<close> can be computed, an error is returned exactly when it
  fails; if no registered socket at all, whatever its conditions, is outside that range, the wait returns.\<close>

lemma poller_wait_defined:
  assumes "iterates order p" and "cap \<noteq> 0"
  shows "(sp_wait px sel cap t order p = Undefined ''FD_SET out of range'' \<longleftrightarrow>
       (\<exists>s m. interests p s = Some m \<and> (has m EM_Read \<or> has m EM_Write \<or> has m EM_Error) \<and>
              (s < 0 \<or> fd_setsize px \<le> s))) \<and>
    (\<forall>c. select_args px t order p = Done c \<longrightarrow>
       (if sr_rc (sel c) < 0
        then sp_wait px sel cap t order p = Done (Inl (poll_err ''select() failed'' (sr_err (sel c))))
        else (\<forall>s\<in>dom (interests p). 0 \<le> s \<and> s < fd_setsize px) \<longrightarrow> (\<exists>evs. sp_wait px sel cap t order p = Done (Inr evs))))"
proof
  have "sp_wait px sel cap t order p = Undefined ''FD_SET out of range'' \<longleftrightarrow>
      select_args px t order p = Undefined ''FD_SET out of range''"
  proof (cases "select_args px t order p")
    case (Done c)
    then show ?thesis using assms(2) collect_events_range [of px "sel c" cap "entries order p" "[]"]
      by (auto simp: sp_wait_def Let_def)
  qed (use assms(2) in \<open>simp_all add: sp_wait_def\<close>)
  then show "sp_wait px sel cap t order p = Undefined ''FD_SET out of range'' \<longleftrightarrow>
       (\<exists>s m. interests p s = Some m \<and> (has m EM_Read \<or> has m EM_Write \<or> has m EM_Error) \<and>
              (s < 0 \<or> fd_setsize px \<le> s))"
    by (auto simp: select_args_Undefined_iff [OF assms(1)] selectable_def not_le not_less)
  have "\<exists>evs. collect_events px ret cap (entries order p) [] = Done evs"
    if "\<forall>s\<in>dom (interests p). 0 \<le> s \<and> s < fd_setsize px" for ret
    using that set_entries [OF assms(1)] by (intro collect_events_in_range) (auto simp: list_all_iff)
  then show "\<forall>c. select_args px t order p = Done c \<longrightarrow>
       (if sr_rc (sel c) < 0
        then sp_wait px sel cap t order p = Done (Inl (poll_err ''select() failed'' (sr_err (sel c))))
        else (\<forall>s\<in>dom (interests p). 0 \<le> s \<and> s < fd_setsize px) \<longrightarrow> (\<exists>evs. sp_wait px sel cap t order p = Done (Inr evs)))"
    using assms(2) by (fastforce simp: sp_wait_def Let_def)
qed

lemma poller_wait_defined_witness:
  "sp_wait linux ready_now 8 (- 1) [1024] \<lparr>interests = [1024 \<mapsto> 1]\<rparr> = Undefined ''FD_SET out of range''"
  by (rule poller_wait_defined [THEN conjunct1, THEN iffD2])
    (auto simp: iterates_def mask_defs linux_def)

text \<open>C38: A descriptor at or above \<open>FD_SETSIZE\<close> is accepted and then breaks the next wait. \<^verbatim>\<open>upsert\<close>
  reports success for it, and every wait on the resulting poller with room for an event, whatever
  the iteration order and the kernel, runs into undefined behaviour.\<close>

theorem poller_accepts_unselectable:
  assumes "0 \<le> s" and "fd_setsize px \<le> s" and "sp_upsert s EM_Read p = (res, p')"
    and "iterates order p'" and "cap \<noteq> 0"
  shows "res = Inr () \<and> sp_wait px sel cap t order p' = Undefined ''FD_SET out of range''"
proof -
  from assms(1,3) have "res = Inr ()" and i: "interests p' s = Some EM_Read"
    by (auto simp: sp_upsert_def k_invalid_socket_def)
  moreover from i assms(2) have "select_args px t order p' = Undefined ''FD_SET out of range''"
    by (auto simp: select_args_Undefined_iff [OF assms(4)] selectable_def mask_defs intro!: exI [of _ s])
  ultimately show ?thesis using assms(5) by (simp add: sp_wait_def)
qed

theorem poller_accepts_unselectable_witness:
  "sp_wait linux ready_now 64 50 [1024] \<lparr>interests = [1024 \<mapsto> EM_Read]\<rparr> = Undefined ''FD_SET out of range''"
  by (rule poller_accepts_unselectable [of 1024 linux SelectPoller_default "Inr ()", THEN conjunct2])
    (simp_all add: linux_def sp_upsert_def k_invalid_socket_def SelectPoller_default_def iterates_def)

text \<open>The arguments of the \<^verbatim>\<open>select\<close> call are right. The three sets hold exactly the sockets registered
  for that condition, each below \<open>nfds\<close>; a negative timeout waits without bound, and any other is
  passed as an equal, normalised \<^verbatim>\<open>timeval\<close>.\<close>

lemma poller_select_args:
  assumes "iterates order p" and "select_args px timeout_ms order p = Done c"
  shows "(\<forall>s. s \<in> sc_read c \<longleftrightarrow> (\<exists>m. interests p s = Some m \<and> has m EM_Read)) \<and>
    (\<forall>s. s \<in> sc_write c \<longleftrightarrow> (\<exists>m. interests p s = Some m \<and> has m EM_Write)) \<and>
    (\<forall>s. s \<in> sc_except c \<longleftrightarrow> (\<exists>m. interests p s = Some m \<and> has m EM_Error)) \<and>
    (\<forall>s\<in>sc_read c \<union> sc_write c \<union> sc_except c. 0 \<le> s \<and> s < sc_nfds c \<and> s < fd_setsize px) \<and>
    (case sc_timeout c of
       None \<Rightarrow> timeout_ms < 0
     | Some tv \<Rightarrow> 0 \<le> timeout_ms \<and> 0 \<le> tv_sec tv \<and> 0 \<le> tv_usec tv \<and> tv_usec tv < 1000000 \<and>
         tv_sec tv * 1000000 + tv_usec tv = timeout_ms * 1000)"
proof -
  note c = assms(2) [unfolded select_args_Done_iff [OF assms(1)]]
  have n: "s < sc_nfds c" if "interests p s = Some m" for s m
    using that fold_max_bound [where m = 0 and es = "entries order p"] set_entries [OF assms(1)] c by force
  have "timeout_ms div 1000 * 1000 + timeout_ms mod 1000 = timeout_ms" by simp
  then have "timeout_ms div 1000 * 1000000 + timeout_ms mod 1000 * 1000 = timeout_ms * 1000" by linarith
  then show ?thesis
    using c n by (auto simp: selectable_def timeout_arg_def)
qed

lemma poller_select_args_witness:
  "let c = \<lparr>sc_nfds = 5, sc_read = {3, 4}, sc_write = {4}, sc_except = {},
            sc_timeout = Some \<lparr>tv_sec = 1, tv_usec = 250000\<rparr>\<rparr>
   in \<forall>s\<in>sc_read c \<union> sc_write c \<union> sc_except c. 0 \<le> s \<and> s < sc_nfds c \<and> s < fd_setsize linux"
  unfolding Let_def
  by (rule poller_select_args [of "[4, 3]" "\<lparr>interests = [3 \<mapsto> 1, 4 \<mapsto> 3]\<rparr>" linux 1250,
        THEN conjunct2, THEN conjunct2, THEN conjunct2, THEN conjunct1])
    (auto simp: iterates_def select_args_def entries_def mask_defs FD_SET_def linux_def timeout_arg_def)

end
