(* ===== verification/Acceptor.thy ===== *)
theory Acceptor
  imports Connection Poller
begin

text \<open>
  \<^verbatim>\<open>acceptor.cpp\<close>, \<^verbatim>\<open>accept_ops.cpp\<close> and their headers: opening the listening socket, accepting one
  connection, and registering sockets with a poller. The results of the system calls are arguments;
  the calls made are returned in order, \<open>Sys_opened\<close> marking a descriptor the kernel handed out. The
  acceptor uses only the interface of the poller, so its lemmas are proved in the locale \<open>poller\<close>.
\<close>

unbundle bit_operations_syntax

section \<open>Listening\<close>

datatype ListenerErrorCode =
  ResolveFailed | LE_CreateFailed | SetSockOptFailed | BindFailed | ListenFailed

record ListenerError =
  le_code :: ListenerErrorCode
  le_message :: string
  le_native_error :: int

record Listener =
  listener_socket :: Socket

definition Listener_valid :: "Listener \<Rightarrow> bool" where
  "Listener_valid l \<longleftrightarrow> Socket_valid (listener_socket l)"

definition listener_err :: "ListenerErrorCode \<Rightarrow> string \<Rightarrow> int \<Rightarrow> ListenerError" where
  "listener_err code msg native = \<lparr>le_code = code, le_message = msg, le_native_error = native\<rparr>"

text \<open>What the system calls return for one resolved address; \<open>err\<close> is \<^verbatim>\<open>errno\<close> after the call.\<close>

record addr_env =
  a_socket :: int_ret
  a_setsockopt :: int_ret
  a_bind :: int_ret
  a_close :: int_ret
  a_listen :: int_ret

record gai_ret =
  gai_rc :: int
  gai_message :: string
  gai_list :: "addr_env list"
  gai_errno :: errno

text \<open>The loop over the resolved addresses, \<open>no\<close> being the value of \<^verbatim>\<open>errno\<close> on entry.\<close>

fun try_addresses :: "int \<Rightarrow> errno \<Rightarrow> addr_env list \<Rightarrow> (ListenerError + Listener) \<times> syscall list" where
  "try_addresses backlog no [] =
     (Inl (listener_err BindFailed ''bind() failed for all resolved addresses'' no), [])"
| "try_addresses backlog no (a # as) =
     (if rc (a_socket a) < 0 then try_addresses backlog (err (a_socket a)) as
      else
        let s = rc (a_socket a); sock = \<lparr>native_handle = s\<rparr>;
            opened = [Sys_opened s, Sys_setsockopt s]
        in if rc (a_setsockopt a) \<noteq> 0
           then (Inl (listener_err SetSockOptFailed ''setsockopt(SO_REUSEADDR) failed'' (err (a_setsockopt a))),
                 opened @ Socket_destroy (a_close a) sock)
           else if rc (a_bind a) \<noteq> 0
           then (case Socket_close (a_close a) sock of (_, sock', calls) \<Rightarrow>
                 (case try_addresses backlog (err (a_close a)) as of (res, rest) \<Rightarrow>
                    (res, opened @ [Sys_bind s] @ calls @ Socket_destroy (a_close a) sock' @ rest)))
           else if rc (a_listen a) \<noteq> 0
           then (Inl (listener_err ListenFailed ''listen() failed'' (err (a_listen a))),
                 opened @ [Sys_bind s, Sys_listen s backlog] @ Socket_destroy (a_close a) sock)
           else (case Socket_move sock of (new, old) \<Rightarrow>
                 (Inr \<lparr>listener_socket = new\<rparr>,
                  opened @ [Sys_bind s, Sys_listen s backlog] @ Socket_destroy (a_close a) old)))"

text \<open>\<open>resolve\<close> is \<^verbatim>\<open>::getaddrinfo\<close> on the host (a null pointer when empty) and the printed port.\<close>

definition bind_and_listen ::
  "(string option \<Rightarrow> string \<Rightarrow> gai_ret) \<Rightarrow> string \<Rightarrow> u16 \<Rightarrow> int \<Rightarrow> (ListenerError + Listener) \<times> syscall list" where
  "bind_and_listen resolve host port backlog =
     (if backlog \<le> 0 then (Inl (listener_err ListenFailed ''backlog must be > 0'' 0), [])
      else
        let g = resolve (if host = [] then None else Some host) (decimal (unat port))
        in if gai_rc g \<noteq> 0 then (Inl (listener_err ResolveFailed (gai_message g) (gai_rc g)), [])
           else try_addresses backlog (gai_errno g) (gai_list g))"

section \<open>Accepting\<close>

record AcceptError =
  ae_message :: string
  ae_native_error :: int

definition accept_err :: "string \<Rightarrow> int \<Rightarrow> AcceptError" where
  "accept_err msg native = \<lparr>ae_message = msg, ae_native_error = native\<rparr>"

definition accept_one :: "int_ret \<Rightarrow> Socket \<Rightarrow> (AcceptError + Socket) \<times> syscall list" where
  "accept_one r listener =
     (if \<not> Socket_valid listener then (Inl (accept_err ''listener socket is invalid'' 0), [])
      else
        let call = Sys_accept (native_handle listener)
        in if rc r < 0 then (Inl (accept_err ''accept() failed'' (err r)), [call])
           else (Inr \<lparr>native_handle = rc r\<rparr>, [call, Sys_opened (rc r)]))"

text \<open>\<^verbatim>\<open>ntohs\<close>, and the 16-bit load of a \<^verbatim>\<open>sockaddr_in\<close>'s port on a target of the given byte order.\<close>

definition ntohs :: "endian \<Rightarrow> u16 \<Rightarrow> u16" where
  "ntohs e x = (case e of Little \<Rightarrow> push_bit 8 x OR drop_bit 8 x | Big \<Rightarrow> x)"

definition load_u16 :: "endian \<Rightarrow> byte \<Rightarrow> byte \<Rightarrow> u16" where
  "load_u16 e p0 p1 =
     (case e of Little \<Rightarrow> ucast p0 OR push_bit 8 (ucast p1) | Big \<Rightarrow> push_bit 8 (ucast p0) OR ucast p1)"

text \<open>\<^verbatim>\<open>::getsockname\<close> returns \<open>r\<close> and leaves the bytes \<open>p0\<close>, \<open>p1\<close> in \<^verbatim>\<open>addr.sin_port\<close>.\<close>

definition local_port_v4 :: "target \<Rightarrow> int_ret \<Rightarrow> byte \<times> byte \<Rightarrow> Socket \<Rightarrow> AcceptError + u16" where
  "local_port_v4 tgt r sin_port listener =
     (if \<not> Socket_valid listener then Inl (accept_err ''listener socket is invalid'' 0)
      else if rc r \<noteq> 0 then Inl (accept_err ''getsockname() failed'' (err r))
      else Inr (ntohs (native_endian tgt) (load_u16 (native_endian tgt) (fst sin_port) (snd sin_port))))"

section \<open>The acceptor\<close>

record Acceptor =
  acceptor_listener :: Listener

definition Acceptor_new :: "Listener \<Rightarrow> Acceptor \<times> Listener" where
  "Acceptor_new l =
     (case Socket_move (listener_socket l) of (new, old) \<Rightarrow>
        (\<lparr>acceptor_listener = \<lparr>listener_socket = new\<rparr>\<rparr>, \<lparr>listener_socket = old\<rparr>))"

definition listener_handle :: "Acceptor \<Rightarrow> NativeSocket" where
  "listener_handle a = native_handle (listener_socket (acceptor_listener a))"

type_synonym 'p upsert_fn = "NativeSocket \<Rightarrow> EventMask \<Rightarrow> 'p \<Rightarrow> (PollError + unit) \<times> 'p"
type_synonym 'p erase_fn = "NativeSocket \<Rightarrow> 'p \<Rightarrow> (PollError + unit) \<times> 'p"

definition register_listener :: "'p upsert_fn \<Rightarrow> Acceptor \<Rightarrow> 'p \<Rightarrow> (PollError + unit) \<times> 'p" where
  "register_listener ups a p = ups (listener_handle a) EM_Read p"

definition unregister_listener :: "'p erase_fn \<Rightarrow> Acceptor \<Rightarrow> 'p \<Rightarrow> (PollError + unit) \<times> 'p" where
  "unregister_listener ers a p = ers (listener_handle a) p"

record accept_env =
  env_accept :: int_ret
  env_getfl :: int_ret
  env_setfl :: int_ret
  env_close :: int_ret

text \<open>On an error return the connection built so far is destroyed, which closes its socket.\<close>

definition accept_and_register ::
  "posix \<Rightarrow> 'p upsert_fn \<Rightarrow> accept_env \<Rightarrow> Acceptor \<Rightarrow> 'p \<Rightarrow> (AcceptError + Connection) \<times> 'p \<times> syscall list" where
  "accept_and_register px ups env a p =
     (case accept_one (env_accept env) (listener_socket (acceptor_listener a)) of
        (Inl e, calls) \<Rightarrow> (Inl e, p, calls)
      | (Inr accepted, calls) \<Rightarrow>
          (case Connection_new accepted of (conn, moved) \<Rightarrow>
          (case set_nonblocking px (env_getfl env) (env_setfl env) True (conn_socket conn) of
             (Inl e, fcntls) \<Rightarrow>
               (Inl (accept_err (''failed to set non-blocking mode on accepted socket: '' @ se_message e)
                       (se_native_error e)),
                p, calls @ fcntls @ Socket_destroy (env_close env) (conn_socket conn)
                     @ Socket_destroy (env_close env) moved)
           | (Inr _, fcntls) \<Rightarrow>
               (case ups (Connection_native_handle conn) EM_Read p of
                  (Inl e, p') \<Rightarrow>
                    (Inl (accept_err (''failed to register accepted socket: '' @ pe_message e)
                            (pe_native_error e)),
                     p', calls @ fcntls @ Socket_destroy (env_close env) (conn_socket conn)
                           @ Socket_destroy (env_close env) moved)
                | (Inr _, p') \<Rightarrow>
                    (Inr conn, p', calls @ fcntls @ Socket_destroy (env_close env) moved)))))"

section \<open>Descriptors\<close>

text \<open>The open descriptors after a list of calls; \<open>None\<close> if one closes a descriptor that is not open.\<close>

fun open_after :: "syscall list \<Rightarrow> NativeSocket set \<Rightarrow> NativeSocket set option" where
  "open_after [] S = Some S"
| "open_after (Sys_opened s # cs) S = open_after cs (insert s S)"
| "open_after (Sys_close s # cs) S = (if s \<in> S then open_after cs (S - {s}) else None)"
| "open_after (_ # cs) S = open_after cs S"

lemmas acceptor_calls = Socket_destroy_def Socket_close_def Socket_move_def Connection_new_def
  set_nonblocking_def Socket_valid_def k_invalid_socket_def Connection_native_handle_def Let_def

context poller
begin

lemma accept_and_register_eq:
  "accept_and_register px upsert env a p =
     (let l = listener_handle a; fd = rc (env_accept env);
          got = [Sys_accept l, Sys_opened fd];
          nb = rc (env_getfl env) OR o_nonblock px;
          failed = (\<lambda>code. accept_err
            (''failed to set non-blocking mode on accepted socket: '' @ se_message code) (se_native_error code))
      in if l = k_invalid_socket then (Inl (accept_err ''listener socket is invalid'' 0), p, [])
         else if fd < 0 then (Inl (accept_err ''accept() failed'' (err (env_accept env))), p, [Sys_accept l])
         else if rc (env_getfl env) < 0
         then (Inl (failed (make_error NonBlockingFailed ''fcntl(F_GETFL) failed'' (err (env_getfl env)))), p,
               got @ [Sys_getfl fd, Sys_close fd])
         else if rc (env_setfl env) \<noteq> 0
         then (Inl (failed (make_error NonBlockingFailed ''fcntl(F_SETFL) failed'' (err (env_setfl env)))), p,
               got @ [Sys_getfl fd, Sys_setfl fd nb, Sys_close fd])
         else (Inr \<lparr>conn_socket = \<lparr>native_handle = fd\<rparr>, conn_state = CS_Reading, read_buf = [], write_buf = []\<rparr>,
               snd (upsert fd EM_Read p), got @ [Sys_getfl fd, Sys_setfl fd nb]))"
proof -
  have "\<exists>p'. upsert fd EM_Read p = (Inr (), p')" if "\<not> fd < 0" for fd
    using upsert_valid [of fd EM_Read p] that
    by (cases "upsert fd EM_Read p") (auto simp: k_invalid_socket_def)
  then have reg: "upsert fd EM_Read p = (Inr (), snd (upsert fd EM_Read p))"
    if "\<not> fd < 0" for fd using that by (metis snd_conv)
  show ?thesis
  proof (cases "rc (env_accept env) < 0")
    case True
    then show ?thesis
      by (simp add: accept_and_register_def accept_one_def listener_handle_def acceptor_calls)
  next
    case False
    have fd: "rc (env_accept env) \<noteq> - 1" using False by simp
    from reg [OF False] obtain p' where "upsert (rc (env_accept env)) EM_Read p = (Inr (), p')" by blast
    with False fd show ?thesis
      by (simp add: accept_and_register_def accept_one_def listener_handle_def acceptor_calls)
  qed
qed

lemma accept_and_register_ok_iff:
  "(\<exists>conn. fst (accept_and_register px upsert env a p) = Inr conn) \<longleftrightarrow>
     listener_handle a \<noteq> k_invalid_socket \<and> 0 \<le> rc (env_accept env) \<and>
     0 \<le> rc (env_getfl env) \<and> rc (env_setfl env) = 0"
  by (auto simp: accept_and_register_eq Let_def)

lemma accept_and_register_success:
  assumes "accept_and_register px upsert env a p = (Inr conn, p', calls)"
  shows "conn = \<lparr>conn_socket = \<lparr>native_handle = rc (env_accept env)\<rparr>, conn_state = CS_Reading,
                 read_buf = [], write_buf = []\<rparr>"
    and "interest p' = (interest p)(rc (env_accept env) \<mapsto> EM_Read)"
    and "open_after calls S = Some (insert (rc (env_accept env)) S)"
    and "Sys_setfl (rc (env_accept env)) (rc (env_getfl env) OR o_nonblock px) \<in> set calls"
  using assms
  by (auto simp: accept_and_register_eq Let_def upsert_interest k_invalid_socket_def split: if_splits)

lemma accept_and_register_failure:
  assumes "accept_and_register px upsert env a p = (Inl e, p', calls)" "rc (env_accept env) \<notin> S"
  shows "p' = p" and "open_after calls S = Some S"
  using assms by (auto simp: accept_and_register_eq Let_def split: if_splits)

lemma listener_registration:
  "(\<exists>e. fst (register_listener upsert a p) = Inl e) \<longleftrightarrow> listener_handle a = k_invalid_socket"
  "listener_handle a \<noteq> k_invalid_socket \<Longrightarrow>
     interest (snd (register_listener upsert a p)) = (interest p)(listener_handle a \<mapsto> EM_Read)"
  "fst (unregister_listener erase a p) = Inr ()"
  "interest (snd (unregister_listener erase a p)) = (interest p)(listener_handle a := None)"
  by (simp_all add: register_listener_def unregister_listener_def upsert_fails_iff upsert_interest
      erase_ok erase_interest)

end

section \<open>Listening, address by address\<close>

text \<open>An address the loop passes over, and what the first other one makes of the search.\<close>

definition passed_over :: "addr_env \<Rightarrow> bool" where
  "passed_over a \<longleftrightarrow> rc (a_socket a) < 0 \<or> rc (a_setsockopt a) = 0 \<and> rc (a_bind a) \<noteq> 0"

definition settled_by :: "addr_env \<Rightarrow> ListenerError + Listener" where
  "settled_by a =
     (if rc (a_setsockopt a) \<noteq> 0
      then Inl (listener_err SetSockOptFailed ''setsockopt(SO_REUSEADDR) failed'' (err (a_setsockopt a)))
      else if rc (a_listen a) \<noteq> 0 then Inl (listener_err ListenFailed ''listen() failed'' (err (a_listen a)))
      else Inr \<lparr>listener_socket = \<lparr>native_handle = rc (a_socket a)\<rparr>\<rparr>)"

text \<open>\<^verbatim>\<open>errno\<close> after passing over an address: set by \<^verbatim>\<open>::socket\<close>, or last by closing.\<close>

definition errno_left :: "addr_env \<Rightarrow> errno" where
  "errno_left a = (if rc (a_socket a) < 0 then err (a_socket a) else err (a_close a))"

lemma try_addresses_eq:
  "fst (try_addresses backlog no as) =
     (case find (\<lambda>a. \<not> passed_over a) as of
        Some a \<Rightarrow> settled_by a
      | None \<Rightarrow> Inl (listener_err BindFailed ''bind() failed for all resolved addresses''
                  (last (no # map errno_left as))))"
proof (induction as arbitrary: no)
  case (Cons a as)
  then show ?case
    by (auto simp: passed_over_def settled_by_def errno_left_def Let_def Socket_move_def split_def
        split: option.splits)
qed simp

lemma open_after_append:
  "open_after (xs @ ys) S = (case open_after xs S of Some T \<Rightarrow> open_after ys T | None \<Rightarrow> None)"
  by (induction xs S rule: open_after.induct) auto

lemma try_addresses_open:
  "\<forall>a\<in>set as. rc (a_socket a) \<notin> S \<Longrightarrow>
   open_after (snd (try_addresses backlog no as)) S =
     Some (case fst (try_addresses backlog no as) of
             Inl _ \<Rightarrow> S | Inr l \<Rightarrow> insert (native_handle (listener_socket l)) S)"
proof (induction as arbitrary: no)
  case (Cons a as)
  then have "rc (a_socket a) \<notin> S" "\<And>no. open_after (snd (try_addresses backlog no as)) S =
      Some (case fst (try_addresses backlog no as) of
          Inl _ \<Rightarrow> S | Inr l \<Rightarrow> insert (native_handle (listener_socket l)) S)" by auto
  then show ?case
    by (simp add: acceptor_calls split_def)
qed simp

lemma try_addresses_listening:
  "fst (try_addresses backlog no as) = Inr l \<Longrightarrow>
     Listener_valid l \<and> 0 \<le> native_handle (listener_socket l) \<and>
     Sys_bind (native_handle (listener_socket l)) \<in> set (snd (try_addresses backlog no as)) \<and>
     Sys_listen (native_handle (listener_socket l)) backlog \<in> set (snd (try_addresses backlog no as))"
proof (induction as arbitrary: no)
  case (Cons a as)
  then show ?case
    by (auto simp: acceptor_calls Listener_valid_def split_def split: if_splits)
qed simp

section \<open>Properties\<close>

text \<open>C30: Accepting registers exactly the accepted socket, or nothing. \<^verbatim>\<open>accept_and_register\<close> succeeds exactly
  when the listener is valid, \<^verbatim>\<open>accept\<close> returns a descriptor and both \<^verbatim>\<open>fcntl\<close> calls work; registering
  can then not fail. On success the connection owns the accepted descriptor, is in state Reading with
  empty buffers, has been asked to be non-blocking, and is registered for reading, all other interests
  unchanged. On failure the poller is unchanged and a descriptor that was accepted has been closed.\<close>

theorem accept_registers:
  assumes "accept_and_register px sp_upsert env a p = (res, p', calls)" and "rc (env_accept env) \<notin> S"
  shows "((\<exists>conn. res = Inr conn) \<longleftrightarrow> listener_handle a \<noteq> k_invalid_socket \<and> 0 \<le> rc (env_accept env) \<and>
      0 \<le> rc (env_getfl env) \<and> rc (env_setfl env) = 0) \<and>
    (\<forall>conn. res = Inr conn \<longrightarrow>
      Connection_native_handle conn = rc (env_accept env) \<and> conn_state conn = CS_Reading \<and>
      read_buf conn = [] \<and> write_buf conn = [] \<and>
      interests p' = (interests p)(rc (env_accept env) \<mapsto> EM_Read) \<and>
      Sys_setfl (rc (env_accept env)) (rc (env_getfl env) OR o_nonblock px) \<in> set calls \<and>
      open_after calls S = Some (insert (rc (env_accept env)) S)) \<and>
    (\<forall>e. res = Inl e \<longrightarrow> p' = p \<and> open_after calls S = Some S)"
  using select.accept_and_register_ok_iff [of px env a p] assms
    select.accept_and_register_success [of px env a p _ p' calls]
    select.accept_and_register_failure [of px env a p _ p' calls S]
  by (auto simp: Connection_native_handle_def)

theorem accept_registers_witness:
  "\<exists>res p' calls. accept_and_register linux sp_upsert
       \<lparr>env_accept = \<lparr>rc = 7, err = 0\<rparr>, env_getfl = \<lparr>rc = 2, err = 0\<rparr>, env_setfl = \<lparr>rc = - 1, err = 9\<rparr>,
        env_close = \<lparr>rc = 0, err = 0\<rparr>\<rparr>
       \<lparr>acceptor_listener = \<lparr>listener_socket = \<lparr>native_handle = 3\<rparr>\<rparr>\<rparr> SelectPoller_default = (res, p', calls) \<and>
     p' = SelectPoller_default \<and> open_after calls {3} = Some {3}"
proof -
  let ?env = "\<lparr>env_accept = \<lparr>rc = 7, err = 0\<rparr>, env_getfl = \<lparr>rc = 2, err = 0\<rparr>,
    env_setfl = \<lparr>rc = - 1, err = 9\<rparr>, env_close = \<lparr>rc = 0, err = 0\<rparr>\<rparr>"
  let ?a = "\<lparr>acceptor_listener = \<lparr>listener_socket = \<lparr>native_handle = 3\<rparr>\<rparr>\<rparr>"
  obtain res p' calls where r: "accept_and_register linux sp_upsert ?env ?a SelectPoller_default = (res, p', calls)"
    by (rule prod_cases3)
  have "rc (env_accept ?env) \<notin> {3}" by simp
  from accept_registers [OF r this] have "\<not> (\<exists>conn. res = Inr conn)" by simp
  then obtain e where "res = Inl e" by (cases res) auto
  with accept_registers [OF r \<open>rc (env_accept ?env) \<notin> {3}\<close>] r show ?thesis by blast
qed

text \<open>Opening a listener leaks nothing. If the kernel hands out descriptors that are not open, then
  after \<^verbatim>\<open>bind_and_listen\<close>, whatever the calls for each resolved address return, every descriptor opened
  on the way has been closed again except the one of the listener returned, no descriptor was closed
  twice, and a listener returned is valid, bound, and listening with the caller's backlog.\<close>

lemma listener_no_leak:
  assumes "bind_and_listen resolve host port backlog = (res, calls)"
    and "\<forall>h. \<forall>a\<in>set (gai_list (resolve h (decimal (unat port)))). rc (a_socket a) \<notin> S"
  shows "open_after calls S =
      Some (case res of Inl _ \<Rightarrow> S | Inr l \<Rightarrow> insert (native_handle (listener_socket l)) S) \<and>
    (\<forall>l. res = Inr l \<longrightarrow> Listener_valid l \<and> 0 < backlog \<and>
       Sys_bind (native_handle (listener_socket l)) \<in> set calls \<and>
       Sys_listen (native_handle (listener_socket l)) backlog \<in> set calls)"
proof -
  define g where "g = resolve (if host = [] then None else Some host) (decimal (unat port))"
  have eq: "bind_and_listen resolve host port backlog =
      (if backlog \<le> 0 then (Inl (listener_err ListenFailed ''backlog must be > 0'' 0), [])
       else if gai_rc g \<noteq> 0 then (Inl (listener_err ResolveFailed (gai_message g) (gai_rc g)), [])
       else try_addresses backlog (gai_errno g) (gai_list g))"
    by (simp add: bind_and_listen_def g_def Let_def)
  show ?thesis
  proof (cases "backlog \<le> 0 \<or> gai_rc g \<noteq> 0")
    case True
    with assms(1) eq show ?thesis by (auto split: if_splits)
  next
    case False
    then have r: "try_addresses backlog (gai_errno g) (gai_list g) = (res, calls)"
      using assms(1) eq by simp
    from assms(2) have "\<forall>a\<in>set (gai_list g). rc (a_socket a) \<notin> S" by (simp add: g_def)
    from try_addresses_open [OF this, of backlog "gai_errno g"]
      try_addresses_listening [of backlog "gai_errno g" "gai_list g"] r False
    show ?thesis by auto
  qed
qed

text \<open>Three addresses: no socket, not bindable, and one that works.\<close>

definition demo_addrs :: "addr_env list" where
  "demo_addrs =
     (let ok = \<lparr>rc = 0, err = 0\<rparr>; bad = \<lparr>rc = - 1, err = 98\<rparr>;
          a = (\<lambda>s b. \<lparr>a_socket = s, a_setsockopt = ok, a_bind = b, a_close = ok, a_listen = ok\<rparr>)
      in [a bad ok, a \<lparr>rc = 5, err = 0\<rparr> bad, a \<lparr>rc = 5, err = 0\<rparr> ok])"

lemma listener_no_leak_witness:
  "open_after [Sys_opened 5, Sys_setsockopt 5, Sys_bind 5, Sys_close 5,
     Sys_opened 5, Sys_setsockopt 5, Sys_bind 5, Sys_listen 5 128] {0, 1, 2} = Some {5, 0, 1, 2}"
proof -
  let ?resolve = "\<lambda>h p. \<lparr>gai_rc = 0, gai_message = [], gai_list = demo_addrs, gai_errno = 0\<rparr>"
  let ?calls = "[Sys_opened 5, Sys_setsockopt 5, Sys_bind 5, Sys_close 5,
     Sys_opened 5, Sys_setsockopt 5, Sys_bind 5, Sys_listen 5 128]"
  have "bind_and_listen ?resolve [] 8080 128 = (Inr \<lparr>listener_socket = \<lparr>native_handle = 5\<rparr>\<rparr>, ?calls)"
    by (simp add: bind_and_listen_def demo_addrs_def acceptor_calls)
  from listener_no_leak [OF this, of "{0, 1, 2}"] show ?thesis
    by (simp add: demo_addrs_def Let_def)
qed

text \<open>The first address that can be bound decides. \<^verbatim>\<open>bind_and_listen\<close> is equal to: find the first
  resolved address with a socket and either a failing \<^verbatim>\<open>setsockopt\<close> or a working \<^verbatim>\<open>bind\<close>; its
  \<^verbatim>\<open>setsockopt\<close> and \<^verbatim>\<open>listen\<close> results are the result; if there is none, the error is BindFailed with the
  \<^verbatim>\<open>errno\<close> left by the last address. A backlog that is not positive and a failed resolution are reported
  before any socket is made.\<close>

lemma listener_first_bindable:
  "fst (bind_and_listen resolve host port backlog) =
     (if backlog \<le> 0 then Inl (listener_err ListenFailed ''backlog must be > 0'' 0)
      else
        let g = resolve (if host = [] then None else Some host) (decimal (unat port))
        in if gai_rc g \<noteq> 0 then Inl (listener_err ResolveFailed (gai_message g) (gai_rc g))
           else (case find (\<lambda>a. \<not> passed_over a) (gai_list g) of
                   Some a \<Rightarrow> settled_by a
                 | None \<Rightarrow> Inl (listener_err BindFailed ''bind() failed for all resolved addresses''
                             (last (gai_errno g # map errno_left (gai_list g))))))"
  by (simp add: bind_and_listen_def Let_def try_addresses_eq)

text \<open>C40: A failure to create any socket is reported as a failed bind. When \<^verbatim>\<open>::socket\<close> fails for every
  resolved address, \<^verbatim>\<open>bind_and_listen\<close> makes no \<^verbatim>\<open>::bind\<close> call (in fact no call on any socket), yet the
  error says ``bind() failed for all resolved addresses''; the code CreateFailed, declared for this,
  is never returned by any call.\<close>

theorem listener_create_failure_reported_as_bind:
  "(0 < backlog \<and> gai_rc (resolve (if host = [] then None else Some host) (decimal (unat port))) = 0 \<and>
     list_all (\<lambda>a. rc (a_socket a) < 0)
       (gai_list (resolve (if host = [] then None else Some host) (decimal (unat port)))) \<longrightarrow>
     (\<exists>e. bind_and_listen resolve host port backlog = (Inl e, []) \<and> le_code e = BindFailed \<and>
        le_message e = ''bind() failed for all resolved addresses'')) \<and>
   (\<forall>e. fst (bind_and_listen resolve host port backlog) = Inl e \<longrightarrow> le_code e \<noteq> LE_CreateFailed)"
proof -
  have none: "try_addresses backlog no as =
      (Inl (listener_err BindFailed ''bind() failed for all resolved addresses''
         (last (no # map (\<lambda>a. err (a_socket a)) as))), [])"
    if "list_all (\<lambda>a. rc (a_socket a) < 0) as" for no as
    using that by (induction as arbitrary: no) auto
  have "fst (try_addresses backlog no as) = Inl e \<Longrightarrow> le_code e \<noteq> LE_CreateFailed" for no as e
    by (auto simp: try_addresses_eq settled_by_def listener_err_def split: option.splits if_splits)
  then show ?thesis
    by (auto simp: bind_and_listen_def Let_def none listener_err_def split: if_splits)
qed

theorem listener_create_failure_reported_as_bind_witness:
  "\<exists>e. bind_and_listen (\<lambda>h p. \<lparr>gai_rc = 0, gai_message = [], gai_list =
       [\<lparr>a_socket = \<lparr>rc = - 1, err = 24\<rparr>, a_setsockopt = \<lparr>rc = 0, err = 0\<rparr>, a_bind = \<lparr>rc = 0, err = 0\<rparr>,
         a_close = \<lparr>rc = 0, err = 0\<rparr>, a_listen = \<lparr>rc = 0, err = 0\<rparr>\<rparr>], gai_errno = 0\<rparr>) [] 80 5 = (Inl e, []) \<and>
     le_code e = BindFailed \<and> le_message e = ''bind() failed for all resolved addresses''"
  by (rule listener_create_failure_reported_as_bind [THEN conjunct1, THEN mp]) simp

text \<open>The local port is read correctly on every target. When \<^verbatim>\<open>getsockname\<close> leaves the two bytes of a
  port in network order, \<^verbatim>\<open>local_port_v4\<close> returns that port on little- and big-endian targets alike, for
  all 65536 ports; an invalid listener and a failing call are reported as errors.\<close>

lemma local_port_network_order:
  "local_port_v4 tgt r (ucast (drop_bit 8 port), ucast port) listener =
     (if \<not> Socket_valid listener then Inl (accept_err ''listener socket is invalid'' 0)
      else if rc r \<noteq> 0 then Inl (accept_err ''getsockname() failed'' (err r))
      else Inr port)"
proof -
  have "ntohs e (load_u16 e (ucast (drop_bit 8 port)) (ucast port)) = port" for e
  proof (rule bit_eqI)
    fix n assume "possible_bit TYPE(u16) n"
    then have "n < 16" by simp
    then consider "n < 8" | k where "n = 8 + k" "k < 8"
      by (metis add_less_cancel_left le_add_diff_inverse not_less numeral_plus_numeral semiring_norm(2) semiring_norm(8) semiring_norm(10) one_plus_BitM linorder_le_less_linear numeral_Bit0)
    then show "bit (ntohs e (load_u16 e (ucast (drop_bit 8 port)) (ucast port))) n = bit port n"
      by cases (cases e; auto simp: ntohs_def load_u16_def bit_simps word_bytes)+
  qed
  then show ?thesis by (simp add: local_port_v4_def)
qed

end
