(* ===== verification/Dispatcher.thy ===== *)
theory Dispatcher
  imports Prelude
begin

text \<open>
  \<^verbatim>\<open>dispatcher.hpp\<close> and \<^verbatim>\<open>dispatcher.cpp\<close>: the request handler interface and its echo implementation. A
  handler is a virtual function that may return a response or an error, or throw; since it may keep
  state of its own, the model describes it by the outcomes it can have on a payload. The locale
  \<open>handler\<close> is the interface the worker pool relies on, with the specification its responses meet.
\<close>

datatype DispatchErrorCode = Internal

record DispatchError =
  de_code :: DispatchErrorCode
  de_message :: string

text \<open>A call of \<^verbatim>\<open>dispatch\<close> returns, throws a \<^verbatim>\<open>std::exception\<close> with a message, or throws something else.\<close>

datatype dispatch_run =
    Returned "DispatchError + byte list"
  | Threw_std string
  | Threw_other

definition echo_dispatch :: "byte list \<Rightarrow> DispatchError + byte list" where
  "echo_dispatch request_payload = Inr request_payload"

definition echo_runs :: "byte list \<Rightarrow> dispatch_run \<Rightarrow> bool" where
  "echo_runs p r \<longleftrightarrow> r = Returned (echo_dispatch p)"

text \<open>The try block of the worker loop: exceptions become errors with the code Internal.\<close>

fun guarded :: "dispatch_run \<Rightarrow> DispatchError + byte list" where
  "guarded (Returned x) = x"
| "guarded (Threw_std what) = Inl \<lparr>de_code = Internal, de_message = what\<rparr>"
| "guarded Threw_other = Inl \<lparr>de_code = Internal, de_message = ''unknown exception in dispatcher''\<rparr>"

fun_cases guarded_InrE: "guarded r = Inr x"

text \<open>\<open>runs p r\<close>: a call on payload \<open>p\<close> may end as \<open>r\<close>; \<open>spec\<close> is what its guarded outcome satisfies.\<close>

locale handler =
  fixes runs :: "byte list \<Rightarrow> dispatch_run \<Rightarrow> bool"
    and spec :: "byte list \<Rightarrow> DispatchError + byte list \<Rightarrow> bool"
  assumes runs_spec: "runs p r \<Longrightarrow> spec p (guarded r)"
begin

lemma response_returned: "runs p r \<Longrightarrow> guarded r = Inr x \<Longrightarrow> r = Returned (Inr x) \<and> spec p (Inr x)"
  using runs_spec [of p r] by (auto elim: guarded_InrE)

end

interpretation echo: handler echo_runs "\<lambda>p out. out = Inr p"
  by unfold_locales (simp add: echo_runs_def echo_dispatch_def)

end
