(* ===== verification/Echo_Server.thy ===== *)
theory Echo_Server
  imports Transport Acceptor Dispatcher
begin

text \<open>
  Serving one connection in the echo server of \<^verbatim>\<open>benchmarks/e2e_echo_benchmark.cpp\<close>, the program that puts the
  components together: read what the kernel has, decode the frames, dispatch them to the echo handler,
  encode the replies and flush them. The results of the system calls of a run are scripts, one per kind
  of call, consumed from the front; \<open>None\<close> is a run that has used up a script and waits for the kernel.
  \<open>wire\<close> collects the bytes the kernel took from the connection; no operation reads it.
\<close>

unbundle bit_operations_syntax

definition k_max_payload :: u64 where
  "k_max_payload = push_bit 20 1"

definition accept_would_block :: "posix \<Rightarrow> int \<Rightarrow> bool" where
  "accept_would_block px e \<longleftrightarrow> e = eagain px \<or> e = ewouldblock px"

record ConnSlot =
  sl_conn :: Connection
  awaiting_reply_flush :: bool

datatype ReadOutcome = ReadOk | PeerClosed

record serving =
  slot :: ConnSlot
  srv_poller :: SelectPoller
  completions :: int
  wire :: "byte list"

abbreviation conn_of :: "serving \<Rightarrow> Connection" where
  "conn_of st \<equiv> sl_conn (slot st)"

definition set_conn :: "Connection \<Rightarrow> serving \<Rightarrow> serving" where
  "set_conn c st = st\<lparr>slot := (slot st)\<lparr>sl_conn := c\<rparr>\<rparr>"

definition set_interest :: "EventMask \<Rightarrow> serving \<Rightarrow> serving" where
  "set_interest em st =
     st\<lparr>srv_poller := snd (sp_upsert (Connection_native_handle (conn_of st)) em (srv_poller st))\<rparr>"

definition EM_Read_Write :: EventMask where
  "EM_Read_Write = mask_or EM_Read EM_Write"

section \<open>Flushing\<close>

lemma flush_uses_script:
  assumes "flush_write_nonblocking tgt px c script = Some (Done (Inr n, c'), rest)" "n \<noteq> 0"
  shows "length rest < length script" "read_buf c' = read_buf c" "conn_socket c' = conn_socket c"
proof -
  have wb: "write_buf c \<noteq> []" "Socket_valid (conn_socket c)"
    using assms by (auto simp: flush_write_nonblocking_def split: if_splits)
  from assms(1) wb show "length rest < length script"
    by (cases rule: flush_cases) auto
  from assms(1) wb show "read_buf c' = read_buf c"
    by (cases rule: flush_cases)
      (auto simp: consume_write_def send_err_def assert_that_def split: if_splits)
  from assms(1) wb show "conn_socket c' = conn_socket c"
    by (cases rule: flush_cases)
      (auto simp: consume_write_def send_err_def assert_that_def split: if_splits)
qed

text \<open>The loop of \<^verbatim>\<open>try_flush_writes\<close> around \<^verbatim>\<open>flush_write_nonblocking\<close>: the error that ended it, if any, the
  connection, and the bytes the kernel took.\<close>

function flush_loop ::
  "target \<Rightarrow> posix \<Rightarrow> Connection \<Rightarrow> send_ret list \<Rightarrow>
     ((SendError option \<times> Connection \<times> byte list) outcome \<times> send_ret list) option" where
  "flush_loop tgt px c script =
     (case flush_write_nonblocking tgt px c script of
        None \<Rightarrow> None
      | Some (Abort m, rest) \<Rightarrow> Some (Abort m, rest)
      | Some (Undefined m, rest) \<Rightarrow> Some (Undefined m, rest)
      | Some (Done (Inl e, c'), rest) \<Rightarrow> Some (Done (Some e, c', []), rest)
      | Some (Done (Inr n, c'), rest) \<Rightarrow>
          if n = 0 then Some (Done (None, c', []), rest)
          else (case flush_loop tgt px c' rest of
                  None \<Rightarrow> None
                | Some (out, rest') \<Rightarrow>
                    Some (bind_outcome out (\<lambda>(e, c'', bytes). Done (e, c'', take n (write_buf c) @ bytes)), rest')))"
  by pat_completeness auto
termination
  by (relation "measure (\<lambda>(tgt, px, c, script). length script)") (auto dest: flush_uses_script)

declare flush_loop.simps [simp del]

definition try_flush_writes ::
  "target \<Rightarrow> posix \<Rightarrow> serving \<Rightarrow> send_ret list \<Rightarrow> (serving outcome \<times> send_ret list) option" where
  "try_flush_writes tgt px st script =
     (case flush_loop tgt px (conn_of st) script of
        None \<Rightarrow> None
      | Some (out, rest) \<Rightarrow>
          Some (bind_outcome out (\<lambda>(e, c, bytes).
            let st1 = set_conn c (st\<lparr>wire := wire st @ bytes\<rparr>)
            in case e of
                 Some er \<Rightarrow>
                   if sde_code er = SendWouldBlock then Done (set_interest EM_Read_Write st1)
                   else Abort ''try_flush_writes''
               | None \<Rightarrow>
                   if write_buf c = []
                   then let st2 = (if awaiting_reply_flush (slot st1)
                                   then st1\<lparr>slot := (slot st1)\<lparr>awaiting_reply_flush := False\<rparr>,
                                            completions := completions st1 + 1\<rparr>
                                   else st1)
                        in Done (set_interest EM_Read st2)
                   else Done (set_interest EM_Read_Write st1)), rest))"

section \<open>Serving frames\<close>

text \<open>One turn of the inner loop; the flag tells whether there was a frame.\<close>

definition serve_one ::
  "target \<Rightarrow> posix \<Rightarrow> serving \<Rightarrow> send_ret list \<Rightarrow> ((bool \<times> serving) outcome \<times> send_ret list) option" where
  "serve_one tgt px st script =
     (case try_decode_frame tgt (read_buf (conn_of st)) k_max_payload of
        Abort m \<Rightarrow> Some (Abort m, script)
      | Undefined m \<Rightarrow> Some (Undefined m, script)
      | Done dec \<Rightarrow>
          (case fdr_status dec of
             Incomplete \<Rightarrow> Some (Done (False, st), script)
           | OversizedLength \<Rightarrow> Some (Abort ''oversized frame'', script)
           | Complete \<Rightarrow>
               (case echo_dispatch (fdr_payload dec) of
                  Inl e \<Rightarrow> Some (Abort ''dispatch'', script)
                | Inr out \<Rightarrow>
                    (case append_encoded_frame tgt (write_buf (conn_of st)) out k_max_payload of
                       Abort m \<Rightarrow> Some (Abort m, script)
                     | Undefined m \<Rightarrow> Some (Undefined m, script)
                     | Done (Inl e, wb) \<Rightarrow> Some (Abort ''append_encoded_frame'', script)
                     | Done (Inr _, wb) \<Rightarrow>
                         (case consume_read tgt (consumed_bytes dec) ((conn_of st)\<lparr>write_buf := wb\<rparr>) of
                            Abort m \<Rightarrow> Some (Abort m, script)
                          | Undefined m \<Rightarrow> Some (Undefined m, script)
                          | Done c \<Rightarrow>
                              let st1 = set_conn c st;
                                  st2 = st1\<lparr>slot := (slot st1)\<lparr>awaiting_reply_flush := True\<rparr>\<rparr>;
                                  st3 = set_interest EM_Read_Write st2
                              in (case try_flush_writes tgt px st3 script of
                                    None \<Rightarrow> None
                                  | Some (res, rest) \<Rightarrow>
                                      Some (bind_outcome res (\<lambda>st4. Done (True, st4)), rest)))))))"

lemma flush_loop_keeps:
  "flush_loop tgt px c script = Some (Done (e, c', bytes), rest) \<Longrightarrow>
     read_buf c' = read_buf c \<and> conn_socket c' = conn_socket c \<and> write_buf c = bytes @ write_buf c' \<and>
     (e = None \<longrightarrow> write_buf c' = []) \<and>
     (\<forall>x. e = Some x \<and> sde_code x = SendWouldBlock \<longrightarrow> write_buf c' \<noteq> [])"
proof (induction tgt px c script arbitrary: e c' bytes rest rule: flush_loop.induct)
  case (1 tgt px c script)
  show ?case
  proof (cases "write_buf c = []")
    case True
    with "1.prems" show ?thesis
      by (subst (asm) flush_loop.simps) (simp add: flush_write_nonblocking_def)
  next
    case wb: False
    show ?thesis
    proof (cases "Socket_valid (conn_socket c)")
      case False
      with wb "1.prems" show ?thesis
        by (subst (asm) flush_loop.simps) (auto simp: flush_write_nonblocking_def send_err_def)
    next
      case valid: True
      from "1.prems" obtain out rest0 where fl: "flush_write_nonblocking tgt px c script = Some (out, rest0)"
        by (subst (asm) flush_loop.simps) (auto split: option.splits)
      have stop: "e = Some x \<and> c' = c \<and> bytes = []" if "out = Done (Inl x, c)" for x
        using "1.prems" fl that by (subst (asm) flush_loop.simps) simp
      from fl wb valid show ?thesis
      proof (cases rule: flush_cases)
        case (taken pre n)
        show ?thesis
        proof (cases "consume_write tgt n c")
          case (Done c1)
          with taken fl have fl1: "flush_write_nonblocking tgt px c script = Some (Done (Inr n, c1), rest0)" by simp
          with "1.prems" taken(3) obtain bytes1 where rec:
            "flush_loop tgt px c1 rest0 = Some (Done (e, c', bytes1), rest)" "bytes = take n (write_buf c) @ bytes1"
            by (subst (asm) flush_loop.simps) (auto split: option.splits)
          from "1.IH" [OF fl1 refl refl refl refl _ rec(1)] taken(3) have
            "read_buf c' = read_buf c1" "conn_socket c' = conn_socket c1" "write_buf c1 = bytes1 @ write_buf c'"
            "(e = None \<longrightarrow> write_buf c' = [])"
            "(\<forall>x. e = Some x \<and> sde_code x = SendWouldBlock \<longrightarrow> write_buf c' \<noteq> [])" by auto
          moreover have "write_buf c = take n (write_buf c) @ write_buf c1"
            "read_buf c1 = read_buf c" "conn_socket c1 = conn_socket c"
            using Done by (auto simp: consume_write_def assert_that_def split: if_splits)
          ultimately show ?thesis using rec(2) by simp
        qed (use taken fl "1.prems" in \<open>subst (asm) flush_loop.simps; simp\<close>)+
      qed (use wb in \<open>auto dest!: stop simp: send_err_def\<close>)
    qed
  qed
qed

lemma try_flush_keeps:
  assumes "try_flush_writes tgt px st script = Some (Done st', rest)"
  shows "read_buf (conn_of st') = read_buf (conn_of st)" "conn_socket (conn_of st') = conn_socket (conn_of st)"
    and "wire st' @ write_buf (conn_of st') = wire st @ write_buf (conn_of st)"
    and "srv_poller st' = snd (sp_upsert (Connection_native_handle (conn_of st))
           (if write_buf (conn_of st') = [] then EM_Read else EM_Read_Write) (srv_poller st))"
proof -
  from assms obtain out where fl: "flush_loop tgt px (conn_of st) script = Some (out, rest)"
    by (auto simp: try_flush_writes_def split: option.splits)
  from assms fl obtain e c bytes where out: "out = Done (e, c, bytes)"
    by (cases out) (auto simp: try_flush_writes_def)
  note keeps = flush_loop_keeps [OF fl [unfolded out]]
  show "read_buf (conn_of st') = read_buf (conn_of st)" "conn_socket (conn_of st') = conn_socket (conn_of st)"
    "wire st' @ write_buf (conn_of st') = wire st @ write_buf (conn_of st)"
    "srv_poller st' = snd (sp_upsert (Connection_native_handle (conn_of st))
           (if write_buf (conn_of st') = [] then EM_Read else EM_Read_Write) (srv_poller st))"
    using assms fl out keeps
    by (auto simp: try_flush_writes_def set_conn_def set_interest_def Let_def Connection_native_handle_def
        split: option.splits if_splits)
qed

text \<open>What one turn does when there is a frame.\<close>

lemma serve_one_frame:
  assumes "serve_one tgt px st script = Some (Done (True, st'), rest)"
  obtains p where "fits k_max_payload p" "read_buf (conn_of st) = frame p @ read_buf (conn_of st')"
    "conn_socket (conn_of st') = conn_socket (conn_of st)"
    "wire st' @ write_buf (conn_of st') = wire st @ write_buf (conn_of st) @ frame p"
    "interests (srv_poller st') = (if Socket_valid (conn_socket (conn_of st))
       then (interests (srv_poller st))(Connection_native_handle (conn_of st) \<mapsto>
              (if write_buf (conn_of st') = [] then EM_Read else EM_Read_Write))
       else interests (srv_poller st))"
proof -
  from assms obtain dec where dec: "try_decode_frame tgt (read_buf (conn_of st)) k_max_payload = Done dec"
    "fdr_status dec = Complete"
    by (auto simp: serve_one_def split: outcome.splits DecodeStatus.splits)
  let ?p = "fdr_payload dec"
  from dec have got: "frame_dec tgt k_max_payload (read_buf (conn_of st)) = Got ?p (consumed_bytes dec)"
    by (simp add: frame_dec_def decode_view_def)
  note sound = codec.dec_soundD [OF got]
  from sound(1) have app: "append_encoded_frame tgt (write_buf (conn_of st)) ?p k_max_payload =
      Done (Inr (), write_buf (conn_of st) @ frame ?p)"
    by (simp add: append_encoded_frame_eq)
  define c where "c = (conn_of st)\<lparr>read_buf := drop (consumed_bytes dec) (read_buf (conn_of st)),
    write_buf := write_buf (conn_of st) @ frame ?p\<rparr>"
  have con: "consume_read tgt (consumed_bytes dec) ((conn_of st)\<lparr>write_buf := write_buf (conn_of st) @ frame ?p\<rparr>) = Done c"
    using sound(5) by (auto simp: consume_read_def c_def)
  let ?st3 = "set_interest EM_Read_Write
    ((set_conn c st)\<lparr>slot := (slot (set_conn c st))\<lparr>awaiting_reply_flush := True\<rparr>\<rparr>)"
  from assms dec app con have fl: "try_flush_writes tgt px ?st3 script = Some (Done st', rest)"
    by (auto simp: serve_one_def echo_dispatch_def Let_def split: option.splits)
  note keeps = try_flush_keeps [OF fl]
  show thesis
  proof
    show "fits k_max_payload ?p" by (rule sound(1))
    show "read_buf (conn_of st) = frame ?p @ read_buf (conn_of st')"
      using keeps(1) sound(3) by (simp add: set_interest_def set_conn_def c_def)
    show "conn_socket (conn_of st') = conn_socket (conn_of st)"
      using keeps(2) by (simp add: set_interest_def set_conn_def c_def)
    show "wire st' @ write_buf (conn_of st') = wire st @ write_buf (conn_of st) @ frame ?p"
      using keeps(3) by (simp add: set_interest_def set_conn_def c_def)
    show "interests (srv_poller st') = (if Socket_valid (conn_socket (conn_of st))
       then (interests (srv_poller st))(Connection_native_handle (conn_of st) \<mapsto>
              (if write_buf (conn_of st') = [] then EM_Read else EM_Read_Write))
       else interests (srv_poller st))"
      using keeps(4)
      by (simp add: set_interest_def set_conn_def c_def Connection_native_handle_def sp_upsert_def Socket_valid_def)
  qed
qed

lemma serve_one_idle:
  assumes "serve_one tgt px st script = Some (Done (False, st'), rest)"
  shows "st' = st" "rest = script" "frame_dec tgt k_max_payload (read_buf (conn_of st)) = NeedMore"
  using assms
  by (auto simp: serve_one_def frame_dec_def decode_view_def Let_def
      split: outcome.splits DecodeStatus.splits sum.splits option.splits prod.splits)

lemma serve_one_shrinks:
  "serve_one tgt px st script = Some (Done (True, st'), rest) \<Longrightarrow>
     length (read_buf (conn_of st')) < length (read_buf (conn_of st))"
  by (erule serve_one_frame) simp

text \<open>The inner loop.\<close>

function serve_frames ::
  "target \<Rightarrow> posix \<Rightarrow> serving \<Rightarrow> send_ret list \<Rightarrow> (serving outcome \<times> send_ret list) option" where
  "serve_frames tgt px st script =
     (case serve_one tgt px st script of
        None \<Rightarrow> None
      | Some (Abort m, rest) \<Rightarrow> Some (Abort m, rest)
      | Some (Undefined m, rest) \<Rightarrow> Some (Undefined m, rest)
      | Some (Done (again, st'), rest) \<Rightarrow>
          if again then serve_frames tgt px st' rest else Some (Done st', rest))"
  by pat_completeness auto
termination
  by (relation "measure (\<lambda>(tgt, px, st, script). length (read_buf (conn_of st)))")
    (auto dest: serve_one_shrinks)

declare serve_frames.simps [simp del]

section \<open>Reading\<close>

definition scratch_buffer :: "byte list" where
  "scratch_buffer = replicate 16384 0"

lemma receive_uses_script:
  assumes "receive_nonblocking px c scratch script = Some (Done (Inr n, c'), rest)"
  shows "length rest < length script"
proof -
  have ne: "scratch \<noteq> []" "Socket_valid (conn_socket c)"
    using assms by (auto simp: receive_nonblocking_def split: if_splits)
  from assms ne show ?thesis by (cases rule: receive_cases) auto
qed

text \<open>The outer loop: \<open>ReadOk\<close> when the kernel has no more data, \<open>PeerClosed\<close> at the end of the stream, with
  both buffers cleared (the slot is then removed).\<close>

function read_loop ::
  "target \<Rightarrow> posix \<Rightarrow> serving \<Rightarrow> recv_ret list \<Rightarrow> send_ret list \<Rightarrow>
     ((ReadOutcome \<times> serving) outcome \<times> recv_ret list \<times> send_ret list) option" where
  "read_loop tgt px st rscript sscript =
     (case receive_nonblocking px (conn_of st) scratch_buffer rscript of
        None \<Rightarrow> None
      | Some (Abort m, rs) \<Rightarrow> Some (Abort m, rs, sscript)
      | Some (Undefined m, rs) \<Rightarrow> Some (Undefined m, rs, sscript)
      | Some (Done (Inl e, c), rs) \<Rightarrow>
          (case re_code e of
             RecvWouldBlock \<Rightarrow> Some (Done (ReadOk, set_conn c st), rs, sscript)
           | RecvClosed \<Rightarrow> Some (Done (PeerClosed, set_conn (clear_write (c\<lparr>read_buf := []\<rparr>)) st), rs, sscript)
           | _ \<Rightarrow> Some (Abort ''receive_nonblocking'', rs, sscript))
      | Some (Done (Inr n, c), rs) \<Rightarrow>
          (case serve_frames tgt px (set_conn c st) sscript of
             None \<Rightarrow> None
           | Some (Abort m, ss) \<Rightarrow> Some (Abort m, rs, ss)
           | Some (Undefined m, ss) \<Rightarrow> Some (Undefined m, rs, ss)
           | Some (Done st', ss) \<Rightarrow> read_loop tgt px st' rs ss))"
  by pat_completeness auto
termination
  by (relation "measure (\<lambda>(tgt, px, st, rs, ss). length rs)") (auto dest: receive_uses_script)

declare read_loop.simps [simp del]

section \<open>Echo\<close>

lemma serve_frames_echo:
  "serve_frames tgt px st script = Some (Done st', rest) \<Longrightarrow> Socket_valid (conn_socket (conn_of st)) \<Longrightarrow>
     \<exists>ps. drain (frame_dec tgt k_max_payload) (read_buf (conn_of st)) = (ps, read_buf (conn_of st'), False) \<and>
       wire st' @ write_buf (conn_of st') = wire st @ write_buf (conn_of st) @ concat (map frame ps) \<and>
       conn_socket (conn_of st') = conn_socket (conn_of st) \<and>
       interests (srv_poller st') = (if ps = [] then interests (srv_poller st)
         else (interests (srv_poller st))(Connection_native_handle (conn_of st) \<mapsto>
                (if write_buf (conn_of st') = [] then EM_Read else EM_Read_Write))) \<and>
       (ps = [] \<longrightarrow> write_buf (conn_of st') = write_buf (conn_of st))"
proof (induction tgt px st script arbitrary: st' rest rule: serve_frames.induct)
  case (1 tgt px st script)
  from "1.prems"(1) obtain again st1 rest1 where one: "serve_one tgt px st script = Some (Done (again, st1), rest1)"
    by (subst (asm) serve_frames.simps) (auto split: option.splits outcome.splits prod.splits)
  show ?case
  proof (cases again)
    case False
    with one serve_one_idle [of tgt px st script st1 rest1] have idle: "st1 = st" "rest1 = script"
      "frame_dec tgt k_max_payload (read_buf (conn_of st)) = NeedMore" by auto
    from "1.prems"(1) one False idle have "st' = st" by (subst (asm) serve_frames.simps) simp
    with idle show ?thesis by (intro exI [of _ "[]"]) simp
  next
    case True
    with one have one': "serve_one tgt px st script = Some (Done (True, st1), rest1)" by simp
    from "1.prems"(1) one' have more: "serve_frames tgt px st1 rest1 = Some (Done st', rest)"
      by (subst (asm) serve_frames.simps) simp
    from one' obtain p where p: "fits k_max_payload p" "read_buf (conn_of st) = frame p @ read_buf (conn_of st1)"
      "conn_socket (conn_of st1) = conn_socket (conn_of st)"
      "wire st1 @ write_buf (conn_of st1) = wire st @ write_buf (conn_of st) @ frame p"
      "interests (srv_poller st1) = (if Socket_valid (conn_socket (conn_of st))
         then (interests (srv_poller st))(Connection_native_handle (conn_of st) \<mapsto>
                (if write_buf (conn_of st1) = [] then EM_Read else EM_Read_Write))
         else interests (srv_poller st))" by (rule serve_one_frame)
    from "1.IH" [OF one' refl refl refl _ more] p(3) "1.prems"(2) obtain ps where ps:
      "drain (frame_dec tgt k_max_payload) (read_buf (conn_of st1)) = (ps, read_buf (conn_of st'), False)"
      "wire st' @ write_buf (conn_of st') = wire st1 @ write_buf (conn_of st1) @ concat (map frame ps)"
      "conn_socket (conn_of st') = conn_socket (conn_of st1)"
      "interests (srv_poller st') = (if ps = [] then interests (srv_poller st1)
         else (interests (srv_poller st1))(Connection_native_handle (conn_of st1) \<mapsto>
                (if write_buf (conn_of st') = [] then EM_Read else EM_Read_Write)))"
      "ps = [] \<longrightarrow> write_buf (conn_of st') = write_buf (conn_of st1)" by auto
    have h: "Connection_native_handle (conn_of st1) = Connection_native_handle (conn_of st)"
      using p(3) by (simp add: Connection_native_handle_def)
    have "drain (frame_dec tgt k_max_payload) (read_buf (conn_of st)) = (p # ps, read_buf (conn_of st'), False)"
      using codec.drain_enc [OF p(1), of tgt "read_buf (conn_of st1)"] ps(1) p(2) by simp
    moreover have "wire st' @ write_buf (conn_of st') = wire st @ write_buf (conn_of st) @ concat (map frame (p # ps))"
      using ps(2) p(4) by (metis append_assoc concat.simps(2) list.simps(9))
    moreover have "interests (srv_poller st') = (interests (srv_poller st))(Connection_native_handle (conn_of st) \<mapsto>
        (if write_buf (conn_of st') = [] then EM_Read else EM_Read_Write))"
      using ps(4,5) p(5) "1.prems"(2) h by auto
    ultimately show ?thesis using ps(3) p(3) by (intro exI [of _ "p # ps"]) simp
  qed
qed

fun received_bytes :: "recv_ret list \<Rightarrow> byte list" where
  "received_bytes [] = []"
| "received_bytes (Received d # rs) = d @ received_bytes rs"
| "received_bytes (RecvFailed e # rs) = received_bytes rs"

lemma received_bytes_append [simp]: "received_bytes (xs @ ys) = received_bytes xs @ received_bytes ys"
  by (induction xs rule: received_bytes.induct) auto

lemma received_bytes_interrupted: "list_all (recv_interrupted px) pre \<Longrightarrow> received_bytes pre = []"
  by (induction pre rule: received_bytes.induct) auto

text \<open>The poller asks for writability exactly while there is something to write.\<close>

definition interest_matches :: "serving \<Rightarrow> bool" where
  "interest_matches st \<longleftrightarrow> interests (srv_poller st) (Connection_native_handle (conn_of st)) =
     Some (if write_buf (conn_of st) = [] then EM_Read else EM_Read_Write)"

text \<open>What a run of the outer loop has done, from \<open>st\<close> to \<open>st'\<close>, having received \<open>data\<close>.\<close>

definition echoed :: "target \<Rightarrow> serving \<Rightarrow> byte list \<Rightarrow> ReadOutcome \<Rightarrow> serving \<Rightarrow> bool" where
  "echoed tgt st data res st' \<longleftrightarrow>
     (\<exists>ps left unsent. drain (frame_dec tgt k_max_payload) (read_buf (conn_of st) @ data) = (ps, left, False) \<and>
        wire st' @ unsent = wire st @ write_buf (conn_of st) @ concat (map frame ps) \<and>
        (res = ReadOk \<longrightarrow> left = read_buf (conn_of st') \<and> unsent = write_buf (conn_of st')) \<and>
        (res = PeerClosed \<longrightarrow> read_buf (conn_of st') = [] \<and> write_buf (conn_of st') = [])) \<and>
     conn_socket (conn_of st') = conn_socket (conn_of st) \<and>
     (\<forall>h. h \<noteq> Connection_native_handle (conn_of st) \<longrightarrow> interests (srv_poller st') h = interests (srv_poller st) h) \<and>
     (interest_matches st \<and> res = ReadOk \<longrightarrow> interest_matches st')"

lemma echoed_start:
  "frame_dec tgt k_max_payload (read_buf (conn_of st)) = NeedMore \<Longrightarrow> echoed tgt st [] ReadOk st"
  "frame_dec tgt k_max_payload (read_buf (conn_of st)) = NeedMore \<Longrightarrow>
     echoed tgt st [] PeerClosed (set_conn (clear_write ((conn_of st)\<lparr>read_buf := []\<rparr>)) st)"
  by (simp_all add: echoed_def set_conn_def clear_write_def)

lemma echoed_step:
  assumes "serve_frames tgt px (set_conn (append_read d (conn_of st)) st) ss = Some (Done st1, ss')"
    and "Socket_valid (conn_socket (conn_of st))" and "echoed tgt st1 data res st'"
  shows "echoed tgt st (d @ data) res st'"
proof -
  from serve_frames_echo [OF assms(1)] assms(2) obtain ps where ps:
    "drain (frame_dec tgt k_max_payload) (read_buf (conn_of st) @ d) = (ps, read_buf (conn_of st1), False)"
    "wire st1 @ write_buf (conn_of st1) = wire st @ write_buf (conn_of st) @ concat (map frame ps)"
    "conn_socket (conn_of st1) = conn_socket (conn_of st)"
    "interests (srv_poller st1) = (if ps = [] then interests (srv_poller st)
       else (interests (srv_poller st))(Connection_native_handle (conn_of st) \<mapsto>
              (if write_buf (conn_of st1) = [] then EM_Read else EM_Read_Write)))"
    "ps = [] \<longrightarrow> write_buf (conn_of st1) = write_buf (conn_of st)"
    by (auto simp: set_conn_def append_read_def Connection_native_handle_def)
  from assms(3) obtain qs r un where qs:
    "drain (frame_dec tgt k_max_payload) (read_buf (conn_of st1) @ data) = (qs, r, False)"
    "wire st' @ un = wire st1 @ write_buf (conn_of st1) @ concat (map frame qs)"
    "res = ReadOk \<longrightarrow> r = read_buf (conn_of st') \<and> un = write_buf (conn_of st')"
    "res = PeerClosed \<longrightarrow> read_buf (conn_of st') = [] \<and> write_buf (conn_of st') = []"
    by (auto simp: echoed_def)
  have same: "Connection_native_handle (conn_of st1) = Connection_native_handle (conn_of st)"
    using ps(3) by (simp add: Connection_native_handle_def)
  have all: "drain (frame_dec tgt k_max_payload) (read_buf (conn_of st) @ d @ data) = (ps @ qs, r, False)"
    using codec.drain_append [OF ps(1), of data] qs(1) by simp
  have out: "wire st' @ un = wire st @ write_buf (conn_of st) @ concat (map frame (ps @ qs))"
    using qs(2) ps(2) by (metis append_assoc concat_append map_append)
  have "interest_matches st \<Longrightarrow> interest_matches st1"
    using ps(4,5) same by (auto simp: interest_matches_def split: if_splits)
  moreover have "interests (srv_poller st1) h = interests (srv_poller st) h"
    if "h \<noteq> Connection_native_handle (conn_of st)" for h using that ps(4) by simp
  ultimately have poll: "(\<forall>h. h \<noteq> Connection_native_handle (conn_of st) \<longrightarrow>
      interests (srv_poller st') h = interests (srv_poller st) h) \<and>
     (interest_matches st \<and> res = ReadOk \<longrightarrow> interest_matches st')"
    using assms(3) same by (simp add: echoed_def)
  have "\<exists>fs left unsent. drain (frame_dec tgt k_max_payload) (read_buf (conn_of st) @ d @ data) = (fs, left, False) \<and>
        wire st' @ unsent = wire st @ write_buf (conn_of st) @ concat (map frame fs) \<and>
        (res = ReadOk \<longrightarrow> left = read_buf (conn_of st') \<and> unsent = write_buf (conn_of st')) \<and>
        (res = PeerClosed \<longrightarrow> read_buf (conn_of st') = [] \<and> write_buf (conn_of st') = [])"
    using all out qs(3,4) by blast
  moreover have "conn_socket (conn_of st') = conn_socket (conn_of st)"
    using assms(3) ps(3) by (simp add: echoed_def)
  ultimately show ?thesis using poll unfolding echoed_def by blast
qed

lemma read_loop_echoed:
  "read_loop tgt px st rscript sscript = Some (Done (res, st'), rs, ss) \<Longrightarrow>
   Socket_valid (conn_socket (conn_of st)) \<Longrightarrow> frame_dec tgt k_max_payload (read_buf (conn_of st)) = NeedMore \<Longrightarrow>
     \<exists>used. rscript = used @ rs \<and> echoed tgt st (received_bytes used) res st'"
proof (induction tgt px st rscript sscript arbitrary: res st' rs ss rule: read_loop.induct)
  case (1 tgt px st rscript sscript)
  from "1.prems"(1) obtain out rs0 where rec:
    "receive_nonblocking px (conn_of st) scratch_buffer rscript = Some (out, rs0)"
    by (subst (asm) read_loop.simps) (auto split: option.splits)
  have sb: "scratch_buffer \<noteq> []" by (simp add: scratch_buffer_def)
  have same: "set_conn (conn_of st) st = st" by (simp add: set_conn_def)
  from rec sb "1.prems"(2) show ?case
  proof (cases rule: receive_cases)
    case (data pre d)
    show ?thesis
    proof (cases "length d \<le> length scratch_buffer")
      case True
      with data rec have rec1: "receive_nonblocking px (conn_of st) scratch_buffer rscript =
          Some (Done (Inr (length d), append_read d (conn_of st)), rs0)" by simp
      from "1.prems"(1) rec1 obtain st1 ss1 where srv:
        "serve_frames tgt px (set_conn (append_read d (conn_of st)) st) sscript = Some (Done st1, ss1)"
        "read_loop tgt px st1 rs0 ss1 = Some (Done (res, st'), rs, ss)"
        by (subst (asm) read_loop.simps) (auto split: option.splits outcome.splits)
      from serve_frames_echo [OF srv(1)] "1.prems"(2) obtain ps where ps:
        "drain (frame_dec tgt k_max_payload) (read_buf (conn_of st) @ d) = (ps, read_buf (conn_of st1), False)"
        "conn_socket (conn_of st1) = conn_socket (conn_of st)"
        by (auto simp: set_conn_def append_read_def)
      from codec.drain_sound [OF ps(1)] have "frame_dec tgt k_max_payload (read_buf (conn_of st1)) = NeedMore" by simp
      with "1.IH" [OF rec1 refl refl refl refl srv(1) refl refl srv(2)] ps(2) "1.prems"(2) obtain used where
        used: "rs0 = used @ rs" "echoed tgt st1 (received_bytes used) res st'" by auto
      have "received_bytes (pre @ Received d # used) = d @ received_bytes used"
        using received_bytes_interrupted [OF data(2)] by simp
      with echoed_step [OF srv(1) "1.prems"(2) used(2)] data(1) used(1) show ?thesis
        by (intro exI [of _ "pre @ Received d # used"]) simp
    next
      case False
      with data rec "1.prems"(1) show ?thesis by (subst (asm) read_loop.simps) simp
    qed
  next
    case (closed pre)
    with rec "1.prems"(1) have "res = PeerClosed \<and> st' = set_conn (clear_write ((conn_of st)\<lparr>read_buf := []\<rparr>)) st \<and> rs = rs0"
      by (subst (asm) read_loop.simps) (simp add: recv_err_def)
    with closed echoed_start(2) [OF "1.prems"(3)] received_bytes_interrupted [OF closed(2)] show ?thesis
      by (intro exI [of _ "pre @ [Received []]"]) simp
  next
    case (blocked pre e)
    with rec "1.prems"(1) same have "res = ReadOk \<and> st' = st \<and> rs = rs0"
      by (subst (asm) read_loop.simps) (simp add: recv_err_def)
    with blocked echoed_start(1) [OF "1.prems"(3)] received_bytes_interrupted [OF blocked(2)] show ?thesis
      by (intro exI [of _ "pre @ [RecvFailed e]"]) simp
  next
    case (failed pre e)
    with rec "1.prems"(1) show ?thesis by (subst (asm) read_loop.simps) (simp add: recv_err_def)
  qed
qed

section \<open>Properties\<close>

text \<open>C3: The server echoes the stream. Whatever pieces the kernel delivers the input in and takes the
  output in, on either byte order and in either build, a run of the read loop that returns has decoded
  exactly the frames of the unfinished input before it followed by what it received, in order, and what
  it has put on the wire followed by what is still to write is what it had to write before followed by
  those same frames, encoded. While the connection stays open, the unfinished rest of the input and all
  unsent output stay in the buffers, and the poller watches for writability exactly when there is
  unsent output; at the end of the stream both buffers are dropped. No other socket's interest changes.\<close>

theorem echo_stream:
  assumes "read_loop tgt px st rscript sscript = Some (Done (res, st'), rs, ss)"
    and "Socket_valid (conn_socket (conn_of st))"
    and "frame_dec tgt k_max_payload (read_buf (conn_of st)) = NeedMore"
  shows "\<exists>used frames left unsent. rscript = used @ rs \<and>
     drain (frame_dec tgt k_max_payload) (read_buf (conn_of st) @ received_bytes used) = (frames, left, False) \<and>
     read_buf (conn_of st) @ received_bytes used = concat (map frame frames) @ left \<and>
     wire st' @ unsent = wire st @ write_buf (conn_of st) @ concat (map frame frames) \<and>
     (case res of
        ReadOk \<Rightarrow> read_buf (conn_of st') = left \<and> write_buf (conn_of st') = unsent \<and>
          (interest_matches st \<longrightarrow> interest_matches st')
      | PeerClosed \<Rightarrow> read_buf (conn_of st') = [] \<and> write_buf (conn_of st') = []) \<and>
     (\<forall>h. h \<noteq> Connection_native_handle (conn_of st) \<longrightarrow> interests (srv_poller st') h = interests (srv_poller st) h)"
proof -
  from read_loop_echoed [OF assms] obtain used where used: "rscript = used @ rs"
    "echoed tgt st (received_bytes used) res st'" by blast
  then obtain ps left unsent where
    d: "drain (frame_dec tgt k_max_payload) (read_buf (conn_of st) @ received_bytes used) = (ps, left, False)" and
    w: "wire st' @ unsent = wire st @ write_buf (conn_of st) @ concat (map frame ps)"
    "res = ReadOk \<longrightarrow> left = read_buf (conn_of st') \<and> unsent = write_buf (conn_of st')"
    "res = PeerClosed \<longrightarrow> read_buf (conn_of st') = [] \<and> write_buf (conn_of st') = []"
    unfolding echoed_def by blast
  from used(2) have p: "\<forall>h. h \<noteq> Connection_native_handle (conn_of st) \<longrightarrow>
      interests (srv_poller st') h = interests (srv_poller st) h"
    "interest_matches st \<and> res = ReadOk \<longrightarrow> interest_matches st'"
    unfolding echoed_def by blast+
  show ?thesis
    using used(1) d conjunct1 [OF codec.drain_sound [OF d]] w p
    by (intro exI [of _ used] exI [of _ ps] exI [of _ left] exI [of _ unsent]) (auto split: ReadOutcome.split)
qed

definition demo_serving :: serving where
  "demo_serving = \<lparr>slot = \<lparr>sl_conn = \<lparr>conn_socket = \<lparr>native_handle = 5\<rparr>, conn_state = 1, read_buf = [], write_buf = []\<rparr>,
     awaiting_reply_flush = False\<rparr>, srv_poller = \<lparr>interests = [3 \<mapsto> EM_Read, 5 \<mapsto> EM_Read]\<rparr>, completions = 0, wire = []\<rparr>"

lemmas run_simps = linux_def Socket_valid_def k_invalid_socket_def Connection_native_handle_def set_conn_def
  set_interest_def

lemma demo_flush:
  "flush_loop \<lparr>build_mode = Debug, native_endian = Little\<rparr> linux
     \<lparr>conn_socket = \<lparr>native_handle = 5\<rparr>, conn_state = 1, read_buf = [], write_buf = [0, 0, 0, 1, 7]\<rparr> [Sent 2, Sent 3] =
   Some (Done (None, \<lparr>conn_socket = \<lparr>native_handle = 5\<rparr>, conn_state = 1, read_buf = [], write_buf = []\<rparr>,
     [0, 0, 0, 1, 7]), [])"
  by (subst flush_loop.simps, simp add: flush_write_nonblocking_def consume_write_def run_simps,
      subst flush_loop.simps, simp add: flush_write_nonblocking_def consume_write_def run_simps,
      subst flush_loop.simps, simp add: flush_write_nonblocking_def)

lemma demo_decode:
  "try_decode_frame tgt [0, 0, 0, 1, 7] k_max_payload =
     Done \<lparr>fdr_status = Complete, consumed_bytes = 5, fdr_payload = [7]\<rparr>"
  "append_encoded_frame tgt [] [7] k_max_payload = Done (Inr (), [0, 0, 0, 1, 7])"
  "try_decode_frame tgt [] k_max_payload = Done (default_result Incomplete)"
proof -
  have f: "frame [7] = [0, 0, 0, 1, 7]" "fits k_max_payload [7]"
    by (simp_all add: frame_def push_be32_def fits_def k_max_payload_def)
  from try_decode_frame_frame [OF f(2), of tgt "[]"] f(1)
  show "try_decode_frame tgt [0, 0, 0, 1, 7] k_max_payload =
     Done \<lparr>fdr_status = Complete, consumed_bytes = 5, fdr_payload = [7]\<rparr>" by simp
  show "append_encoded_frame tgt [] [7] k_max_payload = Done (Inr (), [0, 0, 0, 1, 7])"
    using f by (simp add: append_encoded_frame_eq)
  show "try_decode_frame tgt [] k_max_payload = Done (default_result Incomplete)"
    by (simp add: try_decode_frame_eq decode_spec_def)
qed

lemma demo_serve:
  "\<exists>st'. serve_frames \<lparr>build_mode = Debug, native_endian = Little\<rparr> linux
     (set_conn (append_read [0, 0, 0, 1, 7] (conn_of demo_serving)) demo_serving) [Sent 2, Sent 3] =
       Some (Done st', []) \<and> Socket_valid (conn_socket (conn_of st')) \<and> write_buf (conn_of st') = [] \<and>
     wire st' = [0, 0, 0, 1, 7]"
  by (subst serve_frames.simps,
      simp add: serve_one_def demo_serving_def append_read_def set_conn_def demo_decode echo_dispatch_def
        consume_read_def try_flush_writes_def demo_flush set_interest_def,
      subst serve_frames.simps,
      simp add: serve_one_def demo_decode default_result_def Socket_valid_def k_invalid_socket_def)

lemma demo_read:
  "\<exists>st'. read_loop \<lparr>build_mode = Debug, native_endian = Little\<rparr> linux demo_serving
     [Received [0, 0, 0, 1, 7], RecvFailed 11] [Sent 2, Sent 3] = Some (Done (ReadOk, st'), [], []) \<and>
     write_buf (conn_of st') = [] \<and> wire st' = [0, 0, 0, 1, 7]"
proof -
  let ?tgt = "\<lparr>build_mode = Debug, native_endian = Little\<rparr>"
  from demo_serve obtain st' where st': "serve_frames ?tgt linux
     (set_conn (append_read [0, 0, 0, 1, 7] (conn_of demo_serving)) demo_serving) [Sent 2, Sent 3] = Some (Done st', [])"
    "Socket_valid (conn_socket (conn_of st'))" "write_buf (conn_of st') = []" "wire st' = [0, 0, 0, 1, 7]" by blast
  have "receive_nonblocking linux (conn_of demo_serving) scratch_buffer [Received [0, 0, 0, 1, 7], RecvFailed 11] =
      Some (Done (Inr 5, append_read [0, 0, 0, 1, 7] (conn_of demo_serving)), [RecvFailed 11])"
    by (simp add: receive_nonblocking_def scratch_buffer_def demo_serving_def run_simps)
  moreover have "receive_nonblocking linux (conn_of st') scratch_buffer [RecvFailed 11] =
      Some (Done (Inl (recv_err RecvWouldBlock ''recv would block'' 11), conn_of st'), [])"
    using st'(2) by (simp add: receive_nonblocking_def scratch_buffer_def linux_def)
  then have "read_loop ?tgt linux st' [RecvFailed 11] [] = Some (Done (ReadOk, set_conn (conn_of st') st'), [], [])"
    by (subst read_loop.simps) (simp add: recv_err_def)
  ultimately show ?thesis using st' by (subst read_loop.simps) (simp add: set_conn_def)
qed

theorem echo_stream_witness:
  "\<exists>st'. read_loop \<lparr>build_mode = Debug, native_endian = Little\<rparr> linux demo_serving
       [Received [0, 0, 0, 1, 7], RecvFailed 11] [Sent 2, Sent 3] = Some (Done (ReadOk, st'), [], []) \<and>
     wire st' @ write_buf (conn_of st') = [0, 0, 0, 1, 7]"
proof -
  let ?tgt = "\<lparr>build_mode = Debug, native_endian = Little\<rparr>"
  obtain st' where r: "read_loop ?tgt linux demo_serving
      [Received [0, 0, 0, 1, 7], RecvFailed 11] [Sent 2, Sent 3] = Some (Done (ReadOk, st'), [], [])"
    using demo_read by blast
  have "Socket_valid (conn_socket (conn_of demo_serving))"
    "frame_dec ?tgt k_max_payload (read_buf (conn_of demo_serving)) = NeedMore"
    by (simp_all add: demo_serving_def Socket_valid_def k_invalid_socket_def frame_dec_eq)
  from echo_stream [OF r this] obtain used frames left unsent where
    e: "[Received [0, 0, 0, 1, 7], RecvFailed 11] = used @ []"
    "read_buf (conn_of demo_serving) @ received_bytes used = concat (map frame frames) @ left"
    "wire st' @ unsent = wire demo_serving @ write_buf (conn_of demo_serving) @ concat (map frame frames)"
    "write_buf (conn_of st') = unsent"
    "drain (frame_dec ?tgt k_max_payload) (read_buf (conn_of demo_serving) @ received_bytes used) = (frames, left, False)"
    by auto
  have "drain (frame_dec ?tgt k_max_payload) (frame [7] @ []) = ([[7]], [], False)"
    by (subst codec.drain_enc) (simp_all add: fits_def k_max_payload_def frame_dec_eq)
  moreover have "frame [7] = [0, 0, 0, 1, 7]" by (simp add: frame_def push_be32_def)
  moreover have "received_bytes used = [0, 0, 0, 1, 7]" using e(1) by (metis append_Nil2 received_bytes.simps)
  ultimately have "frames = [[7]]" using e(5) by (simp add: demo_serving_def)
  with e(3,4) r \<open>frame [7] = [0, 0, 0, 1, 7]\<close> show ?thesis by (simp add: demo_serving_def)
qed

end
