(* ===== verification/Echo_Progress.thy ===== *)
theory Echo_Progress
  imports Echo_Server
begin

text \<open>
  The loops of the echo server return. Their scripts are the kernel's answers, so "returns" means: once the
  kernel has given enough answers. For the read loop one answer that is not data is needed, and for the
  flushes it starts, at most as many as there are bytes to move, counted by \<open>workload\<close>: each turn of a loop
  uses up an answer only by moving a byte, or by ending a flush, which happens once per frame.
\<close>

definition answers :: "posix \<Rightarrow> send_ret list \<Rightarrow> nat" where
  "answers px script = length (filter (\<lambda>r. \<not> send_interrupted px r) script)"

definition workload :: "Connection \<Rightarrow> nat" where
  "workload c = length (write_buf c) + 2 * length (read_buf c)"

fun ends_reading :: "posix \<Rightarrow> recv_ret \<Rightarrow> bool" where
  "ends_reading px (Received d) = (d = [])"
| "ends_reading px (RecvFailed e) = (e \<noteq> eintr px)"

lemma ends_reading_stops: "ends_reading px r \<Longrightarrow> \<not> recv_interrupted px r"
  by (cases r) auto

lemma answers_simps [simp]:
  "answers px [] = 0"
  "answers px (r # rs) = (if send_interrupted px r then answers px rs else Suc (answers px rs))"
  "answers px (xs @ ys) = answers px xs + answers px ys"
  by (simp_all add: answers_def)

lemma answers_interrupted [simp]: "list_all (send_interrupted px) pre \<Longrightarrow> answers px pre = 0"
  by (induction pre) auto

text \<open>One flush ends and uses one answer, and a turn that sends makes the buffer shorter.\<close>

lemma flush_returns:
  assumes "0 < answers px script"
  obtains out rest where "flush_write_nonblocking tgt px c script = Some (out, rest)"
    "answers px script \<le> Suc (answers px rest)" "answers px rest \<le> answers px script"
    "\<And>n c'. out = Done (Inr n, c') \<Longrightarrow> n \<noteq> 0 \<Longrightarrow> length (write_buf c') < length (write_buf c)"
    "\<And>n c'. out = Done (n, c') \<Longrightarrow> length (write_buf c') \<le> length (write_buf c)"
proof (cases "write_buf c = [] \<or> \<not> Socket_valid (conn_socket c)")
  case True
  then have "\<exists>r. flush_write_nonblocking tgt px c script = Some (Done (r, c), script) \<and> (\<forall>n. r = Inr n \<longrightarrow> n = 0)"
    by (auto simp: flush_write_nonblocking_def)
  then show thesis by (auto intro: that)
next
  case False
  then have wb: "write_buf c \<noteq> []" "Socket_valid (conn_socket c)" by auto
  have "\<not> list_all (send_interrupted px) script" using assms by auto
  then obtain out rest where fl: "flush_write_nonblocking tgt px c script = Some (out, rest)"
    using flush_loops_iff [of tgt px c script] by (cases "flush_write_nonblocking tgt px c script") auto
  have shorter: "length (write_buf c') < length (write_buf c)" if "consume_write tgt n c = Done c'" "0 < n" for n c'
    using that wb(1) by (auto simp: consume_write_def assert_that_def split: if_splits)
  from fl wb show thesis
  proof (cases rule: flush_cases)
    case (taken pre n)
    then show ?thesis
      by (cases "consume_write tgt n c") (auto intro!: that [OF fl] dest: shorter less_imp_le)
  qed (auto intro!: that [OF fl])
qed

lemma flush_loop_returns:
  "length (write_buf c) < answers px script \<Longrightarrow>
     \<exists>out rest. flush_loop tgt px c script = Some (out, rest) \<and> answers px rest \<le> answers px script \<and>
       (\<forall>e c' bytes. out = Done (e, c', bytes) \<longrightarrow>
          answers px script + length (write_buf c') \<le> Suc (answers px rest + length (write_buf c)))"
proof (induction tgt px c script rule: flush_loop.induct)
  case (1 tgt px c script)
  then have "0 < answers px script" by simp
  then obtain out rest where fl: "flush_write_nonblocking tgt px c script = Some (out, rest)"
    and used: "answers px script \<le> Suc (answers px rest)" "answers px rest \<le> answers px script"
    and shorter: "\<And>n c'. out = Done (Inr n, c') \<Longrightarrow> n \<noteq> 0 \<Longrightarrow> length (write_buf c') < length (write_buf c)"
    and kept: "\<And>n c'. out = Done (n, c') \<Longrightarrow> length (write_buf c') \<le> length (write_buf c)"
    by (rule flush_returns) blast
  show ?case
  proof (cases "\<exists>n c'. out = Done (Inr n, c') \<and> n \<noteq> 0")
    case True
    then obtain n c' where out: "out = Done (Inr n, c')" "n \<noteq> 0" by blast
    with shorter used "1.prems" have l: "length (write_buf c') < length (write_buf c)"
      "length (write_buf c') < answers px rest" by fastforce+
    from "1.IH" [OF fl [unfolded out(1)] refl refl refl refl out(2) l(2)] obtain out1 rest1 where
      rec: "flush_loop tgt px c' rest = Some (out1, rest1)" "answers px rest1 \<le> answers px rest"
      and b: "\<forall>e c'' bytes. out1 = Done (e, c'', bytes) \<longrightarrow>
        answers px rest + length (write_buf c'') \<le> Suc (answers px rest1 + length (write_buf c'))" by blast
    from fl out rec(1) have "flush_loop tgt px c script = Some (bind_outcome out1 (\<lambda>(e, c'', bytes).
        Done (e, c'', take n (write_buf c) @ bytes)), rest1)"
      by (subst flush_loop.simps) simp
    with b l(1) used rec(2) show ?thesis by (cases out1) fastforce+
  next
    case False
    with fl kept used show ?thesis
      by (subst flush_loop.simps) (auto split: outcome.splits sum.splits)
  qed
qed

lemma try_flush_returns:
  assumes "length (write_buf (conn_of st)) < answers px script"
  shows "\<exists>out rest. try_flush_writes tgt px st script = Some (out, rest) \<and> answers px rest \<le> answers px script \<and>
    (\<forall>st'. out = Done st' \<longrightarrow>
       answers px script + length (write_buf (conn_of st')) \<le> Suc (answers px rest + length (write_buf (conn_of st))))"
proof -
  from flush_loop_returns [OF assms] obtain out rest where
    fl: "flush_loop tgt px (conn_of st) script = Some (out, rest)" "answers px rest \<le> answers px script" and
    b: "\<forall>e c' bytes. out = Done (e, c', bytes) \<longrightarrow>
      answers px script + length (write_buf c') \<le> Suc (answers px rest + length (write_buf (conn_of st)))" by blast
  then show ?thesis
    by (cases out) (auto simp: try_flush_writes_def Let_def set_conn_def set_interest_def split: option.splits if_splits)
qed

text \<open>One frame moves at least four bytes from the read buffer, so the answers still suffice afterwards.\<close>

lemma serve_one_returns:
  assumes "workload (conn_of st) < answers px script"
  shows "\<exists>out rest. serve_one tgt px st script = Some (out, rest) \<and> answers px rest \<le> answers px script \<and>
    (\<forall>again st'. out = Done (again, st') \<longrightarrow>
       answers px script + workload (conn_of st') \<le> answers px rest + workload (conn_of st))"
proof (cases "frame_dec tgt k_max_payload (read_buf (conn_of st))")
  case (Got p n)
  then obtain dec where dec: "try_decode_frame tgt (read_buf (conn_of st)) k_max_payload = Done dec"
    "fdr_status dec = Complete" "p = fdr_payload dec" "n = consumed_bytes dec"
    by (auto simp: frame_dec_def decode_view_def split: outcome.splits DecodeStatus.splits)
  note sound = codec.dec_soundD [OF Got]
  define c where "c = (conn_of st)\<lparr>read_buf := drop n (read_buf (conn_of st)),
    write_buf := write_buf (conn_of st) @ frame p\<rparr>"
  define st3 where "st3 = set_interest EM_Read_Write
    ((set_conn c st)\<lparr>slot := (slot (set_conn c st))\<lparr>awaiting_reply_flush := True\<rparr>\<rparr>)"
  have app: "append_encoded_frame tgt (write_buf (conn_of st)) p k_max_payload =
      Done (Inr (), write_buf (conn_of st) @ frame p)"
    using sound(1) by (simp add: append_encoded_frame_eq)
  have con: "consume_read tgt n ((conn_of st)\<lparr>write_buf := write_buf (conn_of st) @ frame p\<rparr>) = Done c"
    using sound(5) by (auto simp: consume_read_def c_def)
  have one: "serve_one tgt px st script =
      map_option (\<lambda>(res, rest). (bind_outcome res (\<lambda>st4. Done (True, st4)), rest)) (try_flush_writes tgt px st3 script)"
    using dec app con by (auto simp: serve_one_def echo_dispatch_def Let_def st3_def split: option.splits)
  have st3: "conn_of st3 = c" by (simp add: st3_def set_interest_def set_conn_def)
  have sizes: "length (write_buf c) = length (write_buf (conn_of st)) + length (frame p)"
    "length (read_buf (conn_of st)) = length (frame p) + length (read_buf c)" "0 < length (frame p)"
    using sound by (auto simp: c_def)
  then have "length (write_buf (conn_of st3)) < answers px script"
    using assms by (simp add: st3 workload_def)
  from try_flush_returns [OF this] obtain out rest where
    fl: "try_flush_writes tgt px st3 script = Some (out, rest)" "answers px rest \<le> answers px script" and
    b: "\<forall>st'. out = Done st' \<longrightarrow>
      answers px script + length (write_buf (conn_of st')) \<le> Suc (answers px rest + length (write_buf c))"
    unfolding st3 by blast
  have "answers px script + workload (conn_of st') \<le> answers px rest + workload (conn_of st)" if "out = Done st'" for st'
    using b that sizes try_flush_keeps(1) [OF fl(1) [unfolded that]] by (auto simp: workload_def st3)
  with fl show ?thesis by (cases out) (auto simp: one)
qed (auto simp: serve_one_def frame_dec_def decode_view_def split: outcome.splits DecodeStatus.splits)

lemma serve_frames_returns:
  "workload (conn_of st) < answers px script \<Longrightarrow>
     \<exists>out rest. serve_frames tgt px st script = Some (out, rest) \<and> answers px rest \<le> answers px script \<and>
       (\<forall>st'. out = Done st' \<longrightarrow>
          answers px script + workload (conn_of st') \<le> answers px rest + workload (conn_of st))"
proof (induction tgt px st script rule: serve_frames.induct)
  case (1 tgt px st script)
  from serve_one_returns [OF "1.prems"] obtain out rest where
    one: "serve_one tgt px st script = Some (out, rest)" "answers px rest \<le> answers px script" and
    b: "\<forall>again st'. out = Done (again, st') \<longrightarrow>
      answers px script + workload (conn_of st') \<le> answers px rest + workload (conn_of st)" by blast
  show ?case
  proof (cases "\<exists>st'. out = Done (True, st')")
    case True
    then obtain st1 where st1: "out = Done (True, st1)" ..
    with b "1.prems" have l: "workload (conn_of st1) < answers px rest" by fastforce
    from "1.IH" [OF one(1) [unfolded st1] refl refl refl _ l] obtain out1 rest1 where
      "serve_frames tgt px st1 rest = Some (out1, rest1)" "answers px rest1 \<le> answers px rest"
      "\<forall>st'. out1 = Done st' \<longrightarrow>
        answers px rest + workload (conn_of st') \<le> answers px rest1 + workload (conn_of st1)" by blast
    with one st1 b show ?thesis by (subst serve_frames.simps) fastforce
  next
    case False
    with one b show ?thesis
      by (subst serve_frames.simps) (auto split: outcome.splits)
  qed
qed

text \<open>A read loop uses one answer that ends reading, and pays for each answer to \<^verbatim>\<open>send\<close> it uses with the work
  it has done.\<close>

definition endings :: "posix \<Rightarrow> recv_ret list \<Rightarrow> nat" where
  "endings px script = length (filter (ends_reading px) script)"

lemma endings_simps [simp]:
  "endings px [] = 0"
  "endings px (r # rs) = (if ends_reading px r then Suc (endings px rs) else endings px rs)"
  "endings px (xs @ ys) = endings px xs + endings px ys"
  by (simp_all add: endings_def)

lemma endings_interrupted [simp]: "list_all (recv_interrupted px) pre \<Longrightarrow> endings px pre = 0"
  by (induction pre) (auto dest: ends_reading_stops)

lemma endings_pos: "0 < endings px script \<longleftrightarrow> (\<exists>r\<in>set script. ends_reading px r)"
  by (induction script) auto

lemma read_loop_uses:
  "workload (conn_of st) + 2 * length (received_bytes rscript) < answers px sscript \<Longrightarrow> 0 < endings px rscript \<Longrightarrow>
     \<exists>out rs ss. read_loop tgt px st rscript sscript = Some (out, rs, ss) \<and> endings px rscript \<le> Suc (endings px rs) \<and>
       answers px ss \<le> answers px sscript \<and>
       (\<forall>res st'. out = Done (res, st') \<longrightarrow>
          answers px sscript + workload (conn_of st') + 2 * length (received_bytes rs) \<le>
            answers px ss + workload (conn_of st) + 2 * length (received_bytes rscript))"
proof (induction tgt px st rscript sscript rule: read_loop.induct)
  case (1 tgt px st rscript sscript)
  have sb: "scratch_buffer \<noteq> []" by (simp add: scratch_buffer_def)
  show ?case
  proof (cases "Socket_valid (conn_socket (conn_of st))")
    case False
    with sb show ?thesis by (subst read_loop.simps) (simp add: receive_nonblocking_def recv_err_def)
  next
    case valid: True
    have "\<not> list_all (recv_interrupted px) rscript" using "1.prems"(2) by auto
    then obtain out rs where rec: "receive_nonblocking px (conn_of st) scratch_buffer rscript = Some (out, rs)"
      using receive_nonblocking_loops_iff [of px "conn_of st" scratch_buffer rscript]
      by (cases "receive_nonblocking px (conn_of st) scratch_buffer rscript") auto
    from rec sb valid show ?thesis
    proof (cases rule: receive_cases)
      case (data pre d)
      show ?thesis
      proof (cases "length d \<le> length scratch_buffer")
        case True
        with data rec have rec1: "receive_nonblocking px (conn_of st) scratch_buffer rscript =
            Some (Done (Inr (length d), append_read d (conn_of st)), rs)" by simp
        let ?st = "set_conn (append_read d (conn_of st)) st"
        have w0: "workload (conn_of ?st) + 2 * length (received_bytes rs) =
            workload (conn_of st) + 2 * length (received_bytes rscript)"
          using data(1) received_bytes_interrupted [OF data(2)] by (simp add: workload_def set_conn_def append_read_def)
        with "1.prems"(1) have w: "workload (conn_of ?st) + 2 * length (received_bytes rs) < answers px sscript" by simp
        then have "workload (conn_of ?st) < answers px sscript" by simp
        from serve_frames_returns [OF this] obtain out1 ss where
          srv: "serve_frames tgt px ?st sscript = Some (out1, ss)" "answers px ss \<le> answers px sscript" and
          b: "\<forall>st'. out1 = Done st' \<longrightarrow>
            answers px sscript + workload (conn_of st') \<le> answers px ss + workload (conn_of ?st)" by blast
        have e: "endings px rs = endings px rscript" using data by simp
        then have e0: "0 < endings px rs" using "1.prems"(2) by simp
        show ?thesis
        proof (cases out1)
          case (Done st1)
          with b w have l: "workload (conn_of st1) + 2 * length (received_bytes rs) < answers px ss" by fastforce
          from "1.IH" [OF rec1 refl refl refl refl srv(1) [unfolded Done] refl refl l e0] obtain out2 rs2 ss2 where
            "read_loop tgt px st1 rs ss = Some (out2, rs2, ss2)" "endings px rs \<le> Suc (endings px rs2)"
            "answers px ss2 \<le> answers px ss"
            "\<forall>res st'. out2 = Done (res, st') \<longrightarrow>
               answers px ss + workload (conn_of st') + 2 * length (received_bytes rs2) \<le>
                 answers px ss2 + workload (conn_of st1) + 2 * length (received_bytes rs)" by blast
          with b w0 e rec1 srv Done show ?thesis by (subst read_loop.simps) fastforce
        qed (use rec1 srv e in \<open>subst read_loop.simps; simp\<close>)+
      next
        case False
        with data rec show ?thesis by (subst read_loop.simps) simp
      qed
    next
      case (closed pre)
      with rec show ?thesis
        by (subst read_loop.simps) (simp add: recv_err_def set_conn_def clear_write_def workload_def received_bytes_interrupted)
    next
      case (blocked pre e)
      with rec show ?thesis
        by (subst read_loop.simps) (simp add: recv_err_def set_conn_def received_bytes_interrupted)
    next
      case (failed pre e)
      with rec show ?thesis by (subst read_loop.simps) (simp add: recv_err_def)
    qed
  qed
qed

section \<open>Properties\<close>

text \<open>The read loop returns. On any connection, target and build, once the kernel has given one answer that
  ends reading (an error other than \<open>EINTR\<close>, or the end of the stream) and more answers to \<^verbatim>\<open>send\<close> other than
  \<open>EINTR\<close> than the bytes waiting to be written plus twice the bytes to be decoded, all three nested loops
  have ended.\<close>

lemma echo_returns:
  assumes "\<exists>r\<in>set rscript. ends_reading px r"
    and "length (write_buf (conn_of st)) + 2 * length (read_buf (conn_of st) @ received_bytes rscript) <
      answers px sscript"
  shows "\<exists>out rs ss. read_loop tgt px st rscript sscript = Some (out, rs, ss)"
proof -
  have "workload (conn_of st) + 2 * length (received_bytes rscript) < answers px sscript"
    using assms(2) by (simp add: workload_def)
  from read_loop_uses [OF this, of tgt] assms(1) show ?thesis unfolding endings_pos by blast
qed

lemma echo_returns_witness:
  "\<exists>out rs ss. read_loop \<lparr>build_mode = Release, native_endian = Big\<rparr> linux demo_serving
     [RecvFailed 4, Received [0, 0, 0, 1, 7], RecvFailed 11] (SendFailed 4 # replicate 11 (Sent 1)) = Some (out, rs, ss)"
  by (rule echo_returns) (simp_all add: linux_def demo_serving_def numeral_eq_Suc)

end
