(* ===== verification/Server_Run.thy ===== *)
theory Server_Run
  imports Echo_Progress
begin

text \<open>
  The server of \<^verbatim>\<open>benchmarks/e2e_echo_benchmark.cpp\<close> around the connections: the vector of slots, accepting,
  the dispatch of the events of one \<^verbatim>\<open>wait\<close>, the loop of \<^verbatim>\<open>run_server\<close>, its start and its end. \<open>calls\<close>
  records the system calls on descriptors the server has made; no operation reads it. A turn of the loop
  is a \<open>tick\<close>: what the clock and the stop flag say, what \<^verbatim>\<open>select\<close> returns, and the scripts of the calls
  made while the events are handled. A list of ticks that ends before the loop does gives \<open>None\<close>.
  \<open>received_from\<close> and \<open>sent_to\<close> record, for each descriptor, the bytes the kernel has delivered and taken since
  the connection that holds it was accepted; no operation reads them either.
\<close>

section \<open>Slots\<close>

record server =
  slots :: "ConnSlot list"
  poller_of :: SelectPoller
  completed :: int
  calls :: "syscall list"
  received_from :: "NativeSocket \<Rightarrow> byte list"
  sent_to :: "NativeSocket \<Rightarrow> byte list"

abbreviation slot_handle :: "ConnSlot \<Rightarrow> NativeSocket" where
  "slot_handle sl \<equiv> Connection_native_handle (sl_conn sl)"

definition note_traffic :: "NativeSocket \<Rightarrow> byte list \<Rightarrow> byte list \<Rightarrow> server \<Rightarrow> server" where
  "note_traffic h inp out sv =
     sv\<lparr>received_from := (received_from sv)(h := received_from sv h @ inp),
        sent_to := (sent_to sv)(h := sent_to sv h @ out)\<rparr>"

definition forget_traffic :: "NativeSocket \<Rightarrow> server \<Rightarrow> server" where
  "forget_traffic h sv = sv\<lparr>received_from := (received_from sv)(h := []), sent_to := (sent_to sv)(h := [])\<rparr>"

fun find_slot_index :: "ConnSlot list \<Rightarrow> NativeSocket \<Rightarrow> size_t option" where
  "find_slot_index [] h = None"
| "find_slot_index (sl # sls) h =
     (if slot_handle sl = h then Some 0 else map_option Suc (find_slot_index sls h))"

text \<open>Destroying a slot destroys its socket; what \<^verbatim>\<open>close\<close> returns is ignored.\<close>

definition slot_destroy :: "ConnSlot \<Rightarrow> syscall list" where
  "slot_destroy sl = Socket_destroy \<lparr>rc = 0, err = 0\<rparr> (conn_socket (sl_conn sl))"

text \<open>Erase from the poller; move the last slot over the removed one (which closes its socket), and destroy
  the last slot.\<close>

definition remove_slot :: "size_t \<Rightarrow> server \<Rightarrow> server" where
  "remove_slot i sv =
     (let gone = slots sv ! i;
          sv1 = sv\<lparr>poller_of := snd (sp_erase (slot_handle gone) (poller_of sv))\<rparr>
      in if i + 1 < length (slots sv)
         then sv1\<lparr>slots := butlast ((slots sv)[i := last (slots sv)]), calls := calls sv @ slot_destroy gone\<rparr>
         else sv1\<lparr>slots := butlast (slots sv), calls := calls sv @ slot_destroy (last (slots sv))\<rparr>)"

definition process_connection_read ::
  "target \<Rightarrow> posix \<Rightarrow> size_t \<Rightarrow> server \<Rightarrow> recv_ret list \<Rightarrow> send_ret list \<Rightarrow>
     ((ReadOutcome \<times> server) outcome \<times> recv_ret list \<times> send_ret list) option" where
  "process_connection_read tgt px i sv rscript sscript =
     (case read_loop tgt px \<lparr>slot = slots sv ! i, srv_poller = poller_of sv, completions = completed sv, wire = []\<rparr>
             rscript sscript of
        None \<Rightarrow> None
      | Some (out, rs, ss) \<Rightarrow>
          Some (bind_outcome out (\<lambda>(res, st).
            let sv1 = sv\<lparr>slots := (slots sv)[i := slot st], poller_of := srv_poller st, completed := completions st\<rparr>;
                note = note_traffic (slot_handle (slots sv ! i))
                         (received_bytes (take (length rscript - length rs) rscript)) (wire st)
            in case res of
                 ReadOk \<Rightarrow> Done (ReadOk, note sv1)
               | PeerClosed \<Rightarrow> Done (PeerClosed, note (remove_slot i sv1))), rs, ss))"

text \<open>The loop that accepts until the kernel would block.\<close>

fun accept_loop :: "posix \<Rightarrow> Acceptor \<Rightarrow> server \<Rightarrow> accept_env list \<Rightarrow> (server outcome \<times> accept_env list) option" where
  "accept_loop px a sv [] = None"
| "accept_loop px a sv (env # envs) =
     (case accept_and_register px sp_upsert env a (poller_of sv) of
        (Inl e, p, cs) \<Rightarrow>
          if \<not> accept_would_block px (ae_native_error e) then Some (Abort ''accept_and_register'', envs)
          else Some (Done (sv\<lparr>poller_of := p, calls := calls sv @ cs\<rparr>), envs)
      | (Inr conn, p, cs) \<Rightarrow>
          accept_loop px a
            (forget_traffic (Connection_native_handle conn)
              (sv\<lparr>slots := slots sv @ [\<lparr>sl_conn = fst (Connection_move conn), awaiting_reply_flush = False\<rparr>],
                 poller_of := p, calls := calls sv @ cs\<rparr>)) envs)"

record scripts =
  accepts :: "accept_env list"
  recvs :: "recv_ret list"
  sends :: "send_ret list"

definition flush_slot ::
  "target \<Rightarrow> posix \<Rightarrow> size_t \<Rightarrow> server \<Rightarrow> scripts \<Rightarrow> (server outcome \<times> scripts) option" where
  "flush_slot tgt px i sv scr =
     (case try_flush_writes tgt px
             \<lparr>slot = slots sv ! i, srv_poller = poller_of sv, completions = completed sv, wire = []\<rparr> (sends scr) of
        None \<Rightarrow> None
      | Some (out, ss) \<Rightarrow>
          Some (bind_outcome out (\<lambda>st. Done (note_traffic (slot_handle (slots sv ! i)) [] (wire st)
            (sv\<lparr>slots := (slots sv)[i := slot st], poller_of := srv_poller st, completed := completions st\<rparr>))),
            scr\<lparr>sends := ss\<rparr>))"

text \<open>The last part of handling an event: flush if the socket is writable and still has a slot.\<close>

definition write_half ::
  "target \<Rightarrow> posix \<Rightarrow> Event \<Rightarrow> server \<Rightarrow> scripts \<Rightarrow> (server outcome \<times> scripts) option" where
  "write_half tgt px ev sv scr =
     (if mask_and (ev_mask ev) EM_Write \<noteq> EM_None
      then (case find_slot_index (slots sv) (ev_socket ev) of
              None \<Rightarrow> Some (Done sv, scr)
            | Some widx \<Rightarrow> flush_slot tgt px widx sv scr)
      else Some (Done sv, scr))"

text \<open>The body of the loop over the events of one \<^verbatim>\<open>wait\<close>.\<close>

definition handle_event ::
  "target \<Rightarrow> posix \<Rightarrow> Acceptor \<Rightarrow> Event \<Rightarrow> server \<Rightarrow> scripts \<Rightarrow> (server outcome \<times> scripts) option" where
  "handle_event tgt px a ev sv scr =
     (if ev_socket ev = listener_handle a then
        if mask_and (ev_mask ev) EM_Read = EM_None then Some (Done sv, scr)
        else (case accept_loop px a sv (accepts scr) of
                None \<Rightarrow> None
              | Some (out, envs) \<Rightarrow> Some (out, scr\<lparr>accepts := envs\<rparr>))
      else
        (case find_slot_index (slots sv) (ev_socket ev) of
           None \<Rightarrow> Some (Done sv, scr)
         | Some idx \<Rightarrow>
             if mask_and (ev_mask ev) EM_Read \<noteq> EM_None
             then (case process_connection_read tgt px idx sv (recvs scr) (sends scr) of
                     None \<Rightarrow> None
                   | Some (out, rs, ss) \<Rightarrow>
                       let scr' = scr\<lparr>recvs := rs, sends := ss\<rparr>
                       in case out of
                            Abort m \<Rightarrow> Some (Abort m, scr')
                          | Undefined m \<Rightarrow> Some (Undefined m, scr')
                          | Done (PeerClosed, sv') \<Rightarrow> Some (Done sv', scr')
                          | Done (ReadOk, sv') \<Rightarrow>
                              (case find_slot_index (slots sv') (ev_socket ev) of
                                 None \<Rightarrow> Some (Done sv', scr')
                               | Some _ \<Rightarrow> write_half tgt px ev sv' scr'))
             else write_half tgt px ev sv scr))"

fun handle_events ::
  "target \<Rightarrow> posix \<Rightarrow> Acceptor \<Rightarrow> Event list \<Rightarrow> server \<Rightarrow> scripts \<Rightarrow> (server outcome \<times> scripts) option" where
  "handle_events tgt px a [] sv scr = Some (Done sv, scr)"
| "handle_events tgt px a (ev # evs) sv scr =
     (case handle_event tgt px a ev sv scr of
        Some (Done sv', scr') \<Rightarrow> handle_events tgt px a evs sv' scr'
      | r \<Rightarrow> r)"

section \<open>The loop, its start and its end\<close>

record tick =
  before_deadline :: bool
  stop_requested :: bool
  map_order :: "NativeSocket list"
  selecting :: "select_call \<Rightarrow> select_ret"
  answering :: scripts

fun serve_ticks :: "target \<Rightarrow> posix \<Rightarrow> Acceptor \<Rightarrow> tick list \<Rightarrow> server \<Rightarrow> server outcome option" where
  "serve_ticks tgt px a [] sv = None"
| "serve_ticks tgt px a (tk # tks) sv =
     (if \<not> before_deadline tk then Some (Done sv)
      else if stop_requested tk \<and> slots sv = [] then Some (Done sv)
      else (case sp_wait px (selecting tk) 64 50 (map_order tk) (poller_of sv) of
              Abort m \<Rightarrow> Some (Abort m)
            | Undefined m \<Rightarrow> Some (Undefined m)
            | Done (Inl e) \<Rightarrow> Some (Abort ''wait'')
            | Done (Inr evs) \<Rightarrow>
                (case handle_events tgt px a evs sv (answering tk) of
                   None \<Rightarrow> None
                 | Some (Done sv', scr) \<Rightarrow> serve_ticks tgt px a tks sv'
                 | Some (out, scr) \<Rightarrow> Some out)))"

text \<open>The cleanup: close every connection, last first, and unregister the listener.\<close>

fun close_slots :: "ConnSlot list \<Rightarrow> server \<Rightarrow> server" where
  "close_slots [] sv = sv\<lparr>slots := []\<rparr>"
| "close_slots (sl # sls) sv =
     close_slots sls (sv\<lparr>poller_of := snd (sp_erase (slot_handle sl) (poller_of sv)),
                        calls := calls sv @ slot_destroy sl\<rparr>)"

definition close_server :: "Acceptor \<Rightarrow> server \<Rightarrow> server outcome" where
  "close_server a sv =
     (let sv' = close_slots (rev (slots sv)) sv
      in case unregister_listener sp_erase a (poller_of sv') of
           (Inl e, p) \<Rightarrow> Abort ''unregister_listener''
         | (Inr _, p) \<Rightarrow> Done (sv'\<lparr>poller_of := p\<rparr>))"

definition k_accept_backlog :: int where
  "k_accept_backlog = 128"

text \<open>What the calls made while starting return.\<close>

record start_env =
  resolving :: "string option \<Rightarrow> string \<Rightarrow> gai_ret"
  sockname :: int_ret
  sockname_port :: "byte \<times> byte"
  start_getfl :: int_ret
  start_setfl :: int_ret

definition start_server ::
  "target \<Rightarrow> posix \<Rightarrow> start_env \<Rightarrow> (u16 \<times> Acceptor \<times> server) outcome" where
  "start_server tgt px env =
     (case bind_and_listen (resolving env) ''127.0.0.1'' 0 k_accept_backlog of
        (Inl e, cs) \<Rightarrow> Abort ''bind_and_listen''
      | (Inr bound, cs) \<Rightarrow>
          if \<not> Listener_valid bound then Abort ''bind_and_listen''
          else (case local_port_v4 tgt (sockname env) (sockname_port env) (listener_socket bound) of
             Inl e \<Rightarrow> Abort ''local_port_v4''
           | Inr port \<Rightarrow>
               (case set_nonblocking px (start_getfl env) (start_setfl env) True (listener_socket bound) of
                  (Inl e, fs) \<Rightarrow> Abort ''set_nonblocking''
                | (Inr _, fs) \<Rightarrow>
                    (case Acceptor_new bound of (a, moved) \<Rightarrow>
                    (case register_listener sp_upsert a SelectPoller_default of
                       (Inl e, p) \<Rightarrow> Abort ''register_listener''
                     | (Inr _, p) \<Rightarrow>
                         Done (port, a, \<lparr>slots = [], poller_of = p, completed = 0, calls = cs @ fs,
                                         received_from = (\<lambda>_. []), sent_to = (\<lambda>_. [])\<rparr>))))))"

text \<open>The whole function; at its end the acceptor is destroyed and with it the listening socket.\<close>

definition run_server ::
  "target \<Rightarrow> posix \<Rightarrow> start_env \<Rightarrow> tick list \<Rightarrow> (u16 \<times> server) outcome option" where
  "run_server tgt px env tks =
     (case start_server tgt px env of
        Abort m \<Rightarrow> Some (Abort m)
      | Undefined m \<Rightarrow> Some (Undefined m)
      | Done (port, a, sv) \<Rightarrow>
          (case serve_ticks tgt px a tks sv of
             None \<Rightarrow> None
           | Some out \<Rightarrow>
               Some (bind_outcome out (\<lambda>sv1. bind_outcome (close_server a sv1) (\<lambda>sv2.
                 Done (port, sv2\<lparr>calls := calls sv2 @
                   Socket_destroy \<lparr>rc = 0, err = 0\<rparr> (listener_socket (acceptor_listener a))\<rparr>))))))"

end
