(* ===== verification/Echo_Count.thy ===== *)
theory Echo_Count
  imports Echo_Server
begin

text \<open>
  The flag \<^verbatim>\<open>awaiting_reply_flush\<close> and the counter \<^verbatim>\<open>completions\<close> of \<^verbatim>\<open>benchmarks/e2e_echo_benchmark.cpp\<close>: the flag
  is set exactly while there is unsent output, and the counter counts flushes that emptied the write buffer, not
  frames: replies that are flushed together count once.
\<close>

section \<open>The flag\<close>

lemma try_flush_awaiting:
  assumes "try_flush_writes tgt px st script = Some (Done st', rest)"
  shows "awaiting_reply_flush (slot st') \<longleftrightarrow> awaiting_reply_flush (slot st) \<and> write_buf (conn_of st') \<noteq> []"
proof -
  from assms obtain out where "flush_loop tgt px (conn_of st) script = Some (out, rest)"
    by (auto simp: try_flush_writes_def split: option.splits)
  with assms obtain e c bytes where fl: "flush_loop tgt px (conn_of st) script = Some (Done (e, c, bytes), rest)"
    by (cases out) (auto simp: try_flush_writes_def)
  from assms fl flush_loop_keeps [OF fl] show ?thesis
    by (auto simp: try_flush_writes_def set_conn_def set_interest_def Let_def split: option.splits if_splits)
qed

lemma serve_one_awaiting:
  assumes "serve_one tgt px st script = Some (Done (True, st'), rest)"
  shows "awaiting_reply_flush (slot st') \<longleftrightarrow> write_buf (conn_of st') \<noteq> []"
proof -
  from assms obtain st3 where "try_flush_writes tgt px st3 script = Some (Done st', rest)"
    "awaiting_reply_flush (slot st3)"
    by (auto simp: serve_one_def Let_def set_interest_def
        split: outcome.splits DecodeStatus.splits sum.splits option.splits prod.splits)
  then show ?thesis using try_flush_awaiting by blast
qed

lemma serve_frames_awaiting:
  "serve_frames tgt px st script = Some (Done st', rest) \<Longrightarrow>
     awaiting_reply_flush (slot st) = (write_buf (conn_of st) \<noteq> []) \<Longrightarrow>
     awaiting_reply_flush (slot st') = (write_buf (conn_of st') \<noteq> [])"
proof (induction tgt px st script arbitrary: st' rest rule: serve_frames.induct)
  case (1 tgt px st script)
  from "1.prems"(1) obtain again st1 rest1 where one: "serve_one tgt px st script = Some (Done (again, st1), rest1)"
    by (subst (asm) serve_frames.simps) (auto split: option.splits outcome.splits prod.splits)
  show ?case
  proof (cases again)
    case False
    with "1.prems" one serve_one_idle(1) [of tgt px st script st1 rest1] show ?thesis
      by (subst (asm) serve_frames.simps) simp
  next
    case True
    with one have one': "serve_one tgt px st script = Some (Done (True, st1), rest1)" by simp
    from "1.prems"(1) one' have more: "serve_frames tgt px st1 rest1 = Some (Done st', rest)"
      by (subst (asm) serve_frames.simps) simp
    show ?thesis by (rule "1.IH" [OF one' refl refl refl _ more serve_one_awaiting [OF one']]) simp
  qed
qed

lemma read_loop_awaiting:
  "read_loop tgt px st rscript sscript = Some (Done (ReadOk, st'), rs, ss) \<Longrightarrow>
     awaiting_reply_flush (slot st) = (write_buf (conn_of st) \<noteq> []) \<Longrightarrow>
     awaiting_reply_flush (slot st') = (write_buf (conn_of st') \<noteq> [])"
proof (induction tgt px st rscript sscript arbitrary: st' rs ss rule: read_loop.induct)
  case (1 tgt px st rscript sscript)
  from "1.prems"(1) obtain out rs0 where rec:
    "receive_nonblocking px (conn_of st) scratch_buffer rscript = Some (out, rs0)"
    by (subst (asm) read_loop.simps) (auto split: option.splits)
  show ?case
  proof (cases "\<exists>n c. out = Done (Inr n, c)")
    case True
    then obtain n c where out: "out = Done (Inr n, c)" by blast
    have kept: "write_buf c = write_buf (conn_of st)"
      using rec out by (auto simp: receive_nonblocking_def Let_def append_read_def
          split: if_splits option.splits recv_ret.splits)
    from "1.prems"(1) rec out obtain st1 ss1 where srv:
      "serve_frames tgt px (set_conn c st) sscript = Some (Done st1, ss1)"
      "read_loop tgt px st1 rs0 ss1 = Some (Done (ReadOk, st'), rs, ss)"
      by (subst (asm) read_loop.simps) (auto split: option.splits outcome.splits)
    have "awaiting_reply_flush (slot st1) = (write_buf (conn_of st1) \<noteq> [])"
      using serve_frames_awaiting [OF srv(1)] "1.prems"(2) kept by (simp add: set_conn_def)
    then show ?thesis by (rule "1.IH" [OF rec [unfolded out] refl refl refl refl srv(1) refl refl srv(2)])
  next
    case False
    with "1.prems" rec have "\<exists>e. out = Done (Inl e, conn_of st')"
      "awaiting_reply_flush (slot st') = awaiting_reply_flush (slot st)"
      by (subst (asm) read_loop.simps, auto simp: set_conn_def split: outcome.splits sum.splits RecvErrorCode.splits)+
    with rec "1.prems"(2) show ?thesis
      by (auto simp: receive_nonblocking_def Let_def split: if_splits option.splits recv_ret.splits)
  qed
qed

section \<open>The counter\<close>

text \<open>The completions counted and the one that is due.\<close>

definition due :: "serving \<Rightarrow> int" where
  "due st = completions st + (if awaiting_reply_flush (slot st) then 1 else 0)"

lemma try_flush_due:
  assumes "try_flush_writes tgt px st script = Some (Done st', rest)"
  shows "due st' = due st \<and> completions st \<le> completions st'"
proof -
  from assms obtain out where "flush_loop tgt px (conn_of st) script = Some (out, rest)"
    by (auto simp: try_flush_writes_def split: option.splits)
  with assms show ?thesis
    by (cases out) (auto simp: try_flush_writes_def set_conn_def set_interest_def due_def Let_def
        split: option.splits if_splits)
qed

lemma serve_one_due:
  assumes "serve_one tgt px st script = Some (Done (True, st'), rest)"
  shows "due st' = completions st + 1 \<and> completions st \<le> completions st'"
proof -
  from assms obtain st3 where "try_flush_writes tgt px st3 script = Some (Done st', rest)"
    "awaiting_reply_flush (slot st3)" "completions st3 = completions st"
    by (auto simp: serve_one_def Let_def set_interest_def set_conn_def
        split: outcome.splits DecodeStatus.splits sum.splits option.splits prod.splits)
  then show ?thesis using try_flush_due [of tgt px st3 script st' rest] by (simp add: due_def)
qed

text \<open>What serving the frames \<open>ps\<close> does to the counter.\<close>

definition counted :: "serving \<Rightarrow> 'a list \<Rightarrow> serving \<Rightarrow> bool" where
  "counted st ps st' \<longleftrightarrow> completions st \<le> completions st' \<and> due st' \<le> due st + int (length ps) \<and>
     (if ps = [] then due st' = due st else completions st + 1 \<le> due st')"

lemma due_less: "completions st \<le> due st"
  by (simp add: due_def)

lemma counted_append: "counted st ps st1 \<Longrightarrow> counted st1 qs st2 \<Longrightarrow> counted st (ps @ qs) st2"
  using due_less [of st] due_less [of st1] by (auto simp: counted_def split: if_splits)

lemma counted_one:
  "serve_one tgt px st script = Some (Done (True, st'), rest) \<Longrightarrow> counted st [p] st'"
  using serve_one_due [of tgt px st script st' rest] due_less [of st] by (simp add: counted_def)

lemma counted_Nil: "counted st [] st"
  by (simp add: counted_def)

lemma counted_set_conn [simp]: "counted (set_conn c st) ps st' \<longleftrightarrow> counted st ps st'"
  by (simp add: counted_def due_def set_conn_def)

lemma serve_frames_counted:
  "serve_frames tgt px st script = Some (Done st', rest) \<Longrightarrow>
     \<exists>ps. drain (frame_dec tgt k_max_payload) (read_buf (conn_of st)) = (ps, read_buf (conn_of st'), False) \<and>
       counted st ps st'"
proof (induction tgt px st script arbitrary: st' rest rule: serve_frames.induct)
  case (1 tgt px st script)
  from "1.prems" obtain again st1 rest1 where one: "serve_one tgt px st script = Some (Done (again, st1), rest1)"
    by (subst (asm) serve_frames.simps) (auto split: option.splits outcome.splits prod.splits)
  show ?case
  proof (cases again)
    case False
    with one serve_one_idle [of tgt px st script st1 rest1] have "st1 = st"
      "frame_dec tgt k_max_payload (read_buf (conn_of st)) = NeedMore" by auto
    moreover from "1.prems" one False \<open>st1 = st\<close> have "st' = st" by (subst (asm) serve_frames.simps) simp
    ultimately show ?thesis using counted_Nil by (intro exI [of _ "[]"]) simp
  next
    case True
    with one have one': "serve_one tgt px st script = Some (Done (True, st1), rest1)" by simp
    from "1.prems" one' have more: "serve_frames tgt px st1 rest1 = Some (Done st', rest)"
      by (subst (asm) serve_frames.simps) simp
    from one' obtain p where p: "fits k_max_payload p" "read_buf (conn_of st) = frame p @ read_buf (conn_of st1)"
      by (rule serve_one_frame)
    from "1.IH" [OF one' refl refl refl _ more] obtain ps where
      "drain (frame_dec tgt k_max_payload) (read_buf (conn_of st1)) = (ps, read_buf (conn_of st'), False)"
      "counted st1 ps st'" by auto
    with codec.drain_enc [OF p(1), of tgt "read_buf (conn_of st1)"] p(2)
      counted_append [OF counted_one [OF one', of p], of ps st'] show ?thesis
      by (intro exI [of _ "p # ps"]) simp
  qed
qed

lemma read_loop_counted:
  "read_loop tgt px st rscript sscript = Some (Done (ReadOk, st'), rs, ss) \<Longrightarrow>
   Socket_valid (conn_socket (conn_of st)) \<Longrightarrow> frame_dec tgt k_max_payload (read_buf (conn_of st)) = NeedMore \<Longrightarrow>
     \<exists>used ps left. rscript = used @ rs \<and>
       drain (frame_dec tgt k_max_payload) (read_buf (conn_of st) @ received_bytes used) = (ps, left, False) \<and>
       counted st ps st'"
proof (induction tgt px st rscript sscript arbitrary: st' rs ss rule: read_loop.induct)
  case (1 tgt px st rscript sscript)
  from "1.prems"(1) obtain out rs0 where rec:
    "receive_nonblocking px (conn_of st) scratch_buffer rscript = Some (out, rs0)"
    by (subst (asm) read_loop.simps) (auto split: option.splits)
  have sb: "scratch_buffer \<noteq> []" by (simp add: scratch_buffer_def)
  from rec sb "1.prems"(2) show ?case
  proof (cases rule: receive_cases)
    case (data pre d)
    with rec "1.prems"(1) have rec1: "receive_nonblocking px (conn_of st) scratch_buffer rscript =
        Some (Done (Inr (length d), append_read d (conn_of st)), rs0)"
      by (subst (asm) read_loop.simps) (simp split: if_splits)
    from "1.prems"(1) rec1 obtain st1 ss1 where srv:
      "serve_frames tgt px (set_conn (append_read d (conn_of st)) st) sscript = Some (Done st1, ss1)"
      "read_loop tgt px st1 rs0 ss1 = Some (Done (ReadOk, st'), rs, ss)"
      by (subst (asm) read_loop.simps) (auto split: option.splits outcome.splits)
    from serve_frames_counted [OF srv(1)] obtain ps where ps:
      "drain (frame_dec tgt k_max_payload) (read_buf (conn_of st) @ d) = (ps, read_buf (conn_of st1), False)"
      "counted st ps st1" by (auto simp: append_read_def) (auto simp: set_conn_def)
    have sock: "conn_socket (conn_of st1) = conn_socket (conn_of st)"
      using serve_frames_echo [OF srv(1)] "1.prems"(2) by (auto simp: set_conn_def append_read_def)
    from codec.drain_sound [OF ps(1)] have "frame_dec tgt k_max_payload (read_buf (conn_of st1)) = NeedMore" by simp
    with "1.IH" [OF rec1 refl refl refl refl srv(1) refl refl srv(2)] sock "1.prems"(2) obtain used qs left where
      used: "rs0 = used @ rs" and
      qs: "drain (frame_dec tgt k_max_payload) (read_buf (conn_of st1) @ received_bytes used) = (qs, left, False)"
      "counted st1 qs st'" by auto
    have "received_bytes (pre @ Received d # used) = d @ received_bytes used"
      using received_bytes_interrupted [OF data(2)] by simp
    with codec.drain_append [OF ps(1), of "received_bytes used"] qs counted_append [OF ps(2) qs(2)] data(1) used
    show ?thesis by (intro exI [of _ "pre @ Received d # used"] exI [of _ "ps @ qs"] exI [of _ left]) simp
  next
    case (blocked pre e)
    with rec "1.prems"(1) have "st' = st \<and> rs = rs0"
      by (subst (asm) read_loop.simps) (simp add: recv_err_def set_conn_def)
    with blocked "1.prems"(3) received_bytes_interrupted [OF blocked(2)] counted_Nil [of st] show ?thesis
      by (intro exI [of _ "pre @ [RecvFailed e]"] exI [of _ "[] :: byte list list"] exI [of _ "read_buf (conn_of st)"])
        simp
  qed (use rec "1.prems"(1) in \<open>subst (asm) read_loop.simps; simp add: recv_err_def\<close>)+
qed

end
