(* ===== verification/Server_Safety.thy ===== *)
theory Server_Safety
  imports Server_Run Echo_Count "HOL-Library.Multiset"
begin

text \<open>
  The invariant of the server's loop, over any events in any order: which slots there are, what the poller
  is told about them, and which descriptors are open agree. \<open>table_ok\<close> states it of a list of slots, a
  registration map and a set of open descriptors, independently of the order of the list, and has one rule
  per change: a slot is added, changed in place, or removed.
\<close>

section \<open>The table\<close>

definition slot_ok :: "target \<Rightarrow> ConnSlot \<Rightarrow> bool" where
  "slot_ok tgt sl \<longleftrightarrow> Socket_valid (conn_socket (sl_conn sl)) \<and>
     frame_dec tgt k_max_payload (read_buf (sl_conn sl)) = NeedMore \<and>
     (awaiting_reply_flush sl \<longleftrightarrow> write_buf (sl_conn sl) \<noteq> [])"

definition slot_interest :: "ConnSlot \<Rightarrow> EventMask" where
  "slot_interest sl = (if write_buf (sl_conn sl) = [] then EM_Read else EM_Read_Write)"

definition table_ok ::
  "target \<Rightarrow> NativeSocket \<Rightarrow> ConnSlot list \<Rightarrow> (NativeSocket \<rightharpoonup> EventMask) \<Rightarrow> NativeSocket set \<Rightarrow> bool" where
  "table_ok tgt l xs p S \<longleftrightarrow> distinct (l # map slot_handle xs) \<and>
     (\<forall>sl\<in>set xs. slot_ok tgt sl \<and> p (slot_handle sl) = Some (slot_interest sl)) \<and>
     p l = Some EM_Read \<and> dom p = insert l (slot_handle ` set xs) \<and> S = insert l (slot_handle ` set xs)"

lemma table_ok_perm:
  assumes "mset xs = mset ys"
  shows "table_ok tgt l xs p S = table_ok tgt l ys p S"
proof -
  have "mset (l # map slot_handle xs) = mset (l # map slot_handle ys)" using assms by simp
  then have "distinct (l # map slot_handle xs) = distinct (l # map slot_handle ys)"
    by (rule mset_eq_imp_distinct_iff)
  moreover have "set xs = set ys" using assms by (rule mset_eq_setD)
  ultimately show ?thesis unfolding table_ok_def by simp
qed

lemma table_ok_add:
  assumes "table_ok tgt l xs p S" "slot_ok tgt sl" "slot_handle sl \<notin> S"
  shows "table_ok tgt l (sl # xs) (p(slot_handle sl \<mapsto> slot_interest sl)) (insert (slot_handle sl) S)"
  using assms by (auto simp: table_ok_def image_iff)

lemma table_ok_change:
  assumes "table_ok tgt l (sl # xs) p S" "slot_ok tgt sl'" "slot_handle sl' = slot_handle sl"
  shows "table_ok tgt l (sl' # xs) (p(slot_handle sl \<mapsto> slot_interest sl')) S"
  using assms by (auto simp: table_ok_def image_iff)

lemma table_ok_delete:
  assumes "table_ok tgt l (sl # xs) p S"
  shows "table_ok tgt l xs (p(slot_handle sl := None)) (S - {slot_handle sl})"
proof -
  have "slot_handle sl \<notin> slot_handle ` set xs" "slot_handle sl \<noteq> l" using assms by (auto simp: table_ok_def)
  with assms show ?thesis by (auto simp: table_ok_def image_iff)
qed

lemma mset_pick:
  "i < length xs \<Longrightarrow> mset (xs[i := y]) = add_mset y (mset (take i xs @ drop (Suc i) xs))"
  by (simp add: upd_conv_take_nth_drop)

lemma mset_pick_same: "i < length xs \<Longrightarrow> mset xs = add_mset (xs ! i) (mset (take i xs @ drop (Suc i) xs))"
  using mset_pick [of i xs "xs ! i"] by simp

text \<open>Removing by moving the last element over the place.\<close>

lemma mset_swap_remove:
  "i < length xs \<Longrightarrow> mset (if i + 1 < length xs then butlast (xs[i := last xs]) else butlast xs) =
     mset (take i xs @ drop (Suc i) xs)"
  using mset_pick [of i "butlast xs" "last xs"]
  by (cases xs rule: rev_cases) (auto simp: list_update_append butlast_append)

lemma find_slot_index_Some:
  "find_slot_index xs h = Some i \<Longrightarrow> i < length xs \<and> slot_handle (xs ! i) = h"
  by (induction xs arbitrary: i) (auto split: if_splits)

section \<open>Descriptors the kernel hands out\<close>

text \<open>POSIX: a call that opens a descriptor returns one that is not open.\<close>

fun fresh_opens :: "syscall list \<Rightarrow> NativeSocket set \<Rightarrow> bool" where
  "fresh_opens [] S = True"
| "fresh_opens (Sys_opened s # cs) S = (s \<notin> S \<and> fresh_opens cs (insert s S))"
| "fresh_opens (Sys_close s # cs) S = fresh_opens cs (S - {s})"
| "fresh_opens (_ # cs) S = fresh_opens cs S"

lemma fresh_opens_append:
  "open_after xs S = Some T \<Longrightarrow> fresh_opens (xs @ ys) S \<longleftrightarrow> fresh_opens xs S \<and> fresh_opens ys T"
  by (induction xs S rule: open_after.induct) (auto split: if_splits)

lemma fresh_opens_prefix: "fresh_opens (xs @ ys) S \<Longrightarrow> fresh_opens xs S"
  by (induction xs S rule: fresh_opens.induct) auto

section \<open>Serving keeps a slot well-formed\<close>

lemma fun_upd_off: "(\<And>h. h \<noteq> k \<Longrightarrow> f h = g h) \<Longrightarrow> f = g(k := f k)"
  by auto

lemma read_serves:
  assumes "read_loop tgt px \<lparr>slot = sl, srv_poller = p, completions = n, wire = []\<rparr> rscript sscript =
      Some (Done (res, st'), rs, ss)"
    and "slot_ok tgt sl" "interests p (slot_handle sl) = Some (slot_interest sl)"
  shows "conn_socket (conn_of st') = conn_socket (sl_conn sl)"
    and "interests (srv_poller st') = (interests p)(slot_handle sl := interests (srv_poller st') (slot_handle sl))"
    and "res = ReadOk \<Longrightarrow> slot_ok tgt (slot st') \<and>
      interests (srv_poller st') (slot_handle sl) = Some (slot_interest (slot st'))"
proof -
  let ?st = "\<lparr>slot = sl, srv_poller = p, completions = n, wire = []\<rparr>"
  have ok: "Socket_valid (conn_socket (conn_of ?st))" "frame_dec tgt k_max_payload (read_buf (conn_of ?st)) = NeedMore"
    using assms(2) by (simp_all add: slot_ok_def)
  from read_loop_echoed [OF assms(1) ok] obtain used where e: "echoed tgt ?st (received_bytes used) res st'" by blast
  then show sock: "conn_socket (conn_of st') = conn_socket (sl_conn sl)" by (simp add: echoed_def)
  from e show "interests (srv_poller st') = (interests p)(slot_handle sl := interests (srv_poller st') (slot_handle sl))"
    by (intro fun_upd_off) (simp add: echoed_def)
  assume res: "res = ReadOk"
  from e res obtain ps where "drain (frame_dec tgt k_max_payload) (read_buf (sl_conn sl) @ received_bytes used) =
      (ps, read_buf (conn_of st'), False)" by (auto simp: echoed_def)
  from codec.drain_sound [OF this] have dec: "frame_dec tgt k_max_payload (read_buf (conn_of st')) = NeedMore" by simp
  have "interest_matches st'" using e res assms(3) by (simp add: echoed_def interest_matches_def slot_interest_def)
  moreover have "slot_handle (slot st') = slot_handle sl" using sock by (simp add: Connection_native_handle_def)
  moreover have "awaiting_reply_flush (slot st') = (write_buf (conn_of st') \<noteq> [])"
    using read_loop_awaiting [OF assms(1) [unfolded res]] assms(2) by (simp add: slot_ok_def)
  ultimately show "slot_ok tgt (slot st') \<and>
      interests (srv_poller st') (slot_handle sl) = Some (slot_interest (slot st'))"
    using dec sock ok by (simp add: slot_ok_def interest_matches_def slot_interest_def)
qed

lemma flush_serves:
  assumes "try_flush_writes tgt px \<lparr>slot = sl, srv_poller = p, completions = n, wire = []\<rparr> script =
      Some (Done st', rest)"
    and "slot_ok tgt sl"
  shows "slot_handle (slot st') = slot_handle sl" and "slot_ok tgt (slot st')"
    and "interests (srv_poller st') = (interests p)(slot_handle sl \<mapsto> slot_interest (slot st'))"
proof -
  note k = try_flush_keeps [OF assms(1)] and a = try_flush_awaiting [OF assms(1)]
  show "slot_handle (slot st') = slot_handle sl" using k(2) by (simp add: Connection_native_handle_def)
  show "slot_ok tgt (slot st')"
    using assms(2) a k by (auto simp: slot_ok_def)
  show "interests (srv_poller st') = (interests p)(slot_handle sl \<mapsto> slot_interest (slot st'))"
    using k(4) assms(2)
    by (simp add: slot_ok_def Socket_valid_def Connection_native_handle_def select.upsert_interest slot_interest_def)
qed

section \<open>The invariant\<close>

definition server_inv :: "target \<Rightarrow> Acceptor \<Rightarrow> server \<Rightarrow> bool" where
  "server_inv tgt a sv \<longleftrightarrow> listener_handle a \<noteq> k_invalid_socket \<and>
     (\<exists>S. open_after (calls sv) {} = Some S \<and>
        table_ok tgt (listener_handle a) (slots sv) (interests (poller_of sv)) S)"

lemma traffic_simps [simp]:
  "slots (note_traffic h d w sv) = slots sv" "poller_of (note_traffic h d w sv) = poller_of sv"
  "calls (note_traffic h d w sv) = calls sv"
  "slots (forget_traffic h sv) = slots sv" "poller_of (forget_traffic h sv) = poller_of sv"
  "calls (forget_traffic h sv) = calls sv"
  by (simp_all add: note_traffic_def forget_traffic_def)

lemma server_inv_traffic [simp]:
  "server_inv tgt a (note_traffic h d w sv) = server_inv tgt a sv"
  "server_inv tgt a (forget_traffic h sv) = server_inv tgt a sv"
  by (simp_all add: server_inv_def)

lemma server_inv_change:
  assumes "server_inv tgt a sv" "i < length (slots sv)"
    and "slot_ok tgt sl" "slot_handle sl = slot_handle (slots sv ! i)"
    and "interests p = (interests (poller_of sv))(slot_handle (slots sv ! i) \<mapsto> slot_interest sl)"
  shows "server_inv tgt a (sv\<lparr>slots := (slots sv)[i := sl], poller_of := p, completed := n\<rparr>)"
proof -
  let ?rest = "take i (slots sv) @ drop (Suc i) (slots sv)"
  from assms(1) obtain S where S: "open_after (calls sv) {} = Some S"
    "table_ok tgt (listener_handle a) (slots sv) (interests (poller_of sv)) S" "listener_handle a \<noteq> k_invalid_socket"
    by (auto simp: server_inv_def)
  have "mset (slots sv) = mset (slots sv ! i # ?rest)" using mset_pick_same [OF assms(2)] by simp
  with S(2) have "table_ok tgt (listener_handle a) (slots sv ! i # ?rest) (interests (poller_of sv)) S"
    using table_ok_perm by blast
  from table_ok_change [OF this assms(3,4)] have "table_ok tgt (listener_handle a) (sl # ?rest) (interests p) S"
    using assms(5) by simp
  moreover have "mset ((slots sv)[i := sl]) = mset (sl # ?rest)" using mset_pick [OF assms(2)] by simp
  ultimately have "table_ok tgt (listener_handle a) ((slots sv)[i := sl]) (interests p) S"
    using table_ok_perm by blast
  with S(1,3) show ?thesis by (simp add: server_inv_def)
qed

lemma slot_destroy_open:
  "Socket_valid (conn_socket (sl_conn sl)) \<Longrightarrow> slot_handle sl \<in> S \<Longrightarrow>
     open_after (slot_destroy sl) S = Some (S - {slot_handle sl})"
  by (simp add: slot_destroy_def Socket_destroy_def Socket_close_def Socket_valid_def Connection_native_handle_def Let_def)

text \<open>The slot removed may already be out of step with the poller: only its socket must be its own.\<close>

lemma server_inv_remove:
  assumes "server_inv tgt a sv" "i < length (slots sv)"
    and "conn_socket (sl_conn sl) = conn_socket (sl_conn (slots sv ! i))"
    and "interests p = (interests (poller_of sv))(slot_handle (slots sv ! i) := m)"
  shows "server_inv tgt a (remove_slot i (sv\<lparr>slots := (slots sv)[i := sl], poller_of := p, completed := n\<rparr>))"
proof -
  let ?xs = "slots sv" let ?h = "slot_handle (slots sv ! i)"
  let ?rest = "take i ?xs @ drop (Suc i) ?xs"
  let ?sv = "sv\<lparr>slots := ?xs[i := sl], poller_of := p, completed := n\<rparr>"
  from assms(1) obtain S where S: "open_after (calls sv) {} = Some S"
    "table_ok tgt (listener_handle a) ?xs (interests (poller_of sv)) S" "listener_handle a \<noteq> k_invalid_socket"
    by (auto simp: server_inv_def)
  have "mset ?xs = mset (?xs ! i # ?rest)" using mset_pick_same [OF assms(2)] by simp
  with S(2) have "table_ok tgt (listener_handle a) (?xs ! i # ?rest) (interests (poller_of sv)) S"
    using table_ok_perm by blast
  moreover have "interests (poller_of (remove_slot i ?sv)) = (interests (poller_of sv))(?h := None)"
    using assms(2-4) by (simp add: remove_slot_def Let_def select.erase_interest Connection_native_handle_def)
  ultimately have t: "table_ok tgt (listener_handle a) ?rest (interests (poller_of (remove_slot i ?sv))) (S - {?h})"
    using table_ok_delete by metis
  have m: "mset (slots (remove_slot i ?sv)) = mset ?rest"
    using mset_swap_remove [of i "?xs[i := sl]"] assms(2) by (simp add: remove_slot_def Let_def split: if_splits)
  have valid: "Socket_valid (conn_socket (sl_conn (?xs ! i)))" "?h \<in> S"
    using S(2) assms(2) by (auto simp: table_ok_def slot_ok_def)
  have "open_after (calls (remove_slot i ?sv)) {} = Some (S - {?h})"
  proof -
    have "last (?xs[i := sl]) = sl" if "\<not> i + 1 < length ?xs"
    proof -
      from that assms(2) have "?xs \<noteq> []" "i = length ?xs - 1" by auto
      then show ?thesis by (simp add: last_list_update)
    qed
    then have "calls (remove_slot i ?sv) = calls sv @ slot_destroy sl"
      using assms(2) by (simp add: remove_slot_def Let_def)
    moreover have "slot_handle sl = ?h" "Socket_valid (conn_socket (sl_conn sl))"
      using assms(3) valid by (simp_all add: Connection_native_handle_def)
    ultimately show ?thesis using S(1) slot_destroy_open [of sl S] valid(2) by (simp add: open_after_append)
  qed
  with t m S(3) show ?thesis using table_ok_perm [OF m] by (auto simp: server_inv_def)
qed

section \<open>Events keep the invariant\<close>

lemma inv_slot:
  "server_inv tgt a sv \<Longrightarrow> i < length (slots sv) \<Longrightarrow>
     slot_ok tgt (slots sv ! i) \<and>
     interests (poller_of sv) (slot_handle (slots sv ! i)) = Some (slot_interest (slots sv ! i))"
  by (auto simp: server_inv_def table_ok_def)

lemma remove_slot_calls: "\<exists>cs. calls (remove_slot i sv) = calls sv @ cs"
  by (simp add: remove_slot_def Let_def)

text \<open>What a read does to the server.\<close>

definition after_read :: "size_t \<Rightarrow> ReadOutcome \<Rightarrow> serving \<Rightarrow> byte list \<Rightarrow> server \<Rightarrow> server" where
  "after_read i res st inp sv =
     (let sv1 = sv\<lparr>slots := (slots sv)[i := slot st], poller_of := srv_poller st, completed := completions st\<rparr>
      in note_traffic (slot_handle (slots sv ! i)) inp (wire st)
           (case res of ReadOk \<Rightarrow> sv1 | PeerClosed \<Rightarrow> remove_slot i sv1))"

lemma process_read_result:
  assumes "process_connection_read tgt px i sv rscript sscript = Some (Done (res, sv'), rs, ss)"
  obtains st where "read_loop tgt px
      \<lparr>slot = slots sv ! i, srv_poller = poller_of sv, completions = completed sv, wire = []\<rparr> rscript sscript =
      Some (Done (res, st), rs, ss)"
    "sv' = after_read i res st (received_bytes (take (length rscript - length rs) rscript)) sv"
proof -
  from assms obtain out where out: "read_loop tgt px
      \<lparr>slot = slots sv ! i, srv_poller = poller_of sv, completions = completed sv, wire = []\<rparr> rscript sscript =
      Some (out, rs, ss)"
    by (auto simp: process_connection_read_def split: option.splits)
  then obtain res1 st where o: "out = Done (res1, st)"
    using assms by (cases out) (auto simp: process_connection_read_def)
  have "res1 = res \<and> sv' = after_read i res st (received_bytes (take (length rscript - length rs) rscript)) sv"
    using assms out o by (cases res1; simp add: process_connection_read_def after_read_def Let_def)+
  with out o show thesis by (intro that [of st]) simp_all
qed

lemma process_read_calls:
  assumes "process_connection_read tgt px i sv rscript sscript = Some (Done (res, sv'), rs, ss)"
  shows "\<exists>cs. calls sv' = calls sv @ cs"
proof -
  obtain st where "sv' = after_read i res st (received_bytes (take (length rscript - length rs) rscript)) sv"
    by (rule process_read_result [OF assms])
  then show ?thesis
    using remove_slot_calls [of i "sv\<lparr>slots := (slots sv)[i := slot st], poller_of := srv_poller st,
      completed := completions st\<rparr>"] by (simp add: after_read_def Let_def split: ReadOutcome.split)
qed

lemma process_read_inv:
  assumes "server_inv tgt a sv" "i < length (slots sv)"
    and "process_connection_read tgt px i sv rscript sscript = Some (Done (res, sv'), rs, ss)"
  shows "server_inv tgt a sv'"
proof -
  obtain st where rl: "read_loop tgt px
      \<lparr>slot = slots sv ! i, srv_poller = poller_of sv, completions = completed sv, wire = []\<rparr> rscript sscript =
      Some (Done (res, st), rs, ss)"
    and sv': "sv' = after_read i res st (received_bytes (take (length rscript - length rs) rscript)) sv"
    by (rule process_read_result [OF assms(3)])
  note r = read_serves [OF rl] inv_slot [OF assms(1,2)]
  show ?thesis
  proof (cases res)
    case ReadOk
    with r have "slot_ok tgt (slot st)" "slot_handle (slot st) = slot_handle (slots sv ! i)"
      "interests (srv_poller st) = (interests (poller_of sv))(slot_handle (slots sv ! i) \<mapsto> slot_interest (slot st))"
      by (auto simp: Connection_native_handle_def)
    from server_inv_change [OF assms(1,2) this] ReadOk sv' show ?thesis by (simp add: after_read_def)
  next
    case PeerClosed
    have "server_inv tgt a (remove_slot i (sv\<lparr>slots := (slots sv)[i := slot st], poller_of := srv_poller st,
        completed := completions st\<rparr>))"
      using r by (intro server_inv_remove [OF assms(1,2)]) blast+
    then show ?thesis using PeerClosed sv' by (simp add: after_read_def)
  qed
qed

lemma flush_slot_result:
  assumes "flush_slot tgt px i sv scr = Some (Done sv', scr')"
  obtains st ss where "try_flush_writes tgt px
      \<lparr>slot = slots sv ! i, srv_poller = poller_of sv, completions = completed sv, wire = []\<rparr> (sends scr) =
      Some (Done st, ss)" "sv' = after_read i ReadOk st [] sv"
  using assms by (auto simp: flush_slot_def after_read_def split: option.splits)

lemma flush_slot_inv:
  assumes "server_inv tgt a sv" "i < length (slots sv)" "flush_slot tgt px i sv scr = Some (Done sv', scr')"
  shows "server_inv tgt a sv'"
proof -
  obtain st ss where fl: "try_flush_writes tgt px
      \<lparr>slot = slots sv ! i, srv_poller = poller_of sv, completions = completed sv, wire = []\<rparr> (sends scr) =
      Some (Done st, ss)" and sv': "sv' = after_read i ReadOk st [] sv"
    by (rule flush_slot_result [OF assms(3)])
  from flush_serves [OF fl conjunct1 [OF inv_slot [OF assms(1,2)]]]
  show ?thesis unfolding sv' by (auto simp: after_read_def intro: server_inv_change [OF assms(1,2)])
qed

lemma accept_extends:
  "accept_loop px a sv envs = Some (Done sv', rest) \<Longrightarrow> \<exists>cs. calls sv' = calls sv @ cs"
proof (induction px a sv envs rule: accept_loop.induct)
  case (2 px a sv env envs)
  then show ?case by (auto split: prod.splits sum.splits if_splits) fastforce
qed simp

lemma accept_success_fresh:
  assumes "accept_and_register px sp_upsert env a p = (Inr conn, p', cs)" "fresh_opens cs S"
  shows "0 \<le> rc (env_accept env)" "rc (env_accept env) \<notin> S"
  using assms by (auto simp: select.accept_and_register_eq Let_def split: if_splits)

definition new_slot :: "Connection \<Rightarrow> ConnSlot" where
  "new_slot conn = \<lparr>sl_conn = fst (Connection_move conn), awaiting_reply_flush = False\<rparr>"

text \<open>The server after it has accepted a connection.\<close>

definition after_accept :: "Connection \<Rightarrow> SelectPoller \<Rightarrow> syscall list \<Rightarrow> server \<Rightarrow> server" where
  "after_accept conn p cs sv = forget_traffic (Connection_native_handle conn)
     (sv\<lparr>slots := slots sv @ [new_slot conn], poller_of := p, calls := calls sv @ cs\<rparr>)"

lemma accept_loop_more:
  "accept_and_register px sp_upsert env a (poller_of sv) = (Inr conn, p, cs) \<Longrightarrow>
     accept_loop px a sv (env # envs) = accept_loop px a (after_accept conn p cs sv) envs"
  by (simp add: after_accept_def new_slot_def)

lemma after_accept_inv:
  assumes "server_inv tgt a sv" "accept_and_register px sp_upsert env a (poller_of sv) = (Inr conn, p, cs)"
    and "fresh_opens (calls sv @ cs) {}"
  shows "server_inv tgt a (after_accept conn p cs sv)" and "slot_handle (new_slot conn) \<notin> slot_handle ` set (slots sv)"
    and "slot_handle (new_slot conn) = Connection_native_handle conn"
    and "read_buf (sl_conn (new_slot conn)) = []" "write_buf (sl_conn (new_slot conn)) = []"
proof -
  let ?sl = "new_slot conn"
  from assms(1) obtain S where S: "open_after (calls sv) {} = Some S" "listener_handle a \<noteq> k_invalid_socket"
    "table_ok tgt (listener_handle a) (slots sv) (interests (poller_of sv)) S" by (auto simp: server_inv_def)
  have "fresh_opens cs S" using assms(3) S(1) by (simp add: fresh_opens_append)
  note ok = select.accept_and_register_success [OF assms(2)] accept_success_fresh [OF assms(2) this]
  have sl: "slot_handle ?sl = rc (env_accept env)" "slot_interest ?sl = EM_Read" "slot_ok tgt ?sl"
    using ok(5,6)
    by (simp_all add: new_slot_def ok(1) Connection_move_def Socket_move_def slot_ok_def slot_interest_def
        Connection_native_handle_def Socket_valid_def k_invalid_socket_def frame_dec_eq)
  show "slot_handle ?sl = Connection_native_handle conn" "read_buf (sl_conn ?sl) = []" "write_buf (sl_conn ?sl) = []"
    by (simp_all add: new_slot_def ok(1) Connection_move_def Socket_move_def Connection_native_handle_def)
  have new: "slot_handle ?sl \<notin> S" "open_after cs S = Some (insert (slot_handle ?sl) S)"
    "interests p = (interests (poller_of sv))(slot_handle ?sl \<mapsto> slot_interest ?sl)"
    using ok sl by simp_all
  then show "slot_handle ?sl \<notin> slot_handle ` set (slots sv)" using S(3) by (simp add: table_ok_def)
  from table_ok_add [OF S(3) sl(3) new(1)] new(3) have
    "table_ok tgt (listener_handle a) (?sl # slots sv) (interests p) (insert (slot_handle ?sl) S)" by simp
  then have "table_ok tgt (listener_handle a) (slots sv @ [?sl]) (interests p) (insert (slot_handle ?sl) S)"
    using table_ok_perm [of "?sl # slots sv" "slots sv @ [?sl]"] by simp
  with S(1,2) new(2) show "server_inv tgt a (after_accept conn p cs sv)"
    by (simp add: server_inv_def after_accept_def open_after_append)
qed

lemma after_accept_calls: "calls (after_accept conn p cs sv) = calls sv @ cs"
  by (simp add: after_accept_def)

text \<open>Induction over the connections accepted by the loop.\<close>

lemma accept_loop_keeps:
  assumes run: "accept_loop px a sv envs = Some (Done sv', rest)" "fresh_opens (calls sv') {}" "server_inv tgt a sv" "P sv"
    and last: "\<And>sv cs. P sv \<Longrightarrow> P (sv\<lparr>calls := calls sv @ cs\<rparr>)"
    and more: "\<And>sv env conn p cs. server_inv tgt a sv \<Longrightarrow> P sv \<Longrightarrow> fresh_opens (calls sv @ cs) {} \<Longrightarrow>
      accept_and_register px sp_upsert env a (poller_of sv) = (Inr conn, p, cs) \<Longrightarrow> P (after_accept conn p cs sv)"
  shows "server_inv tgt a sv' \<and> P sv'"
  using run
proof (induction envs arbitrary: sv)
  case (Cons env envs)
  obtain res p cs where acc: "accept_and_register px sp_upsert env a (poller_of sv) = (res, p, cs)"
    by (rule prod_cases3)
  from Cons.prems(3) obtain S where S: "open_after (calls sv) {} = Some S" "listener_handle a \<noteq> k_invalid_socket"
    "table_ok tgt (listener_handle a) (slots sv) (interests (poller_of sv)) S" by (auto simp: server_inv_def)
  show ?case
  proof (cases res)
    case (Inl e)
    with acc Cons.prems(1) have sv': "sv' = sv\<lparr>poller_of := p, calls := calls sv @ cs\<rparr>" by (auto split: if_splits)
    with Cons.prems(2) S(1) have "fresh_opens cs S" by (simp add: fresh_opens_append)
    with acc Inl have "p = poller_of sv \<and> open_after cs S = Some S"
      by (auto simp: select.accept_and_register_eq Let_def split: if_splits)
    with sv' S last [OF Cons.prems(4), of cs] show ?thesis by (auto simp: server_inv_def open_after_append)
  next
    case (Inr conn)
    note acc' = acc [unfolded Inr]
    with Cons.prems(1) have rec: "accept_loop px a (after_accept conn p cs sv) envs = Some (Done sv', rest)"
      by (simp only: accept_loop_more)
    from accept_extends [OF rec] obtain ds where "calls sv' = calls (after_accept conn p cs sv) @ ds" ..
    with Cons.prems(2) have fresh: "fresh_opens (calls sv @ cs) {}"
      using fresh_opens_prefix by (metis after_accept_calls)
    show ?thesis
      by (rule Cons.IH [OF rec Cons.prems(2) after_accept_inv(1) [OF Cons.prems(3) acc' fresh]
            more [OF Cons.prems(3,4) fresh acc']])
  qed
qed simp

lemma accept_loop_inv:
  "accept_loop px a sv envs = Some (Done sv', rest) \<Longrightarrow> server_inv tgt a sv \<Longrightarrow> fresh_opens (calls sv') {} \<Longrightarrow>
     server_inv tgt a sv'"
  by (drule accept_loop_keeps [where P = "\<lambda>_. True"]) auto

text \<open>The trace only grows, whatever the state.\<close>

lemma flush_slot_calls:
  "flush_slot tgt px i sv scr = Some (Done sv', scr') \<Longrightarrow> calls sv' = calls sv"
  by (erule flush_slot_result) (simp add: after_read_def)

lemma write_half_inv:
  assumes "write_half tgt px ev sv scr = Some (Done sv', scr')"
  shows "calls sv' = calls sv" and "server_inv tgt a sv \<Longrightarrow> server_inv tgt a sv'"
  using assms flush_slot_inv [of tgt a sv] find_slot_index_Some [of "slots sv" "ev_socket ev"] flush_slot_calls
  by (auto simp: write_half_def split: if_splits option.splits)

lemma handle_event_cases:
  assumes "handle_event tgt px a ev sv scr = Some (Done sv', scr')"
  obtains (ignored) "sv' = sv"
  | (accepted) envs where "accept_loop px a sv (accepts scr) = Some (Done sv', envs)"
  | (written) "write_half tgt px ev sv scr = Some (Done sv', scr')"
  | (read) idx res sv1 rs ss where "idx < length (slots sv)"
      "process_connection_read tgt px idx sv (recvs scr) (sends scr) = Some (Done (res, sv1), rs, ss)"
      "sv' = sv1 \<or> (\<exists>scr1. write_half tgt px ev sv1 scr1 = Some (Done sv', scr'))"
proof (cases "ev_socket ev = listener_handle a")
  case True
  show thesis
  proof (cases "mask_and (ev_mask ev) EM_Read = EM_None")
    case False
    with assms True obtain out envs where "accept_loop px a sv (accepts scr) = Some (out, envs)"
      by (cases "accept_loop px a sv (accepts scr)") (auto simp: handle_event_def)
    with assms True False show thesis by (simp add: handle_event_def accepted)
  qed (use assms True in \<open>simp add: handle_event_def ignored\<close>)
next
  case other: False
  show thesis
  proof (cases "find_slot_index (slots sv) (ev_socket ev)")
    case None
    with other assms show thesis by (simp add: handle_event_def ignored)
  next
    case (Some idx)
    show thesis
    proof (cases "mask_and (ev_mask ev) EM_Read = EM_None")
      case True
      with assms other Some show thesis by (simp add: handle_event_def written)
    next
      case False
      note ev = assms [unfolded handle_event_def]
      from ev other Some False obtain out rs ss where
        rd: "process_connection_read tgt px idx sv (recvs scr) (sends scr) = Some (out, rs, ss)"
        by (cases "process_connection_read tgt px idx sv (recvs scr) (sends scr)") auto
      with ev other Some False obtain res sv1 where out: "out = Done (res, sv1)"
        by (cases out) (auto simp: Let_def)
      have "sv' = sv1 \<or> write_half tgt px ev sv1 (scr\<lparr>recvs := rs, sends := ss\<rparr>) = Some (Done sv', scr')"
        using ev other Some False rd out
        by (cases res; cases "find_slot_index (slots sv1) (ev_socket ev)") (simp_all add: Let_def)
      with find_slot_index_Some [OF Some] rd out show thesis by (intro read) auto
    qed
  qed
qed

lemma handle_event_calls:
  assumes "handle_event tgt px a ev sv scr = Some (Done sv', scr')"
  shows "\<exists>cs. calls sv' = calls sv @ cs"
  using assms
proof (cases rule: handle_event_cases)
  case (read idx res sv1 rs ss)
  from process_read_calls [OF read(2)] obtain cs where "calls sv1 = calls sv @ cs" ..
  moreover have "calls sv' = calls sv1" using read(3) write_half_inv(1) by blast
  ultimately show ?thesis by simp
qed (auto dest: accept_extends write_half_inv(1))

lemma handle_event_inv:
  assumes "handle_event tgt px a ev sv scr = Some (Done sv', scr')" "server_inv tgt a sv" "fresh_opens (calls sv') {}"
  shows "server_inv tgt a sv'"
  using assms(1)
proof (cases rule: handle_event_cases)
  case (read idx res sv1 rs ss)
  with process_read_inv [OF assms(2) read(1,2)] write_half_inv(2) show ?thesis by blast
qed (use assms in \<open>auto dest: accept_loop_inv write_half_inv(2)\<close>)

lemma handle_events_calls:
  "handle_events tgt px a evs sv scr = Some (Done sv', scr') \<Longrightarrow> \<exists>cs. calls sv' = calls sv @ cs"
proof (induction tgt px a evs sv scr rule: handle_events.induct)
  case (2 tgt px a ev evs sv scr)
  from "2.prems" obtain sv1 scr1 where one: "handle_event tgt px a ev sv scr = Some (Done sv1, scr1)"
    and more: "handle_events tgt px a evs sv1 scr1 = Some (Done sv', scr')"
    by (auto split: option.splits outcome.splits prod.splits)
  from "2.IH" [OF one refl refl more] handle_event_calls [OF one] show ?case by (metis append_assoc)
qed simp

lemma handle_events_inv:
  "handle_events tgt px a evs sv scr = Some (Done sv', scr') \<Longrightarrow> server_inv tgt a sv \<Longrightarrow> fresh_opens (calls sv') {} \<Longrightarrow>
     server_inv tgt a sv'"
proof (induction tgt px a evs sv scr rule: handle_events.induct)
  case (2 tgt px a ev evs sv scr)
  from "2.prems"(1) obtain sv1 scr1 where one: "handle_event tgt px a ev sv scr = Some (Done sv1, scr1)"
    and more: "handle_events tgt px a evs sv1 scr1 = Some (Done sv', scr')"
    by (auto split: option.splits outcome.splits prod.splits)
  from handle_events_calls [OF more] have "fresh_opens (calls sv1) {}" using "2.prems"(3) fresh_opens_prefix by metis
  from "2.IH" [OF one refl refl more handle_event_inv [OF one "2.prems"(2) this] "2.prems"(3)] show ?case .
qed simp

section \<open>The loop, the start and the end\<close>

lemma serve_ticks_turn:
  assumes "serve_ticks tgt px a (tk # tks) sv = Some (Done sv')"
  obtains (over) "sv' = sv"
  | (turn) evs sv1 scr where "handle_events tgt px a evs sv (answering tk) = Some (Done sv1, scr)"
      "serve_ticks tgt px a tks sv1 = Some (Done sv')"
  using assms by (auto split: if_splits option.splits outcome.splits sum.splits prod.splits)

lemma serve_ticks_calls:
  "serve_ticks tgt px a tks sv = Some (Done sv') \<Longrightarrow> \<exists>cs. calls sv' = calls sv @ cs"
proof (induction tks arbitrary: sv)
  case (Cons tk tks)
  from Cons.prems show ?case
  proof (cases rule: serve_ticks_turn)
    case (turn evs sv1 scr)
    from handle_events_calls [OF turn(1)] Cons.IH [OF turn(2)] show ?thesis by (metis append_assoc)
  qed simp
qed simp

lemma serve_ticks_inv:
  "serve_ticks tgt px a tks sv = Some (Done sv') \<Longrightarrow> server_inv tgt a sv \<Longrightarrow> fresh_opens (calls sv') {} \<Longrightarrow>
     server_inv tgt a sv'"
proof (induction tks arbitrary: sv)
  case (Cons tk tks)
  from Cons.prems(1) show ?case
  proof (cases rule: serve_ticks_turn)
    case (turn evs sv1 scr)
    from serve_ticks_calls [OF turn(2)] have "fresh_opens (calls sv1) {}" using Cons.prems(3) fresh_opens_prefix by metis
    from Cons.IH [OF turn(2) handle_events_inv [OF turn(1) Cons.prems(2) this] Cons.prems(3)] show ?thesis .
  qed (use Cons.prems in simp)
qed simp

lemma bind_and_listen_opens:
  assumes "bind_and_listen resolve host port backlog = (Inr l, cs)"
  shows "open_after cs {} = Some {native_handle (listener_socket l)}"
proof -
  from assms obtain as no where "try_addresses backlog no as = (Inr l, cs)"
    by (auto simp: bind_and_listen_def Let_def split: if_splits)
  with try_addresses_open [of as "{}" backlog no] show ?thesis by simp
qed

lemma start_server_inv:
  assumes "start_server tgt px env = Done (port, a, sv)"
  shows "server_inv tgt a sv" "slots sv = []" "Listener_valid (acceptor_listener a)"
proof -
  from assms obtain bound cs fs where b: "bind_and_listen (resolving env) ''127.0.0.1'' 0 k_accept_backlog = (Inr bound, cs)"
    "Listener_valid bound"
    "set_nonblocking px (start_getfl env) (start_setfl env) True (listener_socket bound) = (Inr (), fs)"
    and st: "(case Acceptor_new bound of (a, moved) \<Rightarrow>
        case register_listener sp_upsert a SelectPoller_default of
          (Inl e, p) \<Rightarrow> Abort ''register_listener''
        | (Inr _, p) \<Rightarrow> Done (port, a, \<lparr>slots = [], poller_of = p, completed = 0, calls = cs @ fs,
            received_from = (\<lambda>_. []), sent_to = (\<lambda>_. [])\<rparr>)) = Done (port, a, sv)"
    by (auto simp: start_server_def split: prod.splits sum.splits if_splits)
  let ?l = "native_handle (listener_socket bound)"
  have fs: "open_after fs S = Some S" for S
    using b(2,3) by (auto simp: set_nonblocking_def Let_def split: if_splits)
  have l: "?l \<noteq> k_invalid_socket" using b(2) by (simp add: Listener_valid_def Socket_valid_def)
  have "a = fst (Acceptor_new bound)" and sv: "slots sv = []" "calls sv = cs @ fs"
    "poller_of sv = snd (register_listener sp_upsert (fst (Acceptor_new bound)) SelectPoller_default)"
    using st by (auto split: prod.splits sum.splits)
  then have a: "listener_handle a = ?l" and "listener_socket (acceptor_listener a) = listener_socket bound"
    by (simp_all add: Acceptor_new_def Socket_move_def listener_handle_def)
  then show "Listener_valid (acceptor_listener a)" using b(2) by (simp add: Listener_valid_def)
  have "interests (poller_of sv) = [?l \<mapsto> EM_Read]"
    using l sv(3) \<open>a = _\<close> a select.listener_registration(2) [of a SelectPoller_default]
    by (simp add: SelectPoller_default_def)
  with bind_and_listen_opens [OF b(1)] fs l a sv(1,2) show "server_inv tgt a sv"
    by (simp add: server_inv_def table_ok_def open_after_append)
  show "slots sv = []" by (rule sv(1))
qed

lemma close_slots_calls:
  "open_after (calls sv) S = Some T \<Longrightarrow>
     \<forall>sl\<in>set sls. Socket_valid (conn_socket (sl_conn sl)) \<and> slot_handle sl \<in> T \<Longrightarrow> distinct (map slot_handle sls) \<Longrightarrow>
     slots (close_slots sls sv) = [] \<and>
     open_after (calls (close_slots sls sv)) S = Some (T - slot_handle ` set sls) \<and>
     interests (poller_of (close_slots sls sv)) = (interests (poller_of sv)) |` (- (slot_handle ` set sls))"
proof (induction sls arbitrary: sv T)
  case (Cons sl sls)
  let ?sv = "sv\<lparr>poller_of := snd (sp_erase (slot_handle sl) (poller_of sv)), calls := calls sv @ slot_destroy sl\<rparr>"
  have "open_after (calls ?sv) S = Some (T - {slot_handle sl})"
    using Cons.prems slot_destroy_open [of sl T] by (simp add: open_after_append)
  moreover have "\<forall>s\<in>set sls. Socket_valid (conn_socket (sl_conn s)) \<and> slot_handle s \<in> T - {slot_handle sl}"
    using Cons.prems(2,3) by (auto simp: image_iff)
  ultimately have "slots (close_slots sls ?sv) = [] \<and>
      open_after (calls (close_slots sls ?sv)) S = Some (T - {slot_handle sl} - slot_handle ` set sls) \<and>
      interests (poller_of (close_slots sls ?sv)) = (interests (poller_of ?sv)) |` (- (slot_handle ` set sls))"
    using Cons.IH Cons.prems(3) by simp
  moreover have "T - {slot_handle sl} - slot_handle ` set sls = T - slot_handle ` set (sl # sls)" by auto
  moreover have "(interests (poller_of ?sv)) |` (- (slot_handle ` set sls)) =
      (interests (poller_of sv)) |` (- (slot_handle ` set (sl # sls)))"
    by (auto simp: select.erase_interest restrict_map_def fun_eq_iff)
  ultimately show ?case by simp
qed (simp add: restrict_map_def)

lemma close_server_calls: "close_server a sv = Done sv' \<Longrightarrow> \<exists>cs. calls sv' = calls sv @ cs"
proof -
  have "\<exists>cs. calls (close_slots sls sv) = calls sv @ cs" for sls sv
    by (induction sls sv rule: close_slots.induct) auto
  then show "close_server a sv = Done sv' \<Longrightarrow> \<exists>cs. calls sv' = calls sv @ cs"
    by (auto simp: close_server_def Let_def split: prod.splits sum.splits)
qed

lemma close_server_closes:
  assumes "server_inv tgt a sv" "close_server a sv = Done sv'"
  shows "slots sv' = []" "interests (poller_of sv') = Map.empty"
    "open_after (calls sv') {} = Some {listener_handle a}"
proof -
  from assms(1) obtain S where S: "open_after (calls sv) {} = Some S"
    "table_ok tgt (listener_handle a) (slots sv) (interests (poller_of sv)) S" by (auto simp: server_inv_def)
  define sv1 where "sv1 = close_slots (rev (slots sv)) sv"
  have "\<forall>sl\<in>set (rev (slots sv)). Socket_valid (conn_socket (sl_conn sl)) \<and> slot_handle sl \<in> S"
    "distinct (map slot_handle (rev (slots sv)))"
    using S(2) by (auto simp: table_ok_def slot_ok_def simp flip: rev_map)
  from close_slots_calls [OF S(1) this] have c: "slots sv1 = []"
    "open_after (calls sv1) {} = Some (S - slot_handle ` set (slots sv))"
    "interests (poller_of sv1) = (interests (poller_of sv)) |` (- (slot_handle ` set (slots sv)))"
    by (simp_all add: sv1_def)
  have sv': "sv' = sv1\<lparr>poller_of := snd (unregister_listener sp_erase a (poller_of sv1))\<rparr>"
    using assms(2) by (auto simp: close_server_def sv1_def [symmetric] Let_def split: prod.splits sum.splits)
  show "slots sv' = []" using c(1) sv' by simp
  have "S - slot_handle ` set (slots sv) = {listener_handle a}" using S(2) by (auto simp: table_ok_def)
  with c(2) sv' show "open_after (calls sv') {} = Some {listener_handle a}" by simp
  have "interests (poller_of sv') h = None" for h
  proof -
    have "interests (poller_of sv') h = (if h = listener_handle a \<or> h \<in> slot_handle ` set (slots sv) then None
        else interests (poller_of sv) h)"
      using sv' c(3) by (simp add: select.listener_registration(4) restrict_map_def)
    moreover have "h \<notin> dom (interests (poller_of sv))" if "h \<noteq> listener_handle a" "h \<notin> slot_handle ` set (slots sv)"
      using S(2) that by (simp add: table_ok_def)
    ultimately show ?thesis by auto
  qed
  then show "interests (poller_of sv') = Map.empty" by auto
qed

section \<open>Properties\<close>

text \<open>C6: The server's books agree. Whenever the loop of a started server is at its head (the clock may end the
  run at any turn, so this is every turn), for any events, orders and answers of the kernel, if the kernel
  opens only descriptors that are not open: the listening socket and the slots own distinct descriptors,
  exactly these are open, none was closed twice, and exactly these are registered with the poller; each
  slot's read buffer holds no complete frame, a reply is awaited exactly when there is unsent output, and
  the poller watches for writability exactly then.\<close>

theorem server_invariant:
  assumes "start_server tgt px env = Done (port, a, sv0)"
    and "serve_ticks tgt px a tks sv0 = Some (Done sv)" and "fresh_opens (calls sv) {}"
  shows "distinct (listener_handle a # map slot_handle (slots sv)) \<and>
    open_after (calls sv) {} = Some (insert (listener_handle a) (slot_handle ` set (slots sv))) \<and>
    dom (interests (poller_of sv)) = insert (listener_handle a) (slot_handle ` set (slots sv)) \<and>
    interests (poller_of sv) (listener_handle a) = Some EM_Read \<and>
    (\<forall>sl\<in>set (slots sv). frame_dec tgt k_max_payload (read_buf (sl_conn sl)) = NeedMore \<and>
       (awaiting_reply_flush sl \<longleftrightarrow> write_buf (sl_conn sl) \<noteq> []) \<and>
       interests (poller_of sv) (slot_handle sl) =
         Some (if write_buf (sl_conn sl) = [] then EM_Read else EM_Read_Write))"
proof -
  from serve_ticks_inv [OF assms(2) start_server_inv(1) [OF assms(1)] assms(3)] show ?thesis
    by (auto simp: server_inv_def table_ok_def slot_ok_def slot_interest_def)
qed

text \<open>A server on descriptor 3, and a client that connects as 5 before the time is up.\<close>

definition demo_start :: start_env where
  "demo_start =
     (let ok = \<lparr>rc = 0, err = 0\<rparr>;
          addr = \<lparr>a_socket = \<lparr>rc = 3, err = 0\<rparr>, a_setsockopt = ok, a_bind = ok, a_close = ok, a_listen = ok\<rparr>
      in \<lparr>resolving = (\<lambda>_ _. \<lparr>gai_rc = 0, gai_message = [], gai_list = [addr], gai_errno = 0\<rparr>),
          sockname = ok, sockname_port = (31, 144), start_getfl = ok, start_setfl = ok\<rparr>)"

definition demo_ticks :: "tick list" where
  "demo_ticks =
     (let ok = \<lparr>rc = 0, err = 0\<rparr>;
          got = \<lparr>env_accept = \<lparr>rc = 5, err = 0\<rparr>, env_getfl = ok, env_setfl = ok, env_close = ok\<rparr>;
          no_more = \<lparr>env_accept = \<lparr>rc = - 1, err = 11\<rparr>, env_getfl = ok, env_setfl = ok, env_close = ok\<rparr>;
          tk = \<lparr>before_deadline = True, stop_requested = False, map_order = [3],
                selecting = (\<lambda>c. \<lparr>sr_rc = 1, sr_err = 0, sr_read = {3}, sr_write = {}, sr_except = {}\<rparr>),
                answering = \<lparr>accepts = [got, no_more], recvs = [], sends = []\<rparr>\<rparr>
      in [tk, tk\<lparr>before_deadline := False\<rparr>])"

definition demo_acceptor :: Acceptor where
  "demo_acceptor = \<lparr>acceptor_listener = \<lparr>listener_socket = \<lparr>native_handle = 3\<rparr>\<rparr>\<rparr>"

definition demo_server :: server where
  "demo_server = \<lparr>slots = [], poller_of = \<lparr>interests = [3 \<mapsto> EM_Read]\<rparr>, completed = 0,
     calls = [Sys_opened 3, Sys_setsockopt 3, Sys_bind 3, Sys_listen 3 128, Sys_getfl 3, Sys_setfl 3 2048],
     received_from = (\<lambda>_. []), sent_to = (\<lambda>_. [])\<rparr>"

definition demo_connected :: server where
  "demo_connected = \<lparr>slots = [\<lparr>sl_conn = \<lparr>conn_socket = \<lparr>native_handle = 5\<rparr>, conn_state = CS_Reading,
       read_buf = [], write_buf = []\<rparr>, awaiting_reply_flush = False\<rparr>],
     poller_of = \<lparr>interests = [3 \<mapsto> EM_Read, 5 \<mapsto> EM_Read]\<rparr>, completed = 0,
     calls = calls demo_server @ [Sys_accept 3, Sys_opened 5, Sys_getfl 5, Sys_setfl 5 2048, Sys_accept 3],
     received_from = (\<lambda>_. []), sent_to = (\<lambda>_. [])\<rparr>"

lemma demo_starts:
  "start_server \<lparr>build_mode = Debug, native_endian = Little\<rparr> linux demo_start = Done (8080, demo_acceptor, demo_server)"
  by (simp add: start_server_def demo_start_def bind_and_listen_def k_accept_backlog_def Listener_valid_def acceptor_calls
      local_port_v4_def ntohs_def load_u16_def Acceptor_new_def register_listener_def sp_upsert_def
      SelectPoller_default_def demo_acceptor_def demo_server_def linux_def listener_handle_def)

lemma demo_accept_turn:
  "serve_ticks tgt linux demo_acceptor (hd demo_ticks # tks) demo_server = serve_ticks tgt linux demo_acceptor tks demo_connected"
proof -
  have "sp_wait linux (\<lambda>c. \<lparr>sr_rc = 1, sr_err = 0, sr_read = {3}, sr_write = {}, sr_except = {}\<rparr>) 64 50 [3]
      \<lparr>interests = [3 \<mapsto> EM_Read]\<rparr> = Done (Inr [\<lparr>ev_socket = 3, ev_mask = EM_Read\<rparr>])"
    by (simp add: sp_wait_def select_args_def entries_def FD_SET_def linux_def fired_eq fired_mask_def mask_defs Let_def)
  then show ?thesis
    by (simp add: demo_ticks_def demo_server_def demo_connected_def demo_acceptor_def Let_def handle_event_def
        listener_handle_def mask_and_def EM_Read_def EM_None_def accept_and_register_def accept_one_def acceptor_calls
        sp_upsert_def Connection_move_def linux_def accept_would_block_def accept_err_def forget_traffic_def
        fun_upd_idem)
qed

lemma demo_accepts:
  "serve_ticks tgt linux demo_acceptor demo_ticks demo_server = Some (Done demo_connected)"
proof -
  have "demo_ticks = hd demo_ticks # [hd demo_ticks\<lparr>before_deadline := False\<rparr>]" by (simp add: demo_ticks_def Let_def)
  with demo_accept_turn [of tgt "[hd demo_ticks\<lparr>before_deadline := False\<rparr>]"] show ?thesis by simp
qed

theorem server_invariant_witness:
  "start_server \<lparr>build_mode = Debug, native_endian = Little\<rparr> linux demo_start = Done (8080, demo_acceptor, demo_server) \<and>
   serve_ticks \<lparr>build_mode = Debug, native_endian = Little\<rparr> linux demo_acceptor demo_ticks demo_server =
     Some (Done demo_connected) \<and>
   open_after (calls demo_connected) {} = Some {3, 5} \<and> interests (poller_of demo_connected) 3 = Some EM_Read"
proof -
  have "fresh_opens (calls demo_connected) {}" by (simp add: demo_connected_def demo_server_def)
  from server_invariant [OF demo_starts demo_accepts this]
  have "open_after (calls demo_connected) {} = Some (insert 3 (slot_handle ` set (slots demo_connected)))"
    "interests (poller_of demo_connected) 3 = Some EM_Read"
    by (simp_all add: demo_acceptor_def listener_handle_def)
  moreover have "slot_handle ` set (slots demo_connected) = {5}"
    by (simp add: demo_connected_def Connection_native_handle_def)
  ultimately show ?thesis using demo_starts demo_accepts by simp
qed

text \<open>C11: The server leaves nothing behind. Whenever the whole function returns, whatever happened meanwhile, every
  descriptor it opened (the listener's candidates, the accepted connections, those it failed to set up)
  has been closed, none twice, no slot is left and the poller is empty.\<close>

theorem server_leaves_nothing:
  assumes "run_server tgt px env tks = Some (Done (port, sv))" and "fresh_opens (calls sv) {}"
  shows "open_after (calls sv) {} = Some {} \<and> slots sv = [] \<and> interests (poller_of sv) = Map.empty"
proof -
  from assms(1) obtain a sv0 out where st: "start_server tgt px env = Done (port, a, sv0)"
    and tk: "serve_ticks tgt px a tks sv0 = Some out"
    by (auto simp: run_server_def split: outcome.splits option.splits)
  from assms(1) st tk obtain sv1 sv2 where out: "out = Done sv1" and cl: "close_server a sv1 = Done sv2"
    and sv: "sv = sv2\<lparr>calls := calls sv2 @ Socket_destroy \<lparr>rc = 0, err = 0\<rparr> (listener_socket (acceptor_listener a))\<rparr>"
    by (cases out; cases "close_server a (case out of Done s \<Rightarrow> s)") (auto simp: run_server_def)
  have "fresh_opens (calls sv2) {}" by (rule fresh_opens_prefix) (use assms(2) sv in simp)
  moreover obtain cs where "calls sv2 = calls sv1 @ cs" using close_server_calls [OF cl] by blast
  ultimately have "fresh_opens (calls sv1) {}" using fresh_opens_prefix by metis
  from serve_ticks_inv [OF tk [unfolded out] start_server_inv(1) [OF st] this] have "server_inv tgt a sv1" .
  note c = close_server_closes [OF this cl]
  have "Socket_valid (listener_socket (acceptor_listener a))"
    using start_server_inv(3) [OF st] by (simp add: Listener_valid_def)
  then have "Socket_destroy \<lparr>rc = 0, err = 0\<rparr> (listener_socket (acceptor_listener a)) = [Sys_close (listener_handle a)]"
    by (simp add: Socket_destroy_def Socket_close_def Socket_valid_def listener_handle_def Let_def)
  with c sv show ?thesis by (simp add: open_after_append)
qed

theorem server_leaves_nothing_witness:
  "\<exists>sv. run_server \<lparr>build_mode = Debug, native_endian = Little\<rparr> linux demo_start demo_ticks = Some (Done (8080, sv)) \<and>
     Sys_opened 5 \<in> set (calls sv) \<and> open_after (calls sv) {} = Some {}"
proof -
  let ?tgt = "\<lparr>build_mode = Debug, native_endian = Little\<rparr>"
  obtain sv2 where cl: "close_server demo_acceptor demo_connected = Done sv2"
    and c2: "calls sv2 = calls demo_connected @ [Sys_close 5]"
    by (simp add: close_server_def unregister_listener_def sp_erase_def Let_def demo_connected_def slot_destroy_def
        demo_acceptor_def acceptor_calls)
  have l: "Socket_destroy \<lparr>rc = 0, err = 0\<rparr> (listener_socket (acceptor_listener demo_acceptor)) = [Sys_close 3]"
    by (simp add: demo_acceptor_def acceptor_calls)
  obtain sv where r: "run_server ?tgt linux demo_start demo_ticks = Some (Done (8080, sv))"
    and c: "calls sv = calls demo_connected @ [Sys_close 5, Sys_close 3]"
    by (simp add: run_server_def demo_starts demo_accepts cl c2 l)
  have "fresh_opens (calls sv) {}" by (simp add: c demo_connected_def demo_server_def)
  from server_leaves_nothing [OF r this] r show ?thesis by (auto simp: c demo_connected_def)
qed

end
