(* ===== verification/Server_Defined.thy ===== *)
theory Server_Defined
  imports Server_Safety
begin

text \<open>
  How a run of the server can fail. With a kernel that respects the buffers it is given and descriptors that
  fit an \<^verbatim>\<open>fd_set\<close>, no run reaches undefined behaviour, and the places where the program can abort are
  those where it calls \<^verbatim>\<open>std::abort\<close> because the kernel or the peer failed it; of the assertions of the
  library only the one on the count that \<^verbatim>\<open>send\<close> returned can be reached.
\<close>

section \<open>Tolerable outcomes\<close>

definition server_aborts :: "string list" where
  "server_aborts = [''accept_and_register'', ''receive_nonblocking'', ''oversized frame'', ''try_flush_writes'',
     ''consume_write'', ''wait'']"

fun tolerable :: "('a \<Rightarrow> bool) \<Rightarrow> 'a outcome \<Rightarrow> bool" where
  "tolerable P (Done x) = P x"
| "tolerable P (Abort m) = (m \<in> set server_aborts)"
| "tolerable P (Undefined m) = False"

lemma tolerable_bind:
  "tolerable P out \<Longrightarrow> (\<And>x. P x \<Longrightarrow> tolerable Q (f x)) \<Longrightarrow> tolerable Q (bind_outcome out f)"
  by (cases out) simp_all

lemma tolerable_mono: "tolerable P out \<Longrightarrow> (\<And>x. P x \<Longrightarrow> Q x) \<Longrightarrow> tolerable Q out"
  by (cases out) simp_all

definition in_fd_set :: "posix \<Rightarrow> NativeSocket \<Rightarrow> bool" where
  "in_fd_set px s \<longleftrightarrow> 0 \<le> s \<and> s < fd_setsize px"

definition watched_ok :: "posix \<Rightarrow> SelectPoller \<Rightarrow> bool" where
  "watched_ok px p \<longleftrightarrow> (\<forall>s\<in>dom (interests p). in_fd_set px s)"

lemma watched_ok_upsert: "watched_ok px p \<Longrightarrow> in_fd_set px s \<Longrightarrow> watched_ok px (snd (sp_upsert s m p))"
  by (auto simp: watched_ok_def sp_upsert_def)

lemma watched_ok_erase: "watched_ok px p \<Longrightarrow> watched_ok px (snd (sp_erase s p))"
  by (auto simp: watched_ok_def sp_erase_def)

lemma wait_tolerable: "watched_ok px p \<Longrightarrow> \<exists>res. sp_wait px sel cap t order p = Done res"
proof -
  assume w: "watched_ok px p"
  have range: "0 \<le> s \<and> s < fd_setsize px" if "(s, m) \<in> set (entries order p)" for s m
  proof -
    from that have "interests p s = Some m" by (auto simp: entries_def split: option.splits)
    with w show ?thesis by (auto simp: watched_ok_def in_fd_set_def)
  qed
  have "list_all (selectable px) (entries order p)"
    using range by (fastforce simp: list_all_iff selectable_def)
  moreover have "fold (\<lambda>e a. max a (fst e)) (entries order p) 0 < 2147483647"
    using range fd_setsize_bound [of px] by (intro fold_max_less) fastforce+
  ultimately obtain c where c: "select_args px t order p = Done c"
    by (simp add: select_args_def fill_sets_Done Let_def)
  have "list_all (\<lambda>(s, m). 0 \<le> s \<and> s < fd_setsize px) (entries order p)"
    using range by (fastforce simp: list_all_iff)
  then obtain evs where "collect_events px (sel c) cap (entries order p) [] = Done evs"
    using collect_events_in_range by blast
  with c show ?thesis by (simp add: sp_wait_def Let_def)
qed

section \<open>One connection\<close>

definition serving_ok :: "posix \<Rightarrow> serving \<Rightarrow> bool" where
  "serving_ok px st \<longleftrightarrow> in_fd_set px (Connection_native_handle (conn_of st)) \<and> watched_ok px (srv_poller st)"

lemma flush_loop_tolerable:
  "flush_loop tgt px c script = Some (out, rest) \<Longrightarrow> tolerable (\<lambda>_. True) out"
proof (induction tgt px c script arbitrary: out rest rule: flush_loop.induct)
  case (1 tgt px c script)
  from "1.prems" obtain out0 rest0 where fl: "flush_write_nonblocking tgt px c script = Some (out0, rest0)"
    by (subst (asm) flush_loop.simps) (auto split: option.splits)
  then have t: "tolerable (\<lambda>_. True) out0"
    by (auto simp: flush_write_nonblocking_def consume_write_def assert_that_def server_aborts_def
        split: if_splits option.splits send_ret.splits)
  show ?case
  proof (cases "\<exists>n c'. out0 = Done (Inr n, c') \<and> n \<noteq> 0")
    case True
    then obtain n c' where out0: "out0 = Done (Inr n, c')" "n \<noteq> 0" by blast
    with fl "1.prems" obtain out1 rest1 where rec: "flush_loop tgt px c' rest0 = Some (out1, rest1)"
      "out = bind_outcome out1 (\<lambda>(e, c'', bytes). Done (e, c'', take n (write_buf c) @ bytes))"
      by (subst (asm) flush_loop.simps) (auto split: option.splits)
    from "1.IH" [OF fl [unfolded out0(1)] refl refl refl refl out0(2) rec(1)] show ?thesis
      unfolding rec(2) by (rule tolerable_bind) (simp split: prod.split)
  next
    case False
    with fl t "1.prems" show ?thesis
      by (subst (asm) flush_loop.simps) (auto split: outcome.splits sum.splits)
  qed
qed

lemma try_flush_tolerable:
  assumes "try_flush_writes tgt px st script = Some (out, rest)" "serving_ok px st"
  shows "tolerable (serving_ok px) out"
proof (cases out)
  case (Done st')
  with try_flush_keeps [OF assms(1) [unfolded Done]] assms(2) show ?thesis
    by (simp add: serving_ok_def Connection_native_handle_def watched_ok_upsert)
qed (use assms(1) in \<open>auto simp: try_flush_writes_def Let_def server_aborts_def dest!: flush_loop_tolerable
  elim!: bind_outcome.elims split: option.splits if_splits\<close>)

text \<open>A complete frame is always answered: dispatching, encoding and consuming it cannot fail.\<close>

lemma serve_one_complete:
  assumes "try_decode_frame tgt (read_buf (conn_of st)) k_max_payload = Done dec" "fdr_status dec = Complete"
  obtains st3 where "conn_socket (conn_of st3) = conn_socket (conn_of st)"
    "srv_poller st3 = snd (sp_upsert (Connection_native_handle (conn_of st)) EM_Read_Write (srv_poller st))"
    "serve_one tgt px st script = (case try_flush_writes tgt px st3 script of
       None \<Rightarrow> None | Some (res, rest) \<Rightarrow> Some (bind_outcome res (\<lambda>st4. Done (True, st4)), rest))"
proof -
  let ?p = "fdr_payload dec"
  from assms have got: "frame_dec tgt k_max_payload (read_buf (conn_of st)) = Got ?p (consumed_bytes dec)"
    by (simp add: frame_dec_def decode_view_def)
  note sound = codec.dec_soundD [OF got]
  from sound(1) have app: "append_encoded_frame tgt (write_buf (conn_of st)) ?p k_max_payload =
      Done (Inr (), write_buf (conn_of st) @ frame ?p)"
    by (simp add: append_encoded_frame_eq)
  obtain c where con: "consume_read tgt (consumed_bytes dec) ((conn_of st)\<lparr>write_buf := write_buf (conn_of st) @ frame ?p\<rparr>) =
      Done c" "conn_socket c = conn_socket (conn_of st)"
    using sound(5)
    by (cases "consumed_bytes dec = length (read_buf (conn_of st))") (auto simp: consume_read_def)
  let ?st3 = "set_interest EM_Read_Write
    ((set_conn c st)\<lparr>slot := (slot (set_conn c st))\<lparr>awaiting_reply_flush := True\<rparr>\<rparr>)"
  show thesis
    by (rule that [of ?st3])
      (use assms app con in \<open>simp_all add: serve_one_def echo_dispatch_def Let_def set_interest_def set_conn_def
        Connection_native_handle_def\<close>)
qed

lemma serve_one_tolerable:
  assumes "serve_one tgt px st script = Some (out, rest)" "serving_ok px st"
  shows "tolerable (\<lambda>(again, st'). serving_ok px st') out"
proof -
  obtain dec where dec: "try_decode_frame tgt (read_buf (conn_of st)) k_max_payload = Done dec"
    by (simp add: try_decode_frame_eq)
  show ?thesis
  proof (cases "fdr_status dec")
    case Complete
    obtain st3 where st3: "conn_socket (conn_of st3) = conn_socket (conn_of st)"
      "srv_poller st3 = snd (sp_upsert (Connection_native_handle (conn_of st)) EM_Read_Write (srv_poller st))"
      "serve_one tgt px st script = (case try_flush_writes tgt px st3 script of
         None \<Rightarrow> None | Some (res, rest) \<Rightarrow> Some (bind_outcome res (\<lambda>st4. Done (True, st4)), rest))"
      by (rule serve_one_complete [OF dec Complete])
    with assms(1) obtain res where fl: "try_flush_writes tgt px st3 script = Some (res, rest)"
      and out: "out = bind_outcome res (\<lambda>st4. Done (True, st4))" by (auto split: option.splits)
    have "serving_ok px st3"
      using assms(2) st3(1,2) by (simp add: serving_ok_def Connection_native_handle_def watched_ok_upsert)
    from try_flush_tolerable [OF fl this] show ?thesis unfolding out by (rule tolerable_bind) simp
  qed (use assms dec in \<open>auto simp: serve_one_def server_aborts_def\<close>)
qed

lemma serve_frames_tolerable:
  "serve_frames tgt px st script = Some (out, rest) \<Longrightarrow> serving_ok px st \<Longrightarrow> tolerable (serving_ok px) out"
proof (induction tgt px st script arbitrary: out rest rule: serve_frames.induct)
  case (1 tgt px st script)
  from "1.prems"(1) obtain out0 rest0 where one: "serve_one tgt px st script = Some (out0, rest0)"
    by (subst (asm) serve_frames.simps) (auto split: option.splits)
  note t = serve_one_tolerable [OF one "1.prems"(2)]
  show ?case
  proof (cases "\<exists>st1. out0 = Done (True, st1)")
    case True
    then obtain st1 where out0: "out0 = Done (True, st1)" by blast
    with one "1.prems"(1) have "serve_frames tgt px st1 rest0 = Some (out, rest)"
      by (subst (asm) serve_frames.simps) simp
    with "1.IH" [OF one [unfolded out0] refl refl refl _ this] t out0 show ?thesis by simp
  next
    case False
    with one t "1.prems"(1) show ?thesis
      by (subst (asm) serve_frames.simps) (cases out0; auto)
  qed
qed

lemma receive_tolerable:
  assumes "receive_nonblocking px c scratch_buffer script = Some (out, rest)" "list_all (recv_fits 16384) script"
  shows "\<exists>res c'. out = Done (res, c') \<and> conn_socket c' = conn_socket c" and "list_all (recv_fits 16384) rest"
proof -
  have b: "scratch_buffer \<noteq> []" "length scratch_buffer = 16384" by (simp_all add: scratch_buffer_def)
  have "(\<exists>res c'. out = Done (res, c') \<and> conn_socket c' = conn_socket c) \<and> list_all (recv_fits 16384) rest"
  proof (cases "Socket_valid (conn_socket c)")
    case True
    from assms(1) b(1) True show ?thesis
      by (cases rule: receive_cases) (use assms(2) b in \<open>auto simp: append_read_def\<close>)
  qed (use assms b in \<open>auto simp: receive_nonblocking_def\<close>)
  then show "\<exists>res c'. out = Done (res, c') \<and> conn_socket c' = conn_socket c" "list_all (recv_fits 16384) rest"
    by simp_all
qed

lemma read_loop_tolerable:
  "read_loop tgt px st rscript sscript = Some (out, rs, ss) \<Longrightarrow> serving_ok px st \<Longrightarrow>
     list_all (recv_fits 16384) rscript \<Longrightarrow>
     tolerable (\<lambda>(res, st'). serving_ok px st') out \<and> list_all (recv_fits 16384) rs"
proof (induction tgt px st rscript sscript arbitrary: out rs ss rule: read_loop.induct)
  case (1 tgt px st rscript sscript)
  from "1.prems"(1) obtain out0 rs0 where rec0:
    "receive_nonblocking px (conn_of st) scratch_buffer rscript = Some (out0, rs0)"
    by (subst (asm) read_loop.simps) (auto split: option.splits)
  from receive_tolerable [OF this "1.prems"(3)] obtain r c where out0: "out0 = Done (r, c)"
    and c: "conn_socket c = conn_socket (conn_of st)" and rs0: "list_all (recv_fits 16384) rs0" by blast
  note rec = rec0 [unfolded out0]
  have ok: "serving_ok px (set_conn c st)"
    using "1.prems"(2) c by (simp add: serving_ok_def set_conn_def Connection_native_handle_def)
  show ?case
  proof (cases r)
    case (Inl e)
    with "1.prems"(1,2) rec rs0 ok show ?thesis
      by (subst (asm) read_loop.simps)
        (auto simp: server_aborts_def serving_ok_def set_conn_def clear_write_def Connection_native_handle_def
          split: RecvErrorCode.splits)
  next
    case (Inr n)
    note rec = rec [unfolded Inr]
    from "1.prems"(1) rec obtain out1 ss1 where srv: "serve_frames tgt px (set_conn c st) sscript = Some (out1, ss1)"
      by (subst (asm) read_loop.simps) (auto split: option.splits)
    note t = serve_frames_tolerable [OF srv ok]
    show ?thesis
    proof (cases out1)
      case (Done st1)
      with "1.prems"(1) rec srv have "read_loop tgt px st1 rs0 ss1 = Some (out, rs, ss)"
        by (subst (asm) read_loop.simps) simp
      from "1.IH" [OF rec refl refl refl refl srv [unfolded Done] refl refl this] t rs0 Done show ?thesis by simp
    next
      case (Abort m)
      with "1.prems"(1) rec srv have "out = Abort m" "rs = rs0" by (subst (asm) read_loop.simps, simp)+
      with Abort t rs0 show ?thesis by simp
    next
      case (Undefined m)
      with t show ?thesis by simp
    qed
  qed
qed

section \<open>The server\<close>

definition server_ok :: "posix \<Rightarrow> server \<Rightarrow> bool" where
  "server_ok px sv \<longleftrightarrow> watched_ok px (poller_of sv) \<and> (\<forall>sl\<in>set (slots sv). in_fd_set px (slot_handle sl))"

text \<open>What the kernel answers while the events of one \<^verbatim>\<open>wait\<close> are handled: deliveries fit the buffer of the
  server, accepted descriptors fit an \<^verbatim>\<open>fd_set\<close>.\<close>

definition script_ok :: "posix \<Rightarrow> scripts \<Rightarrow> bool" where
  "script_ok px scr \<longleftrightarrow> list_all (recv_fits 16384) (recvs scr) \<and>
     list_all (\<lambda>env. rc (env_accept env) < fd_setsize px) (accepts scr)"

lemma server_ok_traffic [simp]:
  "server_ok px (note_traffic h d w sv) = server_ok px sv" "server_ok px (forget_traffic h sv) = server_ok px sv"
  by (simp_all add: server_ok_def)

lemma remove_slot_ok:
  assumes "server_ok px sv" "i < length (slots sv)"
  shows "server_ok px (remove_slot i sv)"
proof -
  have "set (slots (remove_slot i sv)) \<subseteq> set (slots sv)"
    using assms(2)
    by (auto simp: remove_slot_def Let_def intro!: last_in_set
      dest!: in_set_butlastD set_update_subset_insert [THEN subsetD])
  moreover have "poller_of (remove_slot i sv) = snd (sp_erase (slot_handle (slots sv ! i)) (poller_of sv))"
    by (simp add: remove_slot_def Let_def)
  ultimately show ?thesis using assms(1) by (auto simp: server_ok_def watched_ok_erase)
qed

lemma slot_serving_ok:
  "server_ok px sv \<Longrightarrow> i < length (slots sv) \<Longrightarrow>
     serving_ok px \<lparr>slot = slots sv ! i, srv_poller = poller_of sv, completions = n, wire = []\<rparr>"
  by (simp add: server_ok_def serving_ok_def)

lemma served_ok:
  assumes "server_ok px sv" "serving_ok px st"
  shows "server_ok px (sv\<lparr>slots := (slots sv)[i := slot st], poller_of := srv_poller st, completed := completions st\<rparr>)"
  using assms by (auto simp: server_ok_def serving_ok_def dest!: set_update_subset_insert [THEN subsetD])

lemma process_read_tolerable:
  assumes "process_connection_read tgt px i sv rscript sscript = Some (out, rs, ss)"
    and "server_ok px sv" "i < length (slots sv)" "list_all (recv_fits 16384) rscript"
  shows "tolerable (\<lambda>(res, sv'). server_ok px sv') out \<and> list_all (recv_fits 16384) rs"
proof -
  from assms(1) obtain out0 where rl: "read_loop tgt px
      \<lparr>slot = slots sv ! i, srv_poller = poller_of sv, completions = completed sv, wire = []\<rparr> rscript sscript =
      Some (out0, rs, ss)"
    and out: "out = bind_outcome out0 (\<lambda>(res, st).
            let sv1 = sv\<lparr>slots := (slots sv)[i := slot st], poller_of := srv_poller st, completed := completions st\<rparr>;
                note = note_traffic (slot_handle (slots sv ! i))
                         (received_bytes (take (length rscript - length rs) rscript)) (wire st)
            in case res of
                 ReadOk \<Rightarrow> Done (ReadOk, note sv1)
               | PeerClosed \<Rightarrow> Done (PeerClosed, note (remove_slot i sv1)))"
    by (auto simp: process_connection_read_def split: option.splits)
  from read_loop_tolerable [OF rl slot_serving_ok [OF assms(2,3)] assms(4)]
  have t: "tolerable (\<lambda>(res, st'). serving_ok px st') out0" and rs: "list_all (recv_fits 16384) rs" by simp_all
  have "tolerable (\<lambda>(res, sv'). server_ok px sv') out"
    unfolding out
    by (rule tolerable_bind [OF t])
      (use assms(2,3) in \<open>auto simp: Let_def served_ok remove_slot_ok split: ReadOutcome.split\<close>)
  with rs show ?thesis by simp
qed

lemma accept_loop_tolerable:
  "accept_loop px a sv envs = Some (out, rest) \<Longrightarrow> server_ok px sv \<Longrightarrow>
     list_all (\<lambda>env. rc (env_accept env) < fd_setsize px) envs \<Longrightarrow>
     tolerable (server_ok px) out \<and> list_all (\<lambda>env. rc (env_accept env) < fd_setsize px) rest"
proof (induction px a sv envs arbitrary: out rest rule: accept_loop.induct)
  case (2 px a sv env envs)
  obtain res p cs where acc: "accept_and_register px sp_upsert env a (poller_of sv) = (res, p, cs)"
    by (rule prod_cases3)
  show ?case
  proof (cases res)
    case (Inl e)
    from acc Inl have "p = poller_of sv" by (auto simp: select.accept_and_register_eq Let_def split: if_splits)
    with acc Inl "2.prems" show ?thesis by (auto simp: server_ok_def server_aborts_def split: if_splits)
  next
    case (Inr conn)
    have fd: "0 \<le> rc (env_accept env)" "conn_socket conn = \<lparr>native_handle = rc (env_accept env)\<rparr>"
      "p = snd (sp_upsert (rc (env_accept env)) EM_Read (poller_of sv))"
      using acc Inr by (auto simp: select.accept_and_register_eq Let_def split: if_splits)
    then have "in_fd_set px (rc (env_accept env))" using "2.prems"(3) by (simp add: in_fd_set_def)
    with fd "2.prems"(2) have "server_ok px (forget_traffic (Connection_native_handle conn) (sv\<lparr>slots := slots sv @
        [\<lparr>sl_conn = fst (Connection_move conn), awaiting_reply_flush = False\<rparr>], poller_of := p, calls := calls sv @ cs\<rparr>))"
      by (auto simp: server_ok_def watched_ok_upsert Connection_move_def Socket_move_def Connection_native_handle_def)
    from "2.IH" [OF acc [symmetric, unfolded Inr] refl refl _ this] acc Inr "2.prems"(1,3) show ?thesis by simp
  qed
qed simp

lemma write_half_tolerable:
  assumes "write_half tgt px ev sv scr = Some (out, scr')" "server_ok px sv" "script_ok px scr"
  shows "tolerable (server_ok px) out \<and> script_ok px scr'"
proof (cases "mask_and (ev_mask ev) EM_Write = EM_None \<or> find_slot_index (slots sv) (ev_socket ev) = None")
  case True
  with assms show ?thesis by (auto simp: write_half_def split: option.splits if_splits)
next
  case False
  then obtain i where i: "find_slot_index (slots sv) (ev_socket ev) = Some i" by blast
  with False assms(1) obtain out0 ss where fl: "try_flush_writes tgt px
      \<lparr>slot = slots sv ! i, srv_poller = poller_of sv, completions = completed sv, wire = []\<rparr> (sends scr) = Some (out0, ss)"
    and out: "out = bind_outcome out0 (\<lambda>st. Done (note_traffic (slot_handle (slots sv ! i)) [] (wire st)
            (sv\<lparr>slots := (slots sv)[i := slot st], poller_of := srv_poller st, completed := completions st\<rparr>)))" "scr' = scr\<lparr>sends := ss\<rparr>"
    by (auto simp: write_half_def flush_slot_def split: option.splits)
  from find_slot_index_Some [OF i] have "i < length (slots sv)" by simp
  from try_flush_tolerable [OF fl slot_serving_ok [OF assms(2) this]] assms(2,3) show ?thesis
    unfolding out by (auto simp: script_ok_def intro!: tolerable_bind [where P = "serving_ok px"] served_ok)
qed

lemma handle_event_tolerable:
  assumes "handle_event tgt px a ev sv scr = Some (out, scr')" "server_ok px sv" "script_ok px scr"
  shows "tolerable (server_ok px) out \<and> script_ok px scr'"
proof (cases "ev_socket ev = listener_handle a")
  case True
  with assms show ?thesis
    by (auto simp: handle_event_def script_ok_def split: if_splits option.splits dest!: accept_loop_tolerable)
next
  case other: False
  show ?thesis
  proof (cases "find_slot_index (slots sv) (ev_socket ev)")
    case None
    with assms other show ?thesis by (auto simp: handle_event_def)
  next
    case (Some i)
    show ?thesis
    proof (cases "mask_and (ev_mask ev) EM_Read = EM_None")
      case True
      with assms(1) other Some have "write_half tgt px ev sv scr = Some (out, scr')" by (simp add: handle_event_def)
      then show ?thesis by (rule write_half_tolerable [OF _ assms(2,3)])
    next
      case False
      with assms(1) other Some obtain out0 rs ss where
        rd: "process_connection_read tgt px i sv (recvs scr) (sends scr) = Some (out0, rs, ss)"
        by (auto simp: handle_event_def split: option.splits)
      from process_read_tolerable [OF rd assms(2)] find_slot_index_Some [OF Some] assms(3)
      have t: "tolerable (\<lambda>(res, sv'). server_ok px sv') out0" "script_ok px (scr\<lparr>recvs := rs, sends := ss\<rparr>)"
        by (simp_all add: script_ok_def)
      show ?thesis
      proof (cases "\<exists>sv1. out0 = Done (ReadOk, sv1) \<and> find_slot_index (slots sv1) (ev_socket ev) \<noteq> None")
        case True
        then obtain sv1 where sv1: "out0 = Done (ReadOk, sv1)" "find_slot_index (slots sv1) (ev_socket ev) \<noteq> None"
          by blast
        with assms(1) other Some False rd
        have "write_half tgt px ev sv1 (scr\<lparr>recvs := rs, sends := ss\<rparr>) = Some (out, scr')"
          by (auto simp: handle_event_def Let_def)
        from write_half_tolerable [OF this] t sv1 show ?thesis by simp
      next
        case stop: False
        with assms(1) other Some False rd t show ?thesis
          by (cases out0) (auto simp: handle_event_def Let_def split: ReadOutcome.splits option.splits)
      qed
    qed
  qed
qed

lemma handle_events_tolerable:
  "handle_events tgt px a evs sv scr = Some (out, scr') \<Longrightarrow> server_ok px sv \<Longrightarrow> script_ok px scr \<Longrightarrow>
     tolerable (server_ok px) out"
proof (induction tgt px a evs sv scr rule: handle_events.induct)
  case (2 tgt px a ev evs sv scr)
  from "2.prems"(1) obtain out1 scr1 where one: "handle_event tgt px a ev sv scr = Some (out1, scr1)"
    by (cases "handle_event tgt px a ev sv scr") auto
  from handle_event_tolerable [OF one "2.prems"(2,3)] have t: "tolerable (server_ok px) out1" "script_ok px scr1"
    by simp_all
  show ?case
  proof (cases out1)
    case (Done sv1)
    from "2.IH" [OF one [unfolded Done] refl refl] "2.prems"(1) one t Done show ?thesis by simp
  qed (use "2.prems"(1) one t in auto)
qed auto

lemma serve_ticks_tolerable:
  "serve_ticks tgt px a tks sv = Some out \<Longrightarrow> server_ok px sv \<Longrightarrow> list_all (\<lambda>tk. script_ok px (answering tk)) tks \<Longrightarrow>
     tolerable (server_ok px) out"
proof (induction tks arbitrary: sv)
  case (Cons tk tks)
  show ?case
  proof (cases "\<not> before_deadline tk \<or> stop_requested tk \<and> slots sv = []")
    case True
    with Cons.prems show ?thesis by (auto split: if_splits)
  next
    case go: False
    obtain res where w: "sp_wait px (selecting tk) 64 50 (map_order tk) (poller_of sv) = Done res"
      using Cons.prems(2) wait_tolerable [of px "poller_of sv" "selecting tk" 64 50 "map_order tk"]
      by (auto simp: server_ok_def)
    show ?thesis
    proof (cases res)
      case (Inl e)
      with go w Cons.prems show ?thesis by (auto simp: server_aborts_def)
    next
      case (Inr evs)
      with go w Cons.prems(1) obtain out1 scr where
        hs: "handle_events tgt px a evs sv (answering tk) = Some (out1, scr)" by (auto split: option.splits)
      from handle_events_tolerable [OF hs Cons.prems(2)] Cons.prems(3) have t: "tolerable (server_ok px) out1" by simp
      show ?thesis
      proof (cases out1)
        case (Done sv1)
        with go w Inr hs Cons.prems(1) have "serve_ticks tgt px a tks sv1 = Some out" by auto
        from Cons.IH [OF this] t Done Cons.prems(3) show ?thesis by simp
      qed (use go w Inr hs Cons.prems(1) t in auto)
    qed
  qed
qed simp

lemma start_server_poller:
  assumes "start_server tgt px env = Done (port, a, sv)"
  shows "dom (interests (poller_of sv)) = {listener_handle a}" "slots sv = []"
  using start_server_inv(1,2) [OF assms] by (auto simp: server_inv_def table_ok_def)

lemma close_server_tolerable: "\<exists>sv'. close_server a sv = Done sv'"
  by (simp add: close_server_def unregister_listener_def sp_erase_def Let_def)

section \<open>Property\<close>

text \<open>C9: The server is never driven into undefined behaviour, and gives up only where it means to. When the
  listening socket and every accepted descriptor fit an \<^verbatim>\<open>fd_set\<close>, and no \<^verbatim>\<open>recv\<close> delivers more than the buffer
  it is given, then, whatever else the kernel and the peers do, a run that ends returns or aborts for one of the
  reasons listed: accepting, receiving, sending or waiting failed, a peer declared a frame above the limit, or
  (the assertion of \<^verbatim>\<open>consume_write\<close>) \<^verbatim>\<open>send\<close> claimed more than it was offered. In particular replies can always
  be dispatched and encoded, and no other assertion of the library fails.\<close>

theorem server_never_undefined:
  assumes "start_server tgt px env = Done (port, a, sv0)"
    and "0 \<le> listener_handle a" "listener_handle a < fd_setsize px"
    and "list_all (\<lambda>tk. script_ok px (answering tk)) tks"
    and "run_server tgt px env tks = Some out"
  shows "case out of Done r \<Rightarrow> fst r = port | Abort m \<Rightarrow> m \<in> set server_aborts | Undefined m \<Rightarrow> False"
proof -
  have ok: "server_ok px sv0"
    using start_server_poller [OF assms(1)] assms(2,3) by (simp add: server_ok_def watched_ok_def in_fd_set_def)
  from assms(1,5) obtain out1 where tk: "serve_ticks tgt px a tks sv0 = Some out1"
    by (auto simp: run_server_def split: option.splits)
  have t: "tolerable (server_ok px) out1" by (rule serve_ticks_tolerable [OF tk ok assms(4)])
  show ?thesis
  proof (cases out1)
    case (Done sv1)
    with assms(1,5) tk close_server_tolerable [of a sv1] show ?thesis by (auto simp: run_server_def)
  qed (use assms(1,5) tk t in \<open>auto simp: run_server_def\<close>)
qed

theorem server_never_undefined_witness:
  "\<exists>sv. run_server \<lparr>build_mode = Debug, native_endian = Little\<rparr> linux demo_start demo_ticks = Some (Done (8080, sv))"
proof -
  let ?tgt = "\<lparr>build_mode = Debug, native_endian = Little\<rparr>"
  obtain sv where r: "run_server ?tgt linux demo_start demo_ticks = Some (Done sv)"
    using close_server_tolerable [of demo_acceptor demo_connected] by (auto simp: run_server_def demo_starts demo_accepts)
  have "list_all (\<lambda>tk. script_ok linux (answering tk)) demo_ticks"
    by (simp add: demo_ticks_def script_ok_def linux_def Let_def)
  from server_never_undefined [OF demo_starts _ _ this r] have "fst sv = 8080"
    by (simp add: demo_acceptor_def listener_handle_def linux_def)
  with r show ?thesis by (cases sv) simp
qed

end
