(* ===== verification/Server_Echo.thy ===== *)
theory Server_Echo
  imports Server_Safety
begin

text \<open>
  The server as a set of independent echo connections: whatever turns the events take, what it has sent on a
  descriptor depends only on what it received there. The abstract connection is a pair of byte streams, input
  and output; \<open>echoes\<close> relates them, and every operation of the server keeps the relation.
\<close>

section \<open>Echoed streams\<close>

text \<open>The bytes received are some frames and an unfinished rest, the bytes sent are a beginning of those frames.\<close>

definition echoes :: "target \<Rightarrow> byte list \<Rightarrow> byte list list \<Rightarrow> byte list \<Rightarrow> byte list \<Rightarrow> byte list \<Rightarrow> bool" where
  "echoes tgt inp ps rest out unsent \<longleftrightarrow>
     drain (frame_dec tgt k_max_payload) inp = (ps, rest, False) \<and> out @ unsent = concat (map frame ps)"

lemma echoes_start: "echoes tgt [] [] [] [] []"
  by (simp add: echoes_def frame_dec_eq)

lemma echoes_input: "echoes tgt inp ps rest out unsent \<Longrightarrow> inp = concat (map frame ps) @ rest \<and> list_all (fits k_max_payload) ps"
  using codec.drain_sound [of tgt k_max_payload inp ps rest False] by (simp add: echoes_def list_all_iff)

lemma echoes_more:
  assumes "echoes tgt inp ps rest out unsent"
    and "drain (frame_dec tgt k_max_payload) (rest @ d) = (qs, rest', False)"
    and "w @ unsent' = unsent @ concat (map frame qs)"
  shows "echoes tgt (inp @ d) (ps @ qs) rest' (out @ w) unsent'"
proof -
  from assms(1) have dr: "drain (frame_dec tgt k_max_payload) inp = (ps, rest, False)"
    and out: "out @ unsent = concat (map frame ps)" by (simp_all add: echoes_def)
  have "drain (frame_dec tgt k_max_payload) (inp @ d) = (ps @ qs, rest', False)"
    using codec.drain_append [OF dr, of d] assms(2) by simp
  moreover have "(out @ w) @ unsent' = concat (map frame (ps @ qs))" using assms(3) out by (metis append_assoc concat_append map_append)
  ultimately show ?thesis by (simp add: echoes_def)
qed

section \<open>The invariant\<close>

definition slot_echoes :: "target \<Rightarrow> server \<Rightarrow> ConnSlot \<Rightarrow> bool" where
  "slot_echoes tgt sv sl \<longleftrightarrow> (\<exists>ps. echoes tgt (received_from sv (slot_handle sl)) ps (read_buf (sl_conn sl))
     (sent_to sv (slot_handle sl)) (write_buf (sl_conn sl)))"

definition descriptor_echoes :: "target \<Rightarrow> server \<Rightarrow> NativeSocket \<Rightarrow> bool" where
  "descriptor_echoes tgt sv h \<longleftrightarrow> (\<exists>ps rest unsent. echoes tgt (received_from sv h) ps rest (sent_to sv h) unsent)"

definition traffic_inv :: "target \<Rightarrow> server \<Rightarrow> bool" where
  "traffic_inv tgt sv \<longleftrightarrow> (\<forall>sl\<in>set (slots sv). slot_echoes tgt sv sl) \<and> (\<forall>h. descriptor_echoes tgt sv h)"

text \<open>A change of the traffic of one descriptor.\<close>

lemma traffic_inv_change:
  assumes "traffic_inv tgt sv" "\<forall>h. h \<noteq> k \<longrightarrow> received_from sv' h = received_from sv h \<and> sent_to sv' h = sent_to sv h"
    and "descriptor_echoes tgt sv' k"
    and "\<forall>sl\<in>set (slots sv'). slot_handle sl = k \<and> slot_echoes tgt sv' sl \<or> slot_handle sl \<noteq> k \<and> sl \<in> set (slots sv)"
  shows "traffic_inv tgt sv'"
proof -
  have "descriptor_echoes tgt sv' h" for h
    using assms(1-3) by (cases "h = k") (auto simp: traffic_inv_def descriptor_echoes_def)
  moreover have "slot_echoes tgt sv' sl" if "sl \<in> set (slots sv')" for sl
    using assms(1,2,4) that by (fastforce simp: traffic_inv_def slot_echoes_def)
  ultimately show ?thesis by (simp add: traffic_inv_def)
qed

lemma descriptor_of_slot: "slot_echoes tgt sv sl \<Longrightarrow> descriptor_echoes tgt sv (slot_handle sl)"
  by (auto simp: slot_echoes_def descriptor_echoes_def)

text \<open>In a table of distinct handles, the other slots keep their distance from the one that changes.\<close>

lemma inv_distinct: "server_inv tgt a sv \<Longrightarrow> distinct (map slot_handle (slots sv))"
  by (auto simp: server_inv_def table_ok_def)

lemma slots_after_change:
  assumes "distinct (map slot_handle xs)" "i < length xs" "x \<in> set (xs[i := y])" "slot_handle y = slot_handle (xs ! i)"
  shows "x = y \<or> x \<in> set xs \<and> slot_handle x \<noteq> slot_handle (xs ! i)"
proof -
  from assms(3) obtain j where j: "j < length xs" "x = (xs[i := y]) ! j" by (metis in_set_conv_nth length_list_update)
  show ?thesis
  proof (cases "j = i")
    case False
    then have "x = xs ! j" using j by simp
    moreover have "slot_handle (xs ! j) \<noteq> slot_handle (xs ! i)"
      using assms(1,2) j(1) False by (simp add: distinct_conv_nth)
    ultimately show ?thesis using j(1) by auto
  qed (use j in simp)
qed

lemma slots_after_remove:
  assumes "distinct (map slot_handle (slots sv))" "i < length (slots sv)" "slot_handle sl = slot_handle (slots sv ! i)"
    and "x \<in> set (slots (remove_slot i (sv\<lparr>slots := (slots sv)[i := sl], poller_of := p, completed := n\<rparr>)))"
  shows "x \<in> set (slots sv) \<and> slot_handle x \<noteq> slot_handle (slots sv ! i)"
proof -
  let ?xs = "slots sv" let ?ys = "(slots sv)[i := sl]"
  have "mset (slots (remove_slot i (sv\<lparr>slots := ?ys, poller_of := p, completed := n\<rparr>))) = mset (take i ?ys @ drop (Suc i) ?ys)"
    using mset_swap_remove [of i ?ys] assms(2) by (simp add: remove_slot_def Let_def split: if_splits)
  also have "take i ?ys @ drop (Suc i) ?ys = take i ?xs @ drop (Suc i) ?xs" by simp
  finally have x: "x \<in> set (take i ?xs @ drop (Suc i) ?xs)" using assms(4) by (metis mset_eq_setD)
  have m: "mset (slots sv) = mset (slots sv ! i # take i ?xs @ drop (Suc i) ?xs)" using mset_pick_same [OF assms(2)] by simp
  then have "mset (map slot_handle ?xs) = mset (map slot_handle (?xs ! i # take i ?xs @ drop (Suc i) ?xs))"
    by (metis mset_map)
  then have "distinct (map slot_handle (?xs ! i # take i ?xs @ drop (Suc i) ?xs))"
    using assms(1) mset_eq_imp_distinct_iff by blast
  with x have "slot_handle x \<noteq> slot_handle (?xs ! i)" by (auto simp: image_iff)
  moreover have "x \<in> set ?xs" using x m by (metis list.set_intros(2) mset_eq_setD)
  ultimately show ?thesis by simp
qed

section \<open>Reading, flushing, accepting\<close>

lemma after_read_traffic:
  "received_from (after_read i res st inp sv) = (received_from sv)(slot_handle (slots sv ! i) :=
     received_from sv (slot_handle (slots sv ! i)) @ inp)"
  "sent_to (after_read i res st inp sv) = (sent_to sv)(slot_handle (slots sv ! i) :=
     sent_to sv (slot_handle (slots sv ! i)) @ wire st)"
  by (simp_all add: after_read_def note_traffic_def remove_slot_def Let_def split: ReadOutcome.split)

text \<open>A step that serves slot \<open>i\<close>: what it has done to the streams of its connection is all that has changed.\<close>

lemma serve_traffic:
  assumes "server_inv tgt a sv" "traffic_inv tgt sv" "i < length (slots sv)"
    and "slot_handle (slot st) = slot_handle (slots sv ! i)"
    and "drain (frame_dec tgt k_max_payload) (read_buf (sl_conn (slots sv ! i)) @ inp) = (qs, rest, False)"
    and "wire st @ unsent = write_buf (sl_conn (slots sv ! i)) @ concat (map frame qs)"
    and "res = ReadOk \<Longrightarrow> rest = read_buf (conn_of st) \<and> unsent = write_buf (conn_of st)"
  shows "traffic_inv tgt (after_read i res st inp sv)"
proof -
  let ?h = "slot_handle (slots sv ! i)" and ?sv' = "after_read i res st inp sv"
  have "slot_echoes tgt sv (slots sv ! i)" using assms(2,3) by (simp add: traffic_inv_def)
  then obtain ps where "echoes tgt (received_from sv ?h) ps (read_buf (sl_conn (slots sv ! i))) (sent_to sv ?h)
      (write_buf (sl_conn (slots sv ! i)))" by (auto simp: slot_echoes_def)
  from echoes_more [OF this assms(5,6)]
  have e: "echoes tgt (received_from ?sv' ?h) (ps @ qs) rest (sent_to ?sv' ?h) unsent"
    by (simp add: after_read_traffic)
  note d = inv_distinct [OF assms(1)]
  show ?thesis
  proof (rule traffic_inv_change [OF assms(2), of ?h])
    show "\<forall>h. h \<noteq> ?h \<longrightarrow> received_from ?sv' h = received_from sv h \<and> sent_to ?sv' h = sent_to sv h"
      by (simp add: after_read_traffic)
    show "descriptor_echoes tgt ?sv' ?h" using e by (auto simp: descriptor_echoes_def)
    show "\<forall>sl\<in>set (slots ?sv'). slot_handle sl = ?h \<and> slot_echoes tgt ?sv' sl \<or> slot_handle sl \<noteq> ?h \<and> sl \<in> set (slots sv)"
    proof (cases res)
      case ReadOk
      with assms(4,7) e have "slot_echoes tgt ?sv' (slot st)" by (auto simp: slot_echoes_def)
      moreover have "slots ?sv' = (slots sv)[i := slot st]" using ReadOk by (simp add: after_read_def Let_def)
      ultimately show ?thesis using slots_after_change [OF d assms(3) _ assms(4)] assms(4) by auto
    next
      case PeerClosed
      then have "slots ?sv' = slots (remove_slot i (sv\<lparr>slots := (slots sv)[i := slot st], poller_of := srv_poller st,
          completed := completions st\<rparr>))" by (simp add: after_read_def Let_def)
      then show ?thesis using slots_after_remove [OF d assms(3,4)] by auto
    qed
  qed
qed

lemma process_read_traffic:
  assumes "server_inv tgt a sv" "traffic_inv tgt sv" "i < length (slots sv)"
    and "process_connection_read tgt px i sv rscript sscript = Some (Done (res, sv'), rs, ss)"
  shows "traffic_inv tgt sv'"
proof -
  let ?sl = "slots sv ! i" let ?st = "\<lparr>slot = slots sv ! i, srv_poller = poller_of sv, completions = completed sv, wire = []\<rparr>"
  obtain st where rl: "read_loop tgt px ?st rscript sscript = Some (Done (res, st), rs, ss)"
    and sv': "sv' = after_read i res st (received_bytes (take (length rscript - length rs) rscript)) sv"
    by (rule process_read_result [OF assms(4)])
  from inv_slot [OF assms(1,3)] have ok: "Socket_valid (conn_socket (conn_of ?st))"
    "frame_dec tgt k_max_payload (read_buf (conn_of ?st)) = NeedMore" by (simp_all add: slot_ok_def)
  from read_loop_echoed [OF rl ok] obtain used where used: "rscript = used @ rs"
    "echoed tgt ?st (received_bytes used) res st" by blast
  then have inp: "take (length rscript - length rs) rscript = used" by simp
  from used(2) obtain qs left unsent where
    "drain (frame_dec tgt k_max_payload) (read_buf (sl_conn ?sl) @ received_bytes used) = (qs, left, False)"
    "wire st @ unsent = write_buf (sl_conn ?sl) @ concat (map frame qs)"
    "res = ReadOk \<longrightarrow> left = read_buf (conn_of st) \<and> unsent = write_buf (conn_of st)"
    "conn_socket (conn_of st) = conn_socket (sl_conn ?sl)"
    by (auto simp: echoed_def)
  then show ?thesis
    unfolding sv' inp by (intro serve_traffic [OF assms(1-3)]) (auto simp: Connection_native_handle_def)
qed

lemma flush_slot_traffic:
  assumes "server_inv tgt a sv" "traffic_inv tgt sv" "i < length (slots sv)"
    and "flush_slot tgt px i sv scr = Some (Done sv', scr')"
  shows "traffic_inv tgt sv'"
proof -
  obtain st ss where fl: "try_flush_writes tgt px
      \<lparr>slot = slots sv ! i, srv_poller = poller_of sv, completions = completed sv, wire = []\<rparr> (sends scr) =
      Some (Done st, ss)" and sv': "sv' = after_read i ReadOk st [] sv"
    by (rule flush_slot_result [OF assms(4)])
  note k = try_flush_keeps [OF fl] and ok = conjunct1 [OF inv_slot [OF assms(1,3)]]
  show ?thesis
    unfolding sv'
    by (rule serve_traffic [OF assms(1-3), where qs = "[]" and rest = "read_buf (conn_of st)" and unsent = "write_buf (conn_of st)"])
      (use k ok in \<open>simp_all add: slot_ok_def Connection_native_handle_def\<close>)
qed

lemma after_accept_traffic:
  assumes "traffic_inv tgt sv" "server_inv tgt a sv" "fresh_opens (calls sv @ cs) {}"
    and "accept_and_register px sp_upsert env a (poller_of sv) = (Inr conn, p, cs)"
  shows "traffic_inv tgt (after_accept conn p cs sv)"
proof -
  note new = after_accept_inv [OF assms(2,4,3)]
  let ?sl = "new_slot conn" and ?sv' = "after_accept conn p cs sv"
  have e: "slot_echoes tgt ?sv' ?sl"
    using echoes_start new(3-5) by (auto simp: slot_echoes_def after_accept_def forget_traffic_def intro: exI [of _ "[]"])
  show ?thesis
    by (rule traffic_inv_change [OF assms(1), of "slot_handle ?sl"])
      (use e descriptor_of_slot [OF e] new(2,3) in \<open>auto simp: after_accept_def forget_traffic_def image_iff\<close>)
qed

lemma traffic_inv_calls [simp]: "traffic_inv tgt (sv\<lparr>calls := cs\<rparr>) = traffic_inv tgt sv"
  by (simp add: traffic_inv_def slot_echoes_def descriptor_echoes_def)

lemma accept_loop_traffic:
  "accept_loop px a sv envs = Some (Done sv', rest) \<Longrightarrow> server_inv tgt a sv \<Longrightarrow> traffic_inv tgt sv \<Longrightarrow>
     fresh_opens (calls sv') {} \<Longrightarrow> traffic_inv tgt sv'"
  by (drule accept_loop_keeps [where P = "traffic_inv tgt"]) (auto intro: after_accept_traffic)

section \<open>Events and turns\<close>

lemma write_half_traffic:
  assumes "write_half tgt px ev sv scr = Some (Done sv', scr')" "server_inv tgt a sv" "traffic_inv tgt sv"
  shows "traffic_inv tgt sv'"
  using assms flush_slot_traffic [of tgt a sv] find_slot_index_Some [of "slots sv" "ev_socket ev"]
  by (auto simp: write_half_def split: if_splits option.splits)

lemma handle_event_traffic:
  assumes "handle_event tgt px a ev sv scr = Some (Done sv', scr')" "server_inv tgt a sv" "traffic_inv tgt sv"
    and "fresh_opens (calls sv') {}"
  shows "traffic_inv tgt sv'"
  using assms(1)
proof (cases rule: handle_event_cases)
  case (read idx res sv1 rs ss)
  with process_read_traffic [OF assms(2,3) read(1,2)] process_read_inv [OF assms(2) read(1,2)] write_half_traffic
  show ?thesis by blast
qed (use assms in \<open>auto dest: accept_loop_traffic write_half_traffic\<close>)

lemma handle_events_traffic:
  "handle_events tgt px a evs sv scr = Some (Done sv', scr') \<Longrightarrow> server_inv tgt a sv \<Longrightarrow> traffic_inv tgt sv \<Longrightarrow>
     fresh_opens (calls sv') {} \<Longrightarrow> traffic_inv tgt sv'"
proof (induction tgt px a evs sv scr rule: handle_events.induct)
  case (2 tgt px a ev evs sv scr)
  from "2.prems"(1) obtain sv1 scr1 where one: "handle_event tgt px a ev sv scr = Some (Done sv1, scr1)"
    and more: "handle_events tgt px a evs sv1 scr1 = Some (Done sv', scr')"
    by (auto split: option.splits outcome.splits prod.splits)
  from handle_events_calls [OF more] have fresh: "fresh_opens (calls sv1) {}"
    using "2.prems"(4) fresh_opens_prefix by metis
  show ?case
    by (rule "2.IH" [OF one refl refl more handle_event_inv [OF one "2.prems"(2) fresh]
          handle_event_traffic [OF one "2.prems"(2,3) fresh] "2.prems"(4)])
qed simp

lemma serve_ticks_traffic:
  "serve_ticks tgt px a tks sv = Some (Done sv') \<Longrightarrow> server_inv tgt a sv \<Longrightarrow> traffic_inv tgt sv \<Longrightarrow>
     fresh_opens (calls sv') {} \<Longrightarrow> traffic_inv tgt sv'"
proof (induction tks arbitrary: sv)
  case (Cons tk tks)
  from Cons.prems(1) show ?case
  proof (cases rule: serve_ticks_turn)
    case (turn evs sv1 scr)
    from serve_ticks_calls [OF turn(2)] have fresh: "fresh_opens (calls sv1) {}"
      using Cons.prems(4) fresh_opens_prefix by metis
    show ?thesis
      by (rule Cons.IH [OF turn(2) handle_events_inv [OF turn(1) Cons.prems(2) fresh]
            handle_events_traffic [OF turn(1) Cons.prems(2,3) fresh] Cons.prems(4)])
  qed (use Cons.prems in simp)
qed simp

lemma start_server_traffic:
  assumes "start_server tgt px env = Done (port, a, sv)"
  shows "traffic_inv tgt sv"
proof -
  have "slots sv = []" "received_from sv = (\<lambda>_. [])" "sent_to sv = (\<lambda>_. [])"
    using assms by (auto simp: start_server_def split: prod.splits sum.splits if_splits)
  with echoes_start show ?thesis by (auto simp: traffic_inv_def descriptor_echoes_def)
qed

lemma traffic_echoes:
  assumes "traffic_inv tgt sv"
  shows "\<exists>frames rest. list_all (fits k_max_payload) frames \<and>
    received_from sv h = concat (map frame frames) @ rest \<and> prefix (sent_to sv h) (concat (map frame frames))"
proof -
  obtain ps rest unsent where e: "echoes tgt (received_from sv h) ps rest (sent_to sv h) unsent"
    using assms unfolding traffic_inv_def descriptor_echoes_def by blast
  have "prefix (sent_to sv h) (concat (map frame ps))" using e by (metis echoes_def prefixI)
  with echoes_input [OF e] show ?thesis by blast
qed

section \<open>Property\<close>

text \<open>C4: The server echoes every connection, whatever the others do. Take any run of a started server, over any
  events in any order, any pieces the kernel delivers and takes, and any number of connections coming and going,
  with a kernel that opens only descriptors that are not open. Then at the head of every turn, for every descriptor,
  the bytes received on the connection that last held it are the encodings of some payloads within the limit and an
  unfinished rest (the payloads are those the decoder finds in that input alone), and the bytes sent on it are a
  beginning of those same encodings. While the connection is open, the rest is exactly its read buffer and what is
  missing from the output is exactly its write buffer, so nothing is lost, repeated or sent to another connection.\<close>

theorem server_echoes_connections:
  assumes "start_server tgt px env = Done (port, a, sv0)"
    and "serve_ticks tgt px a tks sv0 = Some (Done sv)" and "fresh_opens (calls sv) {}"
  shows "(\<forall>h. \<exists>frames rest. list_all (fits k_max_payload) frames \<and>
      received_from sv h = concat (map frame frames) @ rest \<and> prefix (sent_to sv h) (concat (map frame frames))) \<and>
    (\<forall>sl\<in>set (slots sv). \<exists>frames.
      drain (frame_dec tgt k_max_payload) (received_from sv (slot_handle sl)) = (frames, read_buf (sl_conn sl), False) \<and>
      received_from sv (slot_handle sl) = concat (map frame frames) @ read_buf (sl_conn sl) \<and>
      sent_to sv (slot_handle sl) @ write_buf (sl_conn sl) = concat (map frame frames))"
proof -
  have t: "traffic_inv tgt sv"
    by (rule serve_ticks_traffic [OF assms(2) start_server_inv(1) [OF assms(1)] start_server_traffic [OF assms(1)] assms(3)])
  note traffic_echoes [OF t]
  moreover have "\<exists>frames.
      drain (frame_dec tgt k_max_payload) (received_from sv (slot_handle sl)) = (frames, read_buf (sl_conn sl), False) \<and>
      received_from sv (slot_handle sl) = concat (map frame frames) @ read_buf (sl_conn sl) \<and>
      sent_to sv (slot_handle sl) @ write_buf (sl_conn sl) = concat (map frame frames)" if "sl \<in> set (slots sv)" for sl
  proof -
    obtain ps where e: "echoes tgt (received_from sv (slot_handle sl)) ps (read_buf (sl_conn sl))
        (sent_to sv (slot_handle sl)) (write_buf (sl_conn sl))"
      using t \<open>sl \<in> _\<close> by (auto simp: traffic_inv_def slot_echoes_def)
    with echoes_input [OF e] show ?thesis by (auto simp: echoes_def)
  qed
  ultimately show ?thesis by blast
qed

text \<open>A client that has connected as 5 sends a frame, and the server answers it.\<close>

definition demo_read_tick :: tick where
  "demo_read_tick =
     \<lparr>before_deadline = True, stop_requested = False, map_order = [3, 5],
      selecting = (\<lambda>c. \<lparr>sr_rc = 1, sr_err = 0, sr_read = {5}, sr_write = {}, sr_except = {}\<rparr>),
      answering = \<lparr>accepts = [], recvs = [Received [0, 0, 0, 1, 7], RecvFailed 11], sends = [Sent 2, Sent 3]\<rparr>\<rparr>"

lemma demo_read_turn:
  "\<exists>sv. serve_ticks \<lparr>build_mode = Debug, native_endian = Little\<rparr> linux demo_acceptor
      [hd demo_ticks, demo_read_tick, demo_read_tick\<lparr>before_deadline := False\<rparr>] demo_server = Some (Done sv) \<and>
    calls sv = calls demo_connected \<and> received_from sv 5 = [0, 0, 0, 1, 7] \<and> sent_to sv 5 = [0, 0, 0, 1, 7]"
proof -
  let ?tgt = "\<lparr>build_mode = Debug, native_endian = Little\<rparr>"
  have first: "serve_ticks ?tgt linux demo_acceptor (hd demo_ticks # tks) demo_server =
      serve_ticks ?tgt linux demo_acceptor tks demo_connected" for tks
    by (rule demo_accept_turn)
  from demo_read obtain st where rd: "read_loop ?tgt linux demo_serving [Received [0, 0, 0, 1, 7], RecvFailed 11]
      [Sent 2, Sent 3] = Some (Done (ReadOk, st), [], [])" "write_buf (conn_of st) = []" "wire st = [0, 0, 0, 1, 7]"
    by blast
  have serving: "\<lparr>slot = slots demo_connected ! 0, srv_poller = poller_of demo_connected,
      completions = completed demo_connected, wire = []\<rparr> = demo_serving"
    by (simp add: demo_connected_def demo_serving_def CS_Reading_def)
  have wait: "sp_wait linux (\<lambda>c. \<lparr>sr_rc = 1, sr_err = 0, sr_read = {5}, sr_write = {}, sr_except = {}\<rparr>) 64 50 [3, 5]
      (poller_of demo_connected) = Done (Inr [\<lparr>ev_socket = 5, ev_mask = EM_Read\<rparr>])"
    by (simp add: sp_wait_def select_args_def entries_def FD_SET_def linux_def fired_eq fired_mask_def mask_defs Let_def
        demo_connected_def)
  have read: "process_connection_read ?tgt linux 0 demo_connected [Received [0, 0, 0, 1, 7], RecvFailed 11] [Sent 2, Sent 3] =
      Some (Done (ReadOk, after_read 0 ReadOk st [0, 0, 0, 1, 7] demo_connected), [], [])"
    by (simp add: process_connection_read_def serving rd(1) after_read_def)
  let ?sv1 = "after_read 0 ReadOk st [0, 0, 0, 1, 7] demo_connected"
  have sv1: "calls ?sv1 = calls demo_connected" "received_from ?sv1 5 = [0, 0, 0, 1, 7]" "sent_to ?sv1 5 = [0, 0, 0, 1, 7]"
    by (simp_all add: after_read_def note_traffic_def demo_connected_def Connection_native_handle_def rd(3))
  have find: "find_slot_index (slots demo_connected) 5 = Some 0" "listener_handle demo_acceptor \<noteq> 5"
    by (simp_all add: demo_connected_def Connection_native_handle_def demo_acceptor_def listener_handle_def)
  have mask: "mask_and EM_Read EM_Read \<noteq> EM_None" "mask_and EM_Read EM_Write = EM_None" by (simp_all add: mask_defs)
  have "handle_event ?tgt linux demo_acceptor \<lparr>ev_socket = 5, ev_mask = EM_Read\<rparr> demo_connected (answering demo_read_tick) =
      Some (Done ?sv1, \<lparr>accepts = [], recvs = [], sends = []\<rparr>)"
    using find(2)
    by (cases "find_slot_index (slots ?sv1) 5") (simp_all add: handle_event_def find mask read demo_read_tick_def write_half_def)
  then have "serve_ticks ?tgt linux demo_acceptor [demo_read_tick, demo_read_tick\<lparr>before_deadline := False\<rparr>] demo_connected =
      Some (Done ?sv1)"
    using wait by (simp add: demo_read_tick_def)
  with sv1 show ?thesis unfolding first by blast
qed

theorem server_echoes_connections_witness:
  "\<exists>sv. serve_ticks \<lparr>build_mode = Debug, native_endian = Little\<rparr> linux demo_acceptor
      [hd demo_ticks, demo_read_tick, demo_read_tick\<lparr>before_deadline := False\<rparr>] demo_server = Some (Done sv) \<and>
    (\<exists>frames. received_from sv 5 = [0, 0, 0, 1, 7] \<and> sent_to sv 5 = [0, 0, 0, 1, 7] \<and>
       prefix (sent_to sv 5) (concat (map frame frames)))"
proof -
  obtain sv where sv: "serve_ticks \<lparr>build_mode = Debug, native_endian = Little\<rparr> linux demo_acceptor
      [hd demo_ticks, demo_read_tick, demo_read_tick\<lparr>before_deadline := False\<rparr>] demo_server = Some (Done sv)"
    "calls sv = calls demo_connected" "received_from sv 5 = [0, 0, 0, 1, 7]" "sent_to sv 5 = [0, 0, 0, 1, 7]"
    using demo_read_turn by blast
  have "fresh_opens (calls sv) {}" by (simp add: sv(2) demo_connected_def demo_server_def)
  from conjunct1 [OF server_echoes_connections [OF demo_starts sv(1) this]] sv show ?thesis by blast
qed

end
