(* ===== verification/Server_Returns.thy ===== *)
theory Server_Returns
  imports Server_Safety
begin

text \<open>
  The whole server returns. Each turn of its loop is given finitely many answers by the kernel; what the turn needs
  of them is bounded by \<open>pending_work\<close>, the work the connections have pending, of which each answer used does some.
  A run whose turns are all supplied, and whose deadline passes in one of them, has ended.
\<close>

section \<open>Work of the connections\<close>

definition pending_work :: "server \<Rightarrow> nat" where
  "pending_work sv = sum_list (map (workload \<circ> sl_conn) (slots sv))"

lemma pending_work_mset: "mset (slots sv) = mset xs \<Longrightarrow> pending_work sv = sum_list (map (workload \<circ> sl_conn) xs)"
  unfolding pending_work_def by (metis mset_map sum_mset_sum_list)

lemma pending_work_traffic [simp]:
  "pending_work (note_traffic h inp out sv) = pending_work sv" "pending_work (forget_traffic h sv) = pending_work sv"
  by (simp_all add: pending_work_def)

lemma workload_slot: "i < length (slots sv) \<Longrightarrow> workload (sl_conn (slots sv ! i)) \<le> pending_work sv"
  unfolding pending_work_def by (rule member_le_sum_list) simp_all

text \<open>A slot changes, or changes and is removed.\<close>

lemma pending_work_after_read:
  assumes "i < length (slots sv)"
  shows "pending_work (after_read i res st inp sv) + workload (sl_conn (slots sv ! i)) \<le>
    pending_work sv + workload (conn_of st)"
proof -
  let ?xs = "slots sv" and ?f = "workload \<circ> sl_conn"
  let ?sv1 = "sv\<lparr>slots := ?xs[i := slot st], poller_of := srv_poller st, completed := completions st\<rparr>"
  let ?rest = "take i ?xs @ drop (Suc i) ?xs"
  have old: "pending_work sv = ?f (?xs ! i) + sum_list (map ?f ?rest)"
    using mset_pick_same [OF assms] by (subst pending_work_mset [of sv "?xs ! i # ?rest"]) simp_all
  have new: "pending_work ?sv1 = ?f (slot st) + sum_list (map ?f ?rest)"
    using mset_pick [OF assms, of "slot st"] by (subst pending_work_mset [of ?sv1 "slot st # ?rest"]) simp_all
  have "mset (slots (remove_slot i ?sv1)) = mset ?rest"
    using mset_swap_remove [of i "?xs[i := slot st]"] assms by (simp add: remove_slot_def Let_def split: if_splits)
  then have "pending_work (remove_slot i ?sv1) = sum_list (map ?f ?rest)" by (rule pending_work_mset)
  with old new show ?thesis by (cases res) (simp_all add: after_read_def Let_def)
qed

lemma pending_work_accept: "pending_work (after_accept conn p cs sv) = pending_work sv + workload conn"
  by (simp add: after_accept_def pending_work_def new_slot_def Connection_move_def workload_def split: prod.split)

section \<open>What an event needs\<close>

text \<open>Answers to \<^verbatim>\<open>accept\<close> that are errors; each ends an accept loop.\<close>

definition refusals :: "accept_env list \<Rightarrow> nat" where
  "refusals envs = length (filter (\<lambda>env. rc (env_accept env) < 0) envs)"

lemma refusals_simps [simp]:
  "refusals [] = 0" "refusals (env # envs) = (if rc (env_accept env) < 0 then Suc (refusals envs) else refusals envs)"
  by (simp_all add: refusals_def)

lemma accept_loop_uses:
  "0 < refusals envs \<Longrightarrow>
     \<exists>out rest. accept_loop px a sv envs = Some (out, rest) \<and> refusals envs \<le> Suc (refusals rest) \<and>
       (\<forall>sv'. out = Done sv' \<longrightarrow> pending_work sv' = pending_work sv)"
proof (induction envs arbitrary: sv)
  case (Cons env envs)
  obtain res p cs where acc: "accept_and_register px sp_upsert env a (poller_of sv) = (res, p, cs)"
    by (rule prod_cases3)
  show ?case
  proof (cases res)
    case (Inl e)
    then show ?thesis using acc by (simp add: pending_work_def)
  next
    case (Inr conn)
    note acc' = acc [unfolded Inr]
    have "0 \<le> rc (env_accept env)" "workload conn = 0"
      using acc' by (auto simp: select.accept_and_register_eq Let_def Connection_new_def workload_def split: if_splits)
    with Cons.prems Cons.IH [of "after_accept conn p cs sv"] show ?thesis
      unfolding accept_loop_more [OF acc'] by (simp add: pending_work_accept)
  qed
qed simp

text \<open>Enough answers for \<open>n\<close> more events.\<close>

definition supplied :: "posix \<Rightarrow> nat \<Rightarrow> nat \<Rightarrow> scripts \<Rightarrow> bool" where
  "supplied px n work scr \<longleftrightarrow> n \<le> refusals (accepts scr) \<and> n \<le> endings px (recvs scr) \<and>
     work + 2 * length (received_bytes (recvs scr)) + n < answers px (sends scr)"

text \<open>What is left after a part of a turn: answers for \<open>n\<close> more events, and no more work than there was, counting
  what is still to be received.\<close>

definition leaves :: "posix \<Rightarrow> nat \<Rightarrow> server \<Rightarrow> scripts \<Rightarrow> (server outcome \<times> scripts) option \<Rightarrow> bool" where
  "leaves px n sv scr r \<longleftrightarrow> (\<exists>out scr'. r = Some (out, scr') \<and> (\<forall>sv'. out = Done sv' \<longrightarrow>
     supplied px n (pending_work sv') scr' \<and>
     pending_work sv' + 2 * length (received_bytes (recvs scr')) \<le> pending_work sv + 2 * length (received_bytes (recvs scr))))"

lemma leaves_same: "supplied px n (pending_work sv) scr \<Longrightarrow> leaves px n sv scr (Some (Done sv, scr))"
  by (simp add: leaves_def)

lemma leaves_trans:
  assumes "leaves px n sv' scr' r"
    and "pending_work sv' + 2 * length (received_bytes (recvs scr')) \<le> pending_work sv + 2 * length (received_bytes (recvs scr))"
  shows "leaves px n sv scr r"
  using assms by (fastforce simp: leaves_def)

lemma supplied_mono: "supplied px n work scr \<Longrightarrow> n' + work' \<le> n + work \<Longrightarrow> n' \<le> n \<Longrightarrow> supplied px n' work' scr"
  by (simp add: supplied_def)

lemma flush_slot_leaves:
  assumes "i < length (slots sv)" "supplied px n (Suc (pending_work sv)) scr"
  shows "leaves px n sv scr (flush_slot tgt px i sv scr)"
proof -
  let ?st = "\<lparr>slot = slots sv ! i, srv_poller = poller_of sv, completions = completed sv, wire = []\<rparr>"
  have "length (write_buf (conn_of ?st)) < answers px (sends scr)"
    using workload_slot [OF assms(1)] assms(2) by (simp add: supplied_def workload_def)
  from try_flush_returns [OF this, of tgt] obtain out ss where
    fl: "try_flush_writes tgt px ?st (sends scr) = Some (out, ss)" and l: "answers px ss \<le> answers px (sends scr)" and
    b: "\<forall>st'. out = Done st' \<longrightarrow> answers px (sends scr) + length (write_buf (conn_of st')) \<le>
      Suc (answers px ss + length (write_buf (conn_of ?st)))" by blast
  show ?thesis
  proof (cases out)
    case (Done st')
    have same: "flush_slot tgt px i sv scr = Some (Done (after_read i ReadOk st' [] sv), scr\<lparr>sends := ss\<rparr>)"
      using fl Done by (simp add: flush_slot_def after_read_def)
    note keeps = try_flush_keeps [OF fl [unfolded Done]]
    have "length (write_buf (conn_of st')) \<le> length (write_buf (sl_conn (slots sv ! i)))"
      using arg_cong [OF keeps(3), of length] by simp
    with b Done keeps(1) have "answers px (sends scr) + workload (conn_of st') \<le> Suc (answers px ss + workload (sl_conn (slots sv ! i)))"
      "workload (conn_of st') \<le> workload (sl_conn (slots sv ! i))" by (simp_all add: workload_def)
    with pending_work_after_read [OF assms(1), of ReadOk st' "[]"] assms(2) show ?thesis
      by (simp add: leaves_def same supplied_def)
  qed (use fl in \<open>simp_all add: leaves_def flush_slot_def\<close>)
qed

lemma write_half_leaves:
  assumes "supplied px n (Suc (pending_work sv)) scr"
  shows "leaves px n sv scr (write_half tgt px ev sv scr)"
proof -
  have "leaves px n sv scr (Some (Done sv, scr))" using assms by (simp add: leaves_same supplied_def)
  then show ?thesis using flush_slot_leaves [OF _ assms] find_slot_index_Some
    by (auto simp: write_half_def split: option.split)
qed

lemma process_read_uses:
  assumes "i < length (slots sv)" "supplied px (Suc n) (pending_work sv) scr"
  obtains out rs ss where "process_connection_read tgt px i sv (recvs scr) (sends scr) = Some (out, rs, ss)"
    "\<And>res sv'. out = Done (res, sv') \<Longrightarrow>
       n \<le> endings px rs \<and> pending_work sv' + 2 * length (received_bytes rs) + Suc n < answers px ss \<and>
       pending_work sv' + 2 * length (received_bytes rs) \<le> pending_work sv + 2 * length (received_bytes (recvs scr))"
proof -
  let ?st = "\<lparr>slot = slots sv ! i, srv_poller = poller_of sv, completions = completed sv, wire = []\<rparr>"
  have "workload (conn_of ?st) + 2 * length (received_bytes (recvs scr)) < answers px (sends scr)" "0 < endings px (recvs scr)"
    using workload_slot [OF assms(1)] assms(2) by (simp_all add: supplied_def)
  from read_loop_uses [OF this, of tgt] obtain out rs ss where
    rl: "read_loop tgt px ?st (recvs scr) (sends scr) = Some (out, rs, ss)" and
    e: "endings px (recvs scr) \<le> Suc (endings px rs)" "answers px ss \<le> answers px (sends scr)" and
    b: "\<forall>res st'. out = Done (res, st') \<longrightarrow>
      answers px (sends scr) + workload (conn_of st') + 2 * length (received_bytes rs) \<le>
        answers px ss + workload (conn_of ?st) + 2 * length (received_bytes (recvs scr))" by blast
  let ?r = "process_connection_read tgt px i sv (recvs scr) (sends scr)"
  obtain out' where r: "?r = Some (out', rs, ss)" using rl by (simp add: process_connection_read_def)
  show thesis
  proof (rule that [OF r])
    fix res sv' assume "out' = Done (res, sv')"
    from process_read_result [OF r [unfolded this]] obtain st inp where
      rl1: "read_loop tgt px ?st (recvs scr) (sends scr) = Some (Done (res, st), rs, ss)" and sv': "sv' = after_read i res st inp sv"
      by metis
    from rl rl1 have "out = Done (res, st)" by simp
    from b [rule_format, OF this] sv' have "answers px (sends scr) + workload (conn_of st) + 2 * length (received_bytes rs) \<le>
        answers px ss + workload (sl_conn (slots sv ! i)) + 2 * length (received_bytes (recvs scr))"
      "pending_work sv' + workload (sl_conn (slots sv ! i)) \<le> pending_work sv + workload (conn_of st)"
      using pending_work_after_read [OF assms(1), of res st inp] by simp_all
    with e assms(2) show "n \<le> endings px rs \<and> pending_work sv' + 2 * length (received_bytes rs) + Suc n < answers px ss \<and>
       pending_work sv' + 2 * length (received_bytes rs) \<le> pending_work sv + 2 * length (received_bytes (recvs scr))"
      by (simp add: supplied_def)
  qed
qed

lemma accept_leaves:
  assumes "supplied px (Suc n) (pending_work sv) scr"
  shows "leaves px n sv scr (case accept_loop px a sv (accepts scr) of
    None \<Rightarrow> None | Some (out, envs) \<Rightarrow> Some (out, scr\<lparr>accepts := envs\<rparr>))"
proof -
  have "0 < refusals (accepts scr)" using assms by (simp add: supplied_def)
  from accept_loop_uses [OF this, of px a sv] obtain out envs where "accept_loop px a sv (accepts scr) = Some (out, envs)"
    "refusals (accepts scr) \<le> Suc (refusals envs)" "\<forall>sv'. out = Done sv' \<longrightarrow> pending_work sv' = pending_work sv" by blast
  with assms show ?thesis by (simp add: leaves_def supplied_def)
qed

lemma handle_event_leaves:
  assumes "supplied px (Suc n) (pending_work sv) scr"
  shows "leaves px n sv scr (handle_event tgt px a ev sv scr)"
proof -
  have one: "supplied px n (Suc (pending_work sv)) scr" using assms by (rule supplied_mono) simp_all
  then have idle: "leaves px n sv scr (Some (Done sv, scr))" by (simp add: leaves_same supplied_def)
  show ?thesis
  proof (cases "ev_socket ev = listener_handle a")
    case True
    with idle accept_leaves [OF assms, of a] show ?thesis by (simp add: handle_event_def)
  next
    case other: False
    show ?thesis
    proof (cases "find_slot_index (slots sv) (ev_socket ev)")
      case None
      with other idle show ?thesis by (simp add: handle_event_def)
    next
      case (Some i)
      show ?thesis
      proof (cases "mask_and (ev_mask ev) EM_Read = EM_None")
        case True
        with other Some write_half_leaves [OF one] show ?thesis by (simp add: handle_event_def)
      next
        case read: False
        obtain out rs ss where rd: "process_connection_read tgt px i sv (recvs scr) (sends scr) = Some (out, rs, ss)"
          and left: "\<And>res sv'. out = Done (res, sv') \<Longrightarrow>
            n \<le> endings px rs \<and> pending_work sv' + 2 * length (received_bytes rs) + Suc n < answers px ss \<and>
            pending_work sv' + 2 * length (received_bytes rs) \<le> pending_work sv + 2 * length (received_bytes (recvs scr))"
          using process_read_uses [OF conjunct1 [OF find_slot_index_Some [OF Some]] assms] by metis
        let ?scr = "scr\<lparr>recvs := rs, sends := ss\<rparr>"
        show ?thesis
        proof (cases out)
          case (Done x)
          obtain res sv' where x: "x = (res, sv')" by (rule prod.exhaust)
          note left = left [OF Done [unfolded x]]
          have after: "leaves px n sv scr (Some (Done sv', ?scr))"
            using left assms by (simp add: leaves_def supplied_def)
          have "supplied px n (Suc (pending_work sv')) ?scr" using left assms by (simp add: supplied_def)
          from leaves_trans [OF write_half_leaves [OF this]] left
          have flushed: "leaves px n sv scr (write_half tgt px ev sv' ?scr)" by simp
          from after flushed rd Done x other Some read show ?thesis
            by (cases res; cases "find_slot_index (slots sv') (ev_socket ev)") (simp_all add: handle_event_def Let_def)
        qed (use rd other Some read in \<open>simp_all add: handle_event_def leaves_def Let_def\<close>)
      qed
    qed
  qed
qed

lemma handle_events_leaves:
  "supplied px (length evs + n) (pending_work sv) scr \<Longrightarrow> leaves px n sv scr (handle_events tgt px a evs sv scr)"
proof (induction evs arbitrary: sv scr)
  case Nil
  then show ?case by (simp add: leaves_same)
next
  case (Cons ev evs)
  have "supplied px (Suc (length evs + n)) (pending_work sv) scr" using Cons.prems by simp
  from handle_event_leaves [OF this, of tgt a ev] obtain out scr1 where
    one: "handle_event tgt px a ev sv scr = Some (out, scr1)" and
    b: "\<And>sv1. out = Done sv1 \<Longrightarrow> supplied px (length evs + n) (pending_work sv1) scr1 \<and>
      pending_work sv1 + 2 * length (received_bytes (recvs scr1)) \<le> pending_work sv + 2 * length (received_bytes (recvs scr))"
    unfolding leaves_def by blast
  show ?case
  proof (cases out)
    case (Done sv1)
    from Cons.IH [of sv1 scr1] b [OF Done] show ?thesis using one Done by (fastforce simp: leaves_def)
  qed (use one in \<open>simp_all add: leaves_def\<close>)
qed

section \<open>The loop\<close>

text \<open>Every turn before the deadline has answers for as many events as one \<^verbatim>\<open>wait\<close> returns, and the deadline
  passes. \<open>work\<close> bounds what is pending: twice the bytes received in the turns before.\<close>

fun turns_supplied :: "posix \<Rightarrow> nat \<Rightarrow> tick list \<Rightarrow> bool" where
  "turns_supplied px work [] = False"
| "turns_supplied px work (tk # tks) =
     (before_deadline tk \<longrightarrow> supplied px 64 work (answering tk) \<and>
        turns_supplied px (work + 2 * length (received_bytes (recvs (answering tk)))) tks)"

lemma sp_wait_fits: "sp_wait px sel cap t order p = Done (Inr evs) \<Longrightarrow> length evs \<le> cap"
  by (erule sp_wait_events) simp

lemma serve_ticks_returns:
  "turns_supplied px work tks \<Longrightarrow> pending_work sv \<le> work \<Longrightarrow> \<exists>out. serve_ticks tgt px a tks sv = Some out"
proof (induction tks arbitrary: sv work)
  case (Cons tk tks)
  show ?case
  proof (cases "before_deadline tk \<and> \<not> (stop_requested tk \<and> slots sv = []) \<and>
      (\<exists>evs. sp_wait px (selecting tk) 64 50 (map_order tk) (poller_of sv) = Done (Inr evs))")
    case True
    then obtain evs where w: "sp_wait px (selecting tk) 64 50 (map_order tk) (poller_of sv) = Done (Inr evs)" by blast
    from True Cons.prems have sup: "supplied px 64 work (answering tk)"
      and more: "turns_supplied px (work + 2 * length (received_bytes (recvs (answering tk)))) tks" by auto
    have "supplied px (length evs + 0) (pending_work sv) (answering tk)"
      using sup by (rule supplied_mono) (use sp_wait_fits [OF w] Cons.prems(2) in simp_all)
    from handle_events_leaves [OF this, of tgt a] obtain out scr where
      h: "handle_events tgt px a evs sv (answering tk) = Some (out, scr)" and
      b: "\<And>sv'. out = Done sv' \<Longrightarrow> pending_work sv' \<le> pending_work sv + 2 * length (received_bytes (recvs (answering tk)))"
      unfolding leaves_def by fastforce
    show ?thesis
    proof (cases out)
      case (Done sv')
      have "pending_work sv' \<le> work + 2 * length (received_bytes (recvs (answering tk)))"
        using b [OF Done] Cons.prems(2) by simp
      from Cons.IH [OF more this] True w h Done show ?thesis by auto
    qed (use True w h in auto)
  next
    case False
    then show ?thesis by (auto split: outcome.split sum.split)
  qed
qed simp

lemma run_server_returns:
  assumes "turns_supplied px 0 tks"
  shows "\<exists>out. run_server tgt px env tks = Some out"
proof (cases "start_server tgt px env")
  case (Done x)
  obtain port a sv where x: "x = (port, a, sv)" by (rule prod_cases3)
  have "pending_work sv = 0" using start_server_inv(2) [OF Done [unfolded x]] by (simp add: pending_work_def)
  with serve_ticks_returns [OF assms, of sv tgt a] obtain out where "serve_ticks tgt px a tks sv = Some out" by auto
  with Done x show ?thesis by (simp add: run_server_def)
qed (simp_all add: run_server_def)

section \<open>Properties\<close>

text \<open>C10: The server returns. If in every turn of its loop the kernel gives answers for the 64 events a \<^verbatim>\<open>wait\<close> can
  report (as many refusals by \<^verbatim>\<open>accept\<close>, as many answers of \<^verbatim>\<open>recv\<close> that end reading, and more answers of \<^verbatim>\<open>send\<close> than
  64 and twice the bytes received in this turn and all before), whatever else it answers, and the deadline passes
  before some turn, then \<^verbatim>\<open>run_server\<close> has ended: none of its loops runs on.\<close>

theorem server_returns:
  assumes "turns_supplied px 0 tks"
  shows "\<exists>out. run_server tgt px env tks = Some out"
  by (rule run_server_returns [OF assms])

text \<open>One turn accepts a connection, the next is past the deadline.\<close>

definition demo_supplied :: "tick list" where
  "demo_supplied = (let tk = hd demo_ticks in
     [tk\<lparr>answering := \<lparr>accepts = hd (accepts (answering tk)) # replicate 64 (last (accepts (answering tk))),
            recvs = replicate 64 (RecvFailed 11), sends = replicate 65 (Sent 1)\<rparr>\<rparr>,
      tk\<lparr>before_deadline := False\<rparr>])"

theorem server_returns_witness:
  "\<exists>out. run_server \<lparr>build_mode = Debug, native_endian = Little\<rparr> linux demo_start demo_supplied = Some out"
proof (rule server_returns)
  have "received_bytes (replicate n (RecvFailed 11)) = []" for n by (induction n) simp_all
  then show "turns_supplied linux 0 demo_supplied"
    by (simp add: demo_supplied_def demo_ticks_def Let_def supplied_def refusals_def endings_def answers_def linux_def)
qed

end
