(* ===== verification/Echo_Client.thy ===== *)
theory Echo_Client
  imports Echo_Count
begin

text \<open>
  The clients of \<^verbatim>\<open>benchmarks/e2e_echo_benchmark.cpp\<close>: blocking sockets, one request at a time. What the kernel
  answers is again a script. The first \<^verbatim>\<open>total\<close> bytes of the receive buffer \<^verbatim>\<open>acc\<close> are the list \<open>got\<close>; the
  buffer has \<open>acc_size\<close> bytes. The last section puts a client and the server's connection together.
\<close>

unbundle bit_operations_syntax

section \<open>Requests\<close>

definition make_payload :: "size_t \<Rightarrow> 32 word \<Rightarrow> byte list" where
  "make_payload payload_bytes client_id =
     map (\<lambda>i. ucast ((of_nat i XOR client_id) AND 255)) [0..<payload_bytes]"

text \<open>\<^verbatim>\<open>send_all(s, data, len)\<close> from the offset \<open>off\<close>.\<close>

function send_all :: "byte list \<Rightarrow> size_t \<Rightarrow> send_ret list \<Rightarrow> (unit outcome \<times> send_ret list) option" where
  "send_all data off script =
     (if off < length data
      then (case script of
              [] \<Rightarrow> None
            | SendFailed e # rest \<Rightarrow> Some (Abort ''send_all'', rest)
            | Sent n # rest \<Rightarrow> if n = 0 then Some (Abort ''send_all'', rest) else send_all data (off + n) rest)
      else Some (Done (), script))"
  by pat_completeness auto
termination by (relation "measure (\<lambda>(data, off, script). length script)") auto

declare send_all.simps [simp del]

definition connect_loopback :: "int_ret \<Rightarrow> (u16 \<Rightarrow> int_ret) \<Rightarrow> u16 \<Rightarrow> NativeSocket outcome" where
  "connect_loopback sock connecting port =
     (if rc sock < 0 then Abort ''socket''
      else if rc (connecting port) \<noteq> 0 then Abort ''connect''
      else Done (rc sock))"

section \<open>Replies\<close>

definition acc_size :: "byte list \<Rightarrow> size_t" where
  "acc_size expected = 65536 + length expected"

text \<open>The test of a decoded frame against the request, byte by byte.\<close>

definition same_payload :: "byte list \<Rightarrow> byte list \<Rightarrow> bool" where
  "same_payload pay expected \<longleftrightarrow> length pay = length expected \<and>
     list_all (\<lambda>i. pay ! i = expected ! i) [0..<length expected]"

fun recv_one_echo_frame ::
  "target \<Rightarrow> byte list \<Rightarrow> byte list \<Rightarrow> recv_ret list \<Rightarrow> (unit outcome \<times> recv_ret list) option" where
  "recv_one_echo_frame tgt expected got [] = None"
| "recv_one_echo_frame tgt expected got (RecvFailed e # rest) = Some (Abort ''recv_one_echo_frame'', rest)"
| "recv_one_echo_frame tgt expected got (Received d # rest) =
     (if d = [] then Some (Abort ''recv_one_echo_frame'', rest)
      else if acc_size expected - length got < length d then Some (Undefined ''recv past acc'', rest)
      else
        let got' = got @ d
        in case try_decode_frame tgt got' k_max_payload of
             Abort m \<Rightarrow> Some (Abort m, rest)
           | Undefined m \<Rightarrow> Some (Undefined m, rest)
           | Done dec \<Rightarrow>
               (case fdr_status dec of
                  Complete \<Rightarrow>
                    Some (if same_payload (fdr_payload dec) expected then Done () else Abort ''echo mismatch'', rest)
                | OversizedLength \<Rightarrow> Some (Abort ''recv_one_echo_frame'', rest)
                | Incomplete \<Rightarrow>
                    if length got' \<ge> acc_size expected then Some (Abort ''recv_one_echo_frame'', rest)
                    else recv_one_echo_frame tgt expected got' rest))"

section \<open>A client\<close>

fun client_rounds ::
  "target \<Rightarrow> byte list \<Rightarrow> nat \<Rightarrow> send_ret list \<Rightarrow> recv_ret list \<Rightarrow>
     (unit outcome \<times> send_ret list \<times> recv_ret list) option" where
  "client_rounds tgt pay 0 ss rs = Some (Done (), ss, rs)"
| "client_rounds tgt pay (Suc n) ss rs =
     (case append_encoded_frame tgt [] pay k_max_payload of
        Abort m \<Rightarrow> Some (Abort m, ss, rs)
      | Undefined m \<Rightarrow> Some (Undefined m, ss, rs)
      | Done (Inl e, w) \<Rightarrow> Some (Abort ''append_encoded_frame'', ss, rs)
      | Done (Inr _, wire_out) \<Rightarrow>
          (case send_all wire_out 0 ss of
             None \<Rightarrow> None
           | Some (Abort m, ss') \<Rightarrow> Some (Abort m, ss', rs)
           | Some (Undefined m, ss') \<Rightarrow> Some (Undefined m, ss', rs)
           | Some (Done _, ss') \<Rightarrow>
               (case recv_one_echo_frame tgt pay [] rs of
                  None \<Rightarrow> None
                | Some (Abort m, rs') \<Rightarrow> Some (Abort m, ss', rs')
                | Some (Undefined m, rs') \<Rightarrow> Some (Undefined m, ss', rs')
                | Some (Done _, rs') \<Rightarrow> client_rounds tgt pay n ss' rs')))"

text \<open>The result of a client that returns is the descriptor it opened, used and closed.\<close>

definition client_worker ::
  "target \<Rightarrow> int_ret \<Rightarrow> (u16 \<Rightarrow> int_ret) \<Rightarrow> u16 \<Rightarrow> 32 word \<Rightarrow> int \<Rightarrow> size_t \<Rightarrow> send_ret list \<Rightarrow> recv_ret list \<Rightarrow>
     (syscall list outcome \<times> send_ret list \<times> recv_ret list) option" where
  "client_worker tgt sock connecting port client_id round_trips payload_bytes ss rs =
     (case connect_loopback sock connecting port of
        Abort m \<Rightarrow> Some (Abort m, ss, rs)
      | Undefined m \<Rightarrow> Some (Undefined m, ss, rs)
      | Done s \<Rightarrow>
          (case client_rounds tgt (make_payload payload_bytes client_id) (nat round_trips) ss rs of
             None \<Rightarrow> None
           | Some (out, rest) \<Rightarrow> Some (bind_outcome out (\<lambda>_. Done [Sys_opened s, Sys_close s]), rest)))"

section \<open>Facts\<close>

lemma frame_dec_status:
  "(frame_dec tgt m b = NeedMore \<longleftrightarrow> (\<exists>dec. try_decode_frame tgt b m = Done dec \<and> fdr_status dec = Incomplete)) \<and>
   (frame_dec tgt m b = Got q n \<longleftrightarrow> (\<exists>dec. try_decode_frame tgt b m = Done dec \<and> fdr_status dec = Complete \<and>
      q = fdr_payload dec \<and> n = consumed_bytes dec))"
  by (auto simp: frame_dec_def try_decode_frame_eq decode_view_def split: DecodeStatus.splits)

lemma same_payload_iff [simp]: "same_payload q expected \<longleftrightarrow> q = expected"
  by (auto simp: same_payload_def list_all_iff intro: nth_equalityI)

lemma send_all_append:
  "send_all data off script = Some (Done (), []) \<Longrightarrow> send_all data off (script @ rest) = Some (Done (), rest)"
proof (induction data off script rule: send_all.induct)
  case (1 data off script)
  show ?case
  proof (cases "off < length data")
    case True
    with "1.prems" obtain n script' where "script = Sent n # script'" "n \<noteq> 0"
      "send_all data (off + n) script' = Some (Done (), [])"
      by (subst (asm) send_all.simps) (auto split: list.splits send_ret.splits if_splits)
    with True "1.IH" [of "Sent n" script' n] show ?thesis by (subst send_all.simps) simp
  next
    case False
    with "1.prems" show ?thesis by (subst (asm) send_all.simps, subst send_all.simps) simp
  qed
qed

text \<open>However the reply is cut into pieces, a correct one is accepted.\<close>

lemma recv_pieces:
  "fits k_max_payload p \<Longrightarrow> [] \<notin> set cs \<Longrightarrow> got @ concat cs = frame p \<Longrightarrow> cs \<noteq> [] \<Longrightarrow>
     recv_one_echo_frame tgt p got (map Received cs @ rest) = Some (Done (), rest)"
proof (induction cs arbitrary: got)
  case (Cons d cs)
  have d: "d \<noteq> []" using Cons.prems(2) by auto
  have len: "length (got @ d) \<le> 4 + length p" using arg_cong [OF Cons.prems(3), of length] by simp
  show ?case
  proof (cases "cs = []")
    case True
    with Cons.prems(3) have "try_decode_frame tgt (got @ d) k_max_payload =
        Done \<lparr>fdr_status = Complete, consumed_bytes = 4 + length p, fdr_payload = p\<rparr>"
      using try_decode_frame_frame [OF Cons.prems(1), of tgt "[]"] by simp
    with True d len show ?thesis by (simp add: acc_size_def)
  next
    case False
    with Cons.prems(2) have "concat cs \<noteq> []" by (cases cs) auto
    moreover have f: "frame p = (got @ d) @ concat cs" using Cons.prems(3) by simp
    ultimately have "strict_prefix (got @ d) (frame p)" by (metis append_Nil2 prefixI same_append_eq strict_prefix_def)
    from codec.dec_prefix [OF Cons.prems(1) this] obtain dec where
      "try_decode_frame tgt (got @ d) k_max_payload = Done dec" "fdr_status dec = Incomplete"
      using frame_dec_status by blast
    with Cons.IH [of "got @ d"] Cons.prems d len False show ?thesis by (simp add: acc_size_def)
  qed
qed simp

text \<open>Conversely, only a reply that starts with the frame of the request is accepted.\<close>

lemma recv_accepts:
  "recv_one_echo_frame tgt p got script = Some (Done (), rest) \<Longrightarrow>
     fits k_max_payload p \<and> (\<exists>ds. script = map Received ds @ rest \<and> prefix (frame p) (got @ concat ds))"
proof (induction tgt p got script rule: recv_one_echo_frame.induct)
  case (3 tgt p got d script)
  let ?got = "got @ d"
  from "3.prems" have d: "d \<noteq> []" "length d \<le> acc_size p - length got" by (auto split: if_splits)
  from "3.prems" d obtain dec where dec: "try_decode_frame tgt ?got k_max_payload = Done dec"
    "fdr_status dec \<noteq> OversizedLength"
    by (auto simp: Let_def split: outcome.splits DecodeStatus.splits)
  show ?case
  proof (cases "fdr_status dec")
    case Complete
    with "3.prems" d dec have "fdr_payload dec = p" "script = rest" by (auto split: if_splits)
    with Complete dec have "frame_dec tgt k_max_payload ?got = Got p (consumed_bytes dec)"
      using frame_dec_status by blast
    note sound = codec.dec_soundD [OF this]
    from sound(3) have "prefix (frame p) (got @ concat [d])" by (metis append_Nil2 concat.simps prefixI)
    with sound(1) \<open>script = rest\<close> show ?thesis by (intro conjI exI [of _ "[d]"]) simp_all
  next
    case Incomplete
    with "3.prems" d dec have "recv_one_echo_frame tgt p ?got script = Some (Done (), rest)"
      "length ?got < acc_size p" by (auto split: if_splits)
    with "3.IH" [OF _ _ refl dec(1) Incomplete] d obtain ds where
      "fits k_max_payload p" "script = map Received ds @ rest" "prefix (frame p) (?got @ concat ds)" by auto
    then show ?thesis by (intro conjI exI [of _ "d # ds"]) simp_all
  qed (use dec in simp)
qed simp_all

lemma client_rounds_succeed:
  assumes "fits k_max_payload p" "length sss = n" "length css = n"
    and "\<forall>ss\<in>set sss. send_all (frame p) 0 ss = Some (Done (), [])"
    and "\<forall>cs\<in>set css. concat cs = frame p \<and> [] \<notin> set cs"
  shows "client_rounds tgt p n (concat sss @ ss) (concat (map (map Received) css) @ rs) = Some (Done (), ss, rs)"
  using assms(2-)
proof (induction n arbitrary: sss css)
  case (Suc n)
  then obtain s1 sss' c1 css' where "sss = s1 # sss'" "css = c1 # css'" by (metis length_Suc_conv)
  moreover have "c1 \<noteq> []" using Suc.prems(4) \<open>css = _\<close> codec.enc_nonempty [of p] by auto
  ultimately show ?case
    using Suc.IH [of sss' css'] Suc.prems assms(1) send_all_append [of "frame p" 0 s1 "concat sss' @ ss"]
      recv_pieces [OF assms(1), of c1 "[]" tgt "concat (map (map Received) css') @ rs"]
    by (simp add: append_encoded_frame_eq)
qed simp

section \<open>Properties\<close>

text \<open>A client accepts exactly the echo of its request. \<^verbatim>\<open>recv_one_echo_frame\<close> returns only if the bytes it was
  given start with the frame of the payload it expects; and if they are that frame, in any pieces, it
  returns after the last piece, having left nothing behind and run into no abort.\<close>

lemma client_accepts_exactly_echo:
  "(recv_one_echo_frame tgt p [] script = Some (Done (), rest) \<longrightarrow>
      fits k_max_payload p \<and> (\<exists>ds. script = map Received ds @ rest \<and> prefix (frame p) (concat ds))) \<and>
   (fits k_max_payload p \<and> [] \<notin> set cs \<and> concat cs = frame p \<longrightarrow>
      recv_one_echo_frame tgt p [] (map Received cs @ rest) = Some (Done (), rest))"
proof -
  have "cs \<noteq> []" if "concat cs = frame p" using that codec.enc_nonempty [of p] by auto
  then show ?thesis using recv_accepts [of tgt p "[]" script rest] recv_pieces [of p cs "[]" tgt rest] by auto
qed

lemma client_accepts_exactly_echo_witness:
  "recv_one_echo_frame \<lparr>build_mode = Debug, native_endian = Big\<rparr> [7] [] (map Received [[0, 0], [0, 1], [7]] @ []) =
     Some (Done (), [])"
  by (rule mp [OF conjunct2 [OF client_accepts_exactly_echo]])
    (simp add: fits_def k_max_payload_def frame_def push_be32_def)

text \<open>A client whose requests are echoed completes. If the socket connects, the payload is within the limit,
  and in each round the kernel takes the request in some pieces and delivers its echo in some pieces,
  \<^verbatim>\<open>client_worker\<close> runs all its rounds without an abort, returns, and has closed the one descriptor it
  opened.\<close>

lemma client_worker_completes:
  assumes "0 \<le> rc sock" "rc (connecting port) = 0" "pb \<le> 2 ^ 20" "0 \<le> rounds"
    and "length sss = nat rounds" "length css = nat rounds"
    and "\<forall>ss\<in>set sss. send_all (frame (make_payload pb cid)) 0 ss = Some (Done (), [])"
    and "\<forall>cs\<in>set css. concat cs = frame (make_payload pb cid) \<and> [] \<notin> set cs"
  shows "\<exists>calls. client_worker tgt sock connecting port cid rounds pb (concat sss) (concat (map (map Received) css)) =
      Some (Done calls, [], []) \<and> Sys_opened (rc sock) \<in> set calls \<and> open_after calls {} = Some {}"
proof -
  have "fits k_max_payload (make_payload pb cid)"
    using assms(3) by (simp add: fits_def k_max_payload_def make_payload_def)
  from client_rounds_succeed [OF this assms(5-8), of tgt "[]" "[]"] assms(1,2) show ?thesis
    by (auto simp: client_worker_def connect_loopback_def)
qed

lemma client_worker_completes_witness:
  "\<exists>calls. client_worker \<lparr>build_mode = Debug, native_endian = Little\<rparr> \<lparr>rc = 4, err = 0\<rparr> (\<lambda>_. \<lparr>rc = 0, err = 0\<rparr>) 8080 3 2 1
     (concat [[Sent 2, Sent 3], [Sent 5]]) (concat (map (map Received) [[[0, 0, 0, 1, 3]], [[0, 0], [0, 1, 3]]])) =
     Some (Done calls, [], []) \<and> Sys_opened 4 \<in> set calls \<and> open_after calls {} = Some {}"
proof -
  have p: "frame (make_payload 1 3) = [0, 0, 0, 1, 3]" by (simp add: make_payload_def frame_def push_be32_def)
  have "\<forall>ss\<in>set [[Sent 2, Sent 3], [Sent 5]]. send_all (frame (make_payload 1 3)) 0 ss = Some (Done (), [])"
    unfolding p by (simp add: send_all.simps)
  from client_worker_completes [where sock = "\<lparr>rc = 4, err = 0\<rparr>" and connecting = "\<lambda>_. \<lparr>rc = 0, err = 0\<rparr>"
      and port = 8080 and rounds = 2 and css = "[[[0, 0, 0, 1, 3]], [[0, 0], [0, 1, 3]]]", OF _ _ _ _ _ _ this]
  show ?thesis by (simp add: p [simplified])
qed

text \<open>Client and server understand each other. A client encodes a request; the kernel delivers it to an idle
  connection of the server in any pieces, on a machine of possibly other byte order; if the server's
  read loop returns with everything flushed, then whatever pieces its output reaches the client in, the
  client accepts the reply, the server's connection is idle again, and the server has counted exactly one
  completion.\<close>

lemma echo_round_trip:
  assumes "append_encoded_frame ctgt [] p k_max_payload = Done (Inr (), request)"
    and "read_loop stgt px st rscript sscript = Some (Done (ReadOk, st'), [], ss)"
    and "Socket_valid (conn_socket (conn_of st))" "read_buf (conn_of st) = []" "write_buf (conn_of st) = []"
    and "awaiting_reply_flush (slot st) = False"
    and "wire st = []" "received_bytes rscript = request" "write_buf (conn_of st') = []"
    and "concat cs = wire st'" "[] \<notin> set cs"
  shows "recv_one_echo_frame ctgt p [] (map Received cs) = Some (Done (), []) \<and>
    read_buf (conn_of st') = [] \<and> awaiting_reply_flush (slot st') = False \<and> completions st' = completions st + 1"
proof -
  have fit: "fits k_max_payload p" and req: "request = frame p"
    using assms(1) by (auto simp: append_encoded_frame_eq split: if_splits)
  have more: "frame_dec stgt k_max_payload (read_buf (conn_of st)) = NeedMore" using assms(4) by (simp add: frame_dec_eq)
  have d: "drain (frame_dec stgt k_max_payload) (frame p @ []) = ([p], [], False)"
    by (subst codec.drain_enc [OF fit]) (simp add: frame_dec_eq)
  from read_loop_echoed [OF assms(2,3) more] have "echoed stgt st (frame p) ReadOk st'" using assms(8) req by simp
  with d have w: "wire st' = frame p" "read_buf (conn_of st') = []"
    using assms(4,5,7,9) by (auto simp: echoed_def)
  have idle: "awaiting_reply_flush (slot st') = False" using read_loop_awaiting [OF assms(2)] assms(5,6,9) by simp
  have "counted st [p] st'" using read_loop_counted [OF assms(2,3) more] d assms(4,8) req by auto
  with idle assms(6) have "completions st' = completions st + 1" by (simp add: counted_def due_def)
  with idle w recv_pieces [OF fit assms(11), of "[]" ctgt "[]"] assms(10) codec.enc_nonempty [of p] show ?thesis
    by (cases "cs = []") auto
qed

lemma echo_round_trip_witness:
  "recv_one_echo_frame \<lparr>build_mode = Release, native_endian = Big\<rparr> [7] [] (map Received [[0, 0], [0, 1, 7]]) =
     Some (Done (), [])"
proof -
  let ?stgt = "\<lparr>build_mode = Debug, native_endian = Little\<rparr>"
  from demo_read obtain st' where "read_loop ?stgt linux demo_serving [Received [0, 0, 0, 1, 7], RecvFailed 11]
      [Sent 2, Sent 3] = Some (Done (ReadOk, st'), [], []) \<and> write_buf (conn_of st') = [] \<and> wire st' = [0, 0, 0, 1, 7]"
    by (rule exE)
  then have st': "read_loop ?stgt linux demo_serving [Received [0, 0, 0, 1, 7], RecvFailed 11] [Sent 2, Sent 3] =
      Some (Done (ReadOk, st'), [], [])" "write_buf (conn_of st') = []" "wire st' = [0, 0, 0, 1, 7]" by simp_all
  have enc: "append_encoded_frame tgt [] [7] k_max_payload = Done (Inr (), [0, 0, 0, 1, 7])" for tgt
    by (rule demo_decode(2))
  show ?thesis
    by (rule conjunct1 [OF echo_round_trip [OF enc st'(1)]])
      (simp_all add: st'(2,3) demo_serving_def Socket_valid_def k_invalid_socket_def)
qed

end
