(* ===== verification/Harness.thy ===== *)
theory Harness
  imports Frame_Codec
begin

text \<open>
  The programs that exercise the decoder: \<^verbatim>\<open>benchmarks/decoder_benchmark.cpp\<close>, whose two benchmarks build a wire
  image with the encoder and decode it again in a loop, and \<^verbatim>\<open>fuzz/decoder_fuzz.cpp\<close>, which decodes whatever
  bytes it is given. How often a benchmark iterates is the benchmark library's choice, an argument here.
\<close>

unbundle bit_operations_syntax

section \<open>Wire images\<close>

definition k_max_payload_bytes :: u64 where
  "k_max_payload_bytes = push_bit 20 1"

definition make_wire :: "target \<Rightarrow> size_t \<Rightarrow> byte list outcome" where
  "make_wire tgt payload_bytes =
     bind_outcome (append_encoded_frame tgt [] (map (\<lambda>i. ucast ((of_nat i :: u64) AND 255)) [0..<payload_bytes])
                     k_max_payload_bytes)
       (\<lambda>(ok, wire). case ok of Inl e \<Rightarrow> Done [] | Inr _ \<Rightarrow> Done wire)"

text \<open>The loop over the frames \<open>f\<close>, \<open>f + 1\<close>, ...: the first byte of the payload is the frame's number.\<close>

fun append_frames :: "target \<Rightarrow> size_t \<Rightarrow> byte list \<Rightarrow> byte list \<Rightarrow> nat list \<Rightarrow> byte list outcome" where
  "append_frames tgt payload_bytes pay wire [] = Done wire"
| "append_frames tgt payload_bytes pay wire (f # fs) =
     (let pay' = (if payload_bytes > 0 then pay[0 := ucast ((of_nat f :: u32) AND 255)] else pay)
      in bind_outcome (append_encoded_frame tgt wire pay' k_max_payload_bytes)
           (\<lambda>(ok, wire'). case ok of Inl e \<Rightarrow> Done [] | Inr _ \<Rightarrow> append_frames tgt payload_bytes pay' wire' fs))"

definition stream_payload :: "size_t \<Rightarrow> byte list" where
  "stream_payload payload_bytes = map (\<lambda>i. ucast (((of_nat i :: u64) XOR 0x5A) AND 255)) [0..<payload_bytes]"

text \<open>The capacity reserved is a product of \<^verbatim>\<open>size_t\<close> values, in which a negative number of frames wraps around;
  \<^verbatim>\<open>reserve\<close> throws when it exceeds the largest size of a vector of bytes, and nothing catches that.\<close>

definition make_stream :: "target \<Rightarrow> size_t \<Rightarrow> int \<Rightarrow> byte list outcome" where
  "make_stream tgt payload_bytes frame_count =
     (if 2 ^ 63 - 1 < unat (word_of_int frame_count * (of_nat (k_frame_length_field_bytes + payload_bytes)) :: u64)
      then Abort ''vector::reserve''
      else append_frames tgt payload_bytes (stream_payload payload_bytes) [] [0..<nat frame_count])"

section \<open>The benchmarks\<close>

text \<open>A benchmark is skipped with a message or reports its number of bytes and of items.\<close>

datatype bench = Skipped string | Processed int int

text \<open>A product of \<^verbatim>\<open>std::int64_t\<close> values; overflow is undefined behaviour.\<close>

definition i64_mult :: "int \<Rightarrow> int \<Rightarrow> int outcome" where
  "i64_mult a b = (if - (2 ^ 63) \<le> a * b \<and> a * b < 2 ^ 63 then Done (a * b) else Undefined ''signed overflow'')"

lemma complete_consumes:
  "try_decode_frame tgt b m = Done r \<Longrightarrow> fdr_status r = Complete \<Longrightarrow> 0 < consumed_bytes r"
  by (auto simp: try_decode_frame_eq decode_spec_def default_result_def split: if_splits)

text \<open>The inner loop of \<^verbatim>\<open>BM_decode_stream\<close>: the number of frames, or \<open>None\<close> if one is not complete.\<close>

function decode_all :: "target \<Rightarrow> byte list \<Rightarrow> size_t \<Rightarrow> int \<Rightarrow> int option outcome" where
  "decode_all tgt wire off decoded =
     (if off < length wire
      then (case try_decode_frame tgt (drop off wire) k_max_payload_bytes of
              Abort m \<Rightarrow> Abort m
            | Undefined m \<Rightarrow> Undefined m
            | Done r \<Rightarrow>
                if fdr_status r \<noteq> Complete then Done None
                else decode_all tgt wire (off + consumed_bytes r) (decoded + 1))
      else Done (Some decoded))"
  by pat_completeness auto
termination
  by (relation "measure (\<lambda>(tgt, wire, off, decoded). length wire - off)") (auto dest!: complete_consumes)

declare decode_all.simps [simp del]

text \<open>The iterations: \<open>None\<close> when none of them skips.\<close>

fun stream_turns :: "target \<Rightarrow> byte list \<Rightarrow> int \<Rightarrow> nat \<Rightarrow> string option outcome" where
  "stream_turns tgt wire frame_count 0 = Done None"
| "stream_turns tgt wire frame_count (Suc n) =
     bind_outcome (decode_all tgt wire 0 0) (\<lambda>res.
       case res of
         None \<Rightarrow> Done (Some ''decode stream incomplete'')
       | Some decoded \<Rightarrow>
           if decoded \<noteq> frame_count then Done (Some ''decode stream frame count mismatch'')
           else stream_turns tgt wire frame_count n)"

definition BM_decode_stream :: "target \<Rightarrow> size_t \<Rightarrow> int \<Rightarrow> nat \<Rightarrow> bench outcome" where
  "BM_decode_stream tgt payload_bytes frame_count iterations =
     bind_outcome (make_stream tgt payload_bytes frame_count) (\<lambda>wire.
       if wire = [] \<and> frame_count > 0 then Done (Skipped ''encode stream failed'')
       else bind_outcome (stream_turns tgt wire frame_count iterations) (\<lambda>skipped.
         case skipped of
           Some m \<Rightarrow> Done (Skipped m)
         | None \<Rightarrow>
             bind_outcome (i64_mult (int iterations) (int (length wire))) (\<lambda>bytes.
             bind_outcome (i64_mult (int iterations) frame_count) (\<lambda>items. Done (Processed bytes items)))))"

fun single_turns :: "target \<Rightarrow> byte list \<Rightarrow> nat \<Rightarrow> string option outcome" where
  "single_turns tgt wire 0 = Done None"
| "single_turns tgt wire (Suc n) =
     bind_outcome (try_decode_frame tgt wire k_max_payload_bytes) (\<lambda>r.
       if fdr_status r \<noteq> Complete then Done (Some ''decode not complete'') else single_turns tgt wire n)"

text \<open>This one sets no number of items.\<close>

definition BM_decode_single_frame :: "target \<Rightarrow> size_t \<Rightarrow> nat \<Rightarrow> bench outcome" where
  "BM_decode_single_frame tgt payload_bytes iterations =
     bind_outcome (make_wire tgt payload_bytes) (\<lambda>wire.
       if length wire < k_frame_length_field_bytes then Done (Skipped ''encode failed'')
       else bind_outcome (single_turns tgt wire iterations) (\<lambda>skipped.
         case skipped of
           Some m \<Rightarrow> Done (Skipped m)
         | None \<Rightarrow> bind_outcome (i64_mult (int iterations) (int (length wire))) (\<lambda>bytes. Done (Processed bytes 0))))"

section \<open>What the benchmarks report\<close>

lemma k_max_payload_bytes_eq: "k_max_payload_bytes = 1048576"
  by (simp add: k_max_payload_bytes_def)

lemma fits_bench: "fits k_max_payload_bytes p \<longleftrightarrow> length p \<le> 1048576"
  by (simp add: fits_def k_max_payload_bytes_eq)

text \<open>The payload of frame \<open>f\<close>.\<close>

definition numbered :: "byte list \<Rightarrow> nat \<Rightarrow> byte list" where
  "numbered pay f = pay[0 := ucast ((of_nat f :: u32) AND 255)]"

lemma length_numbered [simp]: "length (numbered pay f) = length pay"
  by (simp add: numbered_def)

lemma numbered_numbered [simp]: "numbered (numbered pay f) g = numbered pay g"
  by (simp add: numbered_def)

lemma append_frames_Cons:
  "length pay = pb \<Longrightarrow> append_frames tgt pb pay wire (f # fs) =
     (if pb \<le> 1048576 then append_frames tgt pb (numbered pay f) (wire @ frame (numbered pay f)) fs else Done [])"
  by (cases pay) (auto simp: numbered_def append_encoded_frame_eq fits_bench Let_def)

lemma append_frames_eq:
  "length pay = pb \<Longrightarrow> pb \<le> 1048576 \<Longrightarrow>
     append_frames tgt pb pay wire fs = Done (wire @ concat (map (\<lambda>f. frame (numbered pay f)) fs))"
  by (induction fs arbitrary: pay wire) (simp_all add: append_frames_Cons del: append_frames.simps(2))

lemma append_frames_too_large:
  "length pay = pb \<Longrightarrow> 1048576 < pb \<Longrightarrow> fs \<noteq> [] \<Longrightarrow> append_frames tgt pb pay wire fs = Done []"
  by (cases fs) (simp_all add: append_frames_Cons del: append_frames.simps(2))

lemma length_stream_payload [simp]: "length (stream_payload n) = n"
  by (simp add: stream_payload_def)

lemma reserve_ok:
  assumes "0 \<le> n" "n * (4 + int pb) < 2 ^ 63"
  shows "\<not> 2 ^ 63 - 1 < unat (word_of_int n * of_nat (k_frame_length_field_bytes + pb) :: u64)"
proof -
  have "(word_of_int n * of_nat (k_frame_length_field_bytes + pb) :: u64) = of_nat (nat (n * (4 + int pb)))"
    using assms(1) by (simp add: k_frame_length_field_bytes_def)
  moreover have "nat (n * (4 + int pb)) < 2 ^ 63"
    using assms by (simp add: nat_less_iff)
  ultimately show ?thesis by (simp add: unat_of_nat)
qed

lemma decode_all_frames:
  "list_all (fits k_max_payload_bytes) ps \<Longrightarrow>
     decode_all tgt (pre @ concat (map frame ps)) (length pre) d = Done (Some (d + int (length ps)))"
proof (induction ps arbitrary: pre d)
  case Nil
  then show ?case by (simp add: decode_all.simps)
next
  case (Cons p ps)
  have "decode_all tgt (pre @ concat (map frame (p # ps))) (length pre) d =
      decode_all tgt ((pre @ frame p) @ concat (map frame ps)) (length (pre @ frame p)) (d + 1)"
    using Cons.prems by (subst decode_all.simps) (simp add: try_decode_frame_frame)
  also have "\<dots> = Done (Some (d + 1 + int (length ps)))"
    using Cons.prems by (intro Cons.IH) simp
  finally show ?case by simp
qed

lemma stream_turns_frames:
  "list_all (fits k_max_payload_bytes) ps \<Longrightarrow> n = int (length ps) \<Longrightarrow>
     stream_turns tgt (concat (map frame ps)) n its = Done None"
  by (induction its) (use decode_all_frames [of ps tgt "[]" 0] in simp_all)

lemma single_turns_frame:
  "fits k_max_payload_bytes p \<Longrightarrow> single_turns tgt (frame p) its = Done None"
  by (induction its) (use try_decode_frame_frame [of _ p tgt "[]"] in simp_all)

lemma i64_mult_ok: "0 \<le> a * b \<Longrightarrow> a * b < 2 ^ 63 \<Longrightarrow> i64_mult a b = Done (a * b)"
  by (simp add: i64_mult_def)

lemma sum_list_numbered:
  "length (concat (map (\<lambda>f. frame (numbered pay f)) fs)) = length fs * (4 + length pay)"
  by (induction fs) simp_all

text \<open>The stream benchmark measures what it says. For a non-negative number of frames whose bytes fit
  \<^verbatim>\<open>std::int64_t\<close>, also multiplied by the number of iterations, it neither skips nor runs into an overflow when the
  payload is within the limit: every iteration decodes exactly the frames encoded, and the benchmark reports the
  iterations times the length of the stream and times the number of frames. With a payload above the limit and at
  least one frame it is skipped because encoding fails.\<close>

lemma bench_decodes_stream:
  assumes "0 \<le> frames" "0 < its" "int its * (frames * (4 + int pb)) < 2 ^ 63"
  shows "BM_decode_stream tgt pb frames its =
    (if pb \<le> 1048576 \<or> frames = 0 then Done (Processed (int its * (frames * (4 + int pb))) (int its * frames))
     else Done (Skipped ''encode stream failed''))"
proof -
  let ?fs = "[0..<nat frames]" and ?pay = "stream_payload pb"
  let ?wire = "concat (map (\<lambda>f. frame (numbered ?pay f)) ?fs)"
  have nonneg: "0 \<le> frames * (4 + int pb)" using assms(1) by simp
  have "frames * (4 + int pb) \<le> int its * (frames * (4 + int pb))"
    using mult_right_mono [of 1 "int its" "frames * (4 + int pb)"] nonneg assms(2) by simp
  with assms have res: "frames * (4 + int pb) < 2 ^ 63" by linarith
  have "int its * frames \<le> int its * (frames * (4 + int pb))"
    using assms(1) by (intro mult_left_mono) (simp_all add: distrib_left)
  with assms have items: "int its * frames < 2 ^ 63" by linarith
  have stream: "make_stream tgt pb frames = append_frames tgt pb ?pay [] ?fs"
    using reserve_ok [OF assms(1) res] by (simp add: make_stream_def)
  have len: "int (length ?wire) = frames * (4 + int pb)"
    using assms(1) by (simp add: sum_list_numbered)
  have wire: "pb \<le> 1048576 \<or> frames = 0 \<Longrightarrow> make_stream tgt pb frames = Done ?wire"
    unfolding stream by (auto simp: append_frames_eq)
  have turns: "stream_turns tgt ?wire frames its = Done None" if "pb \<le> 1048576 \<or> frames = 0"
    using stream_turns_frames [of "map (numbered ?pay) ?fs" frames tgt its] assms(1) that
    by (auto simp: list_all_iff fits_bench comp_def)
  show ?thesis
  proof (cases "pb \<le> 1048576 \<or> frames = 0")
    case True
    have "\<not> (?wire = [] \<and> 0 < frames)"
    proof
      assume empty: "?wire = [] \<and> 0 < frames"
      have "frames * (4 + int pb) = int (length ?wire)" by (rule len [symmetric])
      also have "\<dots> = 0" by (simp only: conjunct1 [OF empty] list.size of_nat_0)
      finally have "frames * (4 + int pb) = 0" .
      with empty show False by auto
    qed
    with True wire turns len obtain W where W: "make_stream tgt pb frames = Done W" "\<not> (W = [] \<and> 0 < frames)"
      "stream_turns tgt W frames its = Done None" "int (length W) = frames * (4 + int pb)" by blast
    have "i64_mult (int its) (frames * (4 + int pb)) = Done (int its * (frames * (4 + int pb)))"
      "i64_mult (int its) frames = Done (int its * frames)"
      by (rule i64_mult_ok; use assms items in simp)+
    with True show ?thesis by (simp only: BM_decode_stream_def W bind_outcome.simps if_False if_True option.case)
  next
    case False
    then have "0 < frames" using assms(1) by simp
    with False show ?thesis
      by (simp add: BM_decode_stream_def stream append_frames_too_large)
  qed
qed

lemma bench_decodes_stream_witness:
  "BM_decode_stream \<lparr>build_mode = Debug, native_endian = Little\<rparr> 64 256 10 = Done (Processed 174080 2560) \<and>
   BM_decode_stream \<lparr>build_mode = Debug, native_endian = Little\<rparr> 1048577 1 10 = Done (Skipped ''encode stream failed'')"
  using bench_decodes_stream [of 256 10 64] bench_decodes_stream [of 1 10 1048577] by simp

lemma bench_decodes_frame:
  assumes "int its * (4 + int pb) < 2 ^ 63"
  shows "BM_decode_single_frame tgt pb its =
    (if pb \<le> 1048576 then Done (Processed (int its * (4 + int pb)) 0) else Done (Skipped ''encode failed''))"
proof -
  let ?pay = "map (\<lambda>i. ucast ((of_nat i :: u64) AND 255)) [0..<pb] :: byte list"
  have "make_wire tgt pb = Done (if pb \<le> 1048576 then frame ?pay else [])"
    by (simp add: make_wire_def append_encoded_frame_eq fits_bench)
  then show ?thesis
    using assms by (simp add: BM_decode_single_frame_def k_frame_length_field_bytes_def single_turns_frame
      fits_bench i64_mult_ok)
qed

section \<open>The fuzz harness\<close>

definition k_fuzz_max_payload_bytes :: u64 where
  "k_fuzz_max_payload_bytes = 65536"

definition run_decode :: "target \<Rightarrow> byte list \<Rightarrow> unit outcome" where
  "run_decode tgt buffer = bind_outcome (try_decode_frame tgt buffer k_fuzz_max_payload_bytes) (\<lambda>_. Done ())"

definition LLVMFuzzerTestOneInput :: "target \<Rightarrow> byte list \<Rightarrow> int outcome" where
  "LLVMFuzzerTestOneInput tgt input = bind_outcome (run_decode tgt input) (\<lambda>_. Done 0)"

definition read_all_binary :: "string \<Rightarrow> byte list" where
  "read_all_binary chunk = map of_char chunk"

text \<open>The standalone program: its arguments, standard input and the files that can be opened give its exit
  status.\<close>

definition fuzz_main :: "target \<Rightarrow> string list \<Rightarrow> string \<Rightarrow> (string \<Rightarrow> string option) \<Rightarrow> int outcome" where
  "fuzz_main tgt argv stdin file =
     (if length argv \<noteq> 2 then Done 1
      else
        let arg = argv ! 1
        in if arg = ''-'' then bind_outcome (run_decode tgt (read_all_binary stdin)) (\<lambda>_. Done 0)
           else (case file arg of
                   None \<Rightarrow> Done 2
                 | Some content \<Rightarrow> bind_outcome (run_decode tgt (read_all_binary content)) (\<lambda>_. Done 0)))"

text \<open>The decoder fails on no input, so the fuzzer's entry point always returns 0 and the program's exit status only
  tells whether it was called properly.\<close>

lemma run_decode_total [simp]: "run_decode tgt input = Done ()"
  by (simp add: run_decode_def try_decode_frame_eq)

lemma fuzz_entry_total: "LLVMFuzzerTestOneInput tgt input = Done 0"
  by (simp add: LLVMFuzzerTestOneInput_def)

lemma fuzz_main_status:
  "fuzz_main tgt argv stdin file =
     Done (if length argv \<noteq> 2 then 1 else if argv ! 1 \<noteq> ''-'' \<and> file (argv ! 1) = None then 2 else 0)"
  by (simp add: fuzz_main_def Let_def split: option.split)

end
