(* ===== verification/Echo_Benchmark.thy ===== *)
theory Echo_Benchmark
  imports Echo_Client Server_Returns Harness
begin

text \<open>
  The two benchmarks of \<^verbatim>\<open>benchmarks/e2e_echo_benchmark.cpp\<close> with the set-up and tear-down of their fixture. A client thread is
  a call of \<open>client_worker\<close> with its own kernel; the loads of the shared atomics are what the caller says they
  return. An abort in any thread ends the program, and \<^verbatim>\<open>join\<close> waits for a thread that does not return (\<open>None\<close>).
\<close>

section \<open>The fixture\<close>

record EchoE2EFixture =
  server_port :: u16
  listening :: bool
  stop :: bool
  completions_ :: int
  server_joinable :: bool

text \<open>\<open>loads\<close> are the values of \<^verbatim>\<open>listening_\<close> seen by the loop that waits for the server thread, \<open>port\<close> the port
  that thread has stored.\<close>

fun wait_listening :: "bool list \<Rightarrow> unit option" where
  "wait_listening [] = None"
| "wait_listening (b # loads) = (if b then Some () else wait_listening loads)"

definition SetUp :: "NetworkSession \<Rightarrow> bool list \<Rightarrow> u16 \<Rightarrow> EchoE2EFixture outcome option" where
  "SetUp net loads port =
     (if \<not> ns_ok net then Some (Abort ''NetworkSession'')
      else (case wait_listening loads of
              None \<Rightarrow> None
            | Some _ \<Rightarrow>
                Some (if port = 0 then Abort ''server port''
                      else Done \<lparr>server_port = port, listening = True, stop = False, completions_ = 0,
                                 server_joinable = True\<rparr>)))"

text \<open>\<open>server\<close> is what the server thread does in the end, if it does.\<close>

definition TearDown :: "'a outcome option \<Rightarrow> EchoE2EFixture \<Rightarrow> EchoE2EFixture outcome option" where
  "TearDown server fx =
     (let fx1 = fx\<lparr>stop := True\<rparr>
      in if server_joinable fx1
         then map_option (\<lambda>out. bind_outcome out (\<lambda>_. Done (fx1\<lparr>server_joinable := False\<rparr>))) server
         else Some (Done fx1))"

text \<open>Tearing down returns, as the server thread does when its turns are supplied; a second call does not wait.\<close>

lemma TearDown_returns:
  assumes "turns_supplied px 0 tks" "SetUp net loads port = Some (Done fx)"
  shows "\<exists>out. TearDown (run_server tgt px env tks) fx = Some out \<and>
    (\<forall>fx'. out = Done fx' \<longrightarrow> stop fx' \<and> (\<forall>s. TearDown (s :: unit outcome option) fx' = Some (Done fx')))"
proof -
  obtain r where "run_server tgt px env tks = Some r" using run_server_returns [OF assms(1)] by blast
  then show ?thesis by (cases r) (auto simp: TearDown_def Let_def)
qed

section \<open>Client threads\<close>

record client_env =
  ce_socket :: int_ret
  ce_connect :: "u16 \<Rightarrow> int_ret"
  ce_sends :: "send_ret list"
  ce_recvs :: "recv_ret list"

definition run_client ::
  "target \<Rightarrow> u16 \<Rightarrow> int \<Rightarrow> size_t \<Rightarrow> nat \<Rightarrow> client_env \<Rightarrow> syscall list outcome option" where
  "run_client tgt port rtts payload_bytes i env =
     map_option fst (client_worker tgt (ce_socket env) (ce_connect env) port (of_nat i) rtts payload_bytes
       (ce_sends env) (ce_recvs env))"

fun first_failure :: "'a outcome option list \<Rightarrow> unit outcome option" where
  "first_failure [] = None"
| "first_failure (Some (Abort m) # rs) = Some (Abort m)"
| "first_failure (Some (Undefined m) # rs) = Some (Undefined m)"
| "first_failure (_ # rs) = first_failure rs"

definition join_all :: "'a outcome option list \<Rightarrow> unit outcome option" where
  "join_all rs =
     (case first_failure rs of
        Some out \<Rightarrow> Some out
      | None \<Rightarrow> if None \<in> set rs then None else Some (Done ()))"

text \<open>The loop that waits until the counter reaches the expected value or the time is up: what each turn loads, and
  whether the deadline is still ahead.\<close>

fun settle :: "int \<Rightarrow> (int \<times> bool) list \<Rightarrow> unit option" where
  "settle expected [] = None"
| "settle expected ((seen, in_time) # polls) =
     (if seen \<noteq> expected \<and> in_time then settle expected polls else Some ())"

section \<open>The benchmarks\<close>

text \<open>One iteration: the clients' kernels, and the loads of \<^verbatim>\<open>completions_\<close>, the last one after the loop.\<close>

record iteration =
  it_client :: "nat \<Rightarrow> client_env"
  it_polls :: "(int \<times> bool) list"
  it_count :: int

definition int_mult :: "int \<Rightarrow> int \<Rightarrow> int outcome" where
  "int_mult a b = (if - (2 ^ 31) \<le> a * b \<and> a * b < 2 ^ 31 then Done (a * b) else Undefined ''signed overflow'')"

fun echo_turns :: "(iteration \<Rightarrow> unit outcome option) \<Rightarrow> int \<Rightarrow> iteration list \<Rightarrow> string option outcome option" where
  "echo_turns run expected [] = Some (Done None)"
| "echo_turns run expected (it # its) =
     (case run it of
        None \<Rightarrow> None
      | Some (Abort m) \<Rightarrow> Some (Abort m)
      | Some (Undefined m) \<Rightarrow> Some (Undefined m)
      | Some (Done _) \<Rightarrow>
          (case settle expected (it_polls it) of
             None \<Rightarrow> None
           | Some _ \<Rightarrow>
               if it_count it \<noteq> expected then Some (Done (Some ''completion count mismatch''))
               else echo_turns run expected its))"

definition echo_report :: "int \<Rightarrow> nat \<Rightarrow> string option \<Rightarrow> bench outcome" where
  "echo_report expected n skipped =
     (case skipped of
        Some m \<Rightarrow> Done (Skipped m)
      | None \<Rightarrow> bind_outcome (i64_mult (int n) expected) (\<lambda>items. Done (Processed 0 items)))"

definition EchoConcurrent ::
  "target \<Rightarrow> EchoE2EFixture \<Rightarrow> int \<Rightarrow> int \<Rightarrow> size_t \<Rightarrow> iteration list \<Rightarrow> bench outcome option" where
  "EchoConcurrent tgt fx concurrency rtts payload_bytes its =
     (if concurrency \<le> 0 \<or> rtts \<le> 0 then Some (Done (Skipped ''invalid args''))
      else (case int_mult concurrency rtts of
              Abort m \<Rightarrow> Some (Abort m)
            | Undefined m \<Rightarrow> Some (Undefined m)
            | Done expected \<Rightarrow>
                map_option (\<lambda>out. bind_outcome out (echo_report expected (length its)))
                  (echo_turns
                    (\<lambda>it. join_all (map (\<lambda>i. run_client tgt (server_port fx) rtts payload_bytes i (it_client it i))
                                     [0..<nat concurrency]))
                    expected its)))"

definition EchoSinglePipelined ::
  "target \<Rightarrow> EchoE2EFixture \<Rightarrow> int \<Rightarrow> size_t \<Rightarrow> iteration list \<Rightarrow> bench outcome option" where
  "EchoSinglePipelined tgt fx rtts payload_bytes its =
     (if rtts \<le> 0 then Some (Done (Skipped ''invalid args''))
      else
        map_option (\<lambda>out. bind_outcome out (echo_report rtts (length its)))
          (echo_turns
            (\<lambda>it. map_option (\<lambda>out. bind_outcome out (\<lambda>_. Done ()))
                    (run_client tgt (server_port fx) rtts payload_bytes 0 (it_client it 0)))
            rtts its))"

section \<open>What they report\<close>

text \<open>A client whose kernel connects it and, in every round, takes the request and delivers its echo, in any pieces.\<close>

definition echoing :: "u16 \<Rightarrow> int \<Rightarrow> size_t \<Rightarrow> nat \<Rightarrow> client_env \<Rightarrow> bool" where
  "echoing port rtts pb i env \<longleftrightarrow> 0 \<le> rc (ce_socket env) \<and> rc (ce_connect env port) = 0 \<and>
     (\<exists>sss css. length sss = nat rtts \<and> length css = nat rtts \<and>
        ce_sends env = concat sss \<and> ce_recvs env = concat (map (map Received) css) \<and>
        (\<forall>ss\<in>set sss. send_all (frame (make_payload pb (of_nat i))) 0 ss = Some (Done (), [])) \<and>
        (\<forall>cs\<in>set css. concat cs = frame (make_payload pb (of_nat i)) \<and> [] \<notin> set cs))"

lemma run_client_echoing:
  assumes "echoing port rtts pb i env" "pb \<le> 2 ^ 20" "0 \<le> rtts"
  shows "\<exists>calls. run_client tgt port rtts pb i env = Some (Done calls)"
proof -
  from assms(1) obtain sss css where e: "0 \<le> rc (ce_socket env)" "rc (ce_connect env port) = 0"
    "length sss = nat rtts" "length css = nat rtts" "ce_sends env = concat sss"
    "ce_recvs env = concat (map (map Received) css)"
    "\<forall>ss\<in>set sss. send_all (frame (make_payload pb (of_nat i))) 0 ss = Some (Done (), [])"
    "\<forall>cs\<in>set css. concat cs = frame (make_payload pb (of_nat i)) \<and> [] \<notin> set cs"
    by (auto simp: echoing_def)
  from client_worker_completes [where connecting = "ce_connect env" and port = port and tgt = tgt, OF e(1,2) assms(2,3) e(3,4,7,8)] e(5,6)
  show ?thesis by (auto simp: run_client_def)
qed

lemma join_all_Done: "\<forall>r\<in>set rs. \<exists>x. r = Some (Done x) \<Longrightarrow> join_all rs = Some (Done ())"
proof -
  assume r: "\<forall>r\<in>set rs. \<exists>x. r = Some (Done x)"
  then have "first_failure rs = None" by (induction rs) auto
  moreover have "None \<notin> set rs" using r by auto
  ultimately show ?thesis by (simp add: join_all_def)
qed

lemma settle_reached: "c \<in> set polls \<Longrightarrow> fst c = expected \<Longrightarrow> settle expected polls = Some ()"
  by (induction expected polls rule: settle.induct) auto

lemma echo_turns_Done:
  assumes "\<And>it. it \<in> set its \<Longrightarrow> run it = Some (Done ())"
    and "\<forall>it\<in>set its. expected \<in> fst ` set (it_polls it) \<and> it_count it = expected"
  shows "echo_turns run expected its = Some (Done None)"
  using assms
proof (induction its)
  case (Cons it its)
  then obtain c where "c \<in> set (it_polls it)" "fst c = expected" by auto
  from settle_reached [OF this] Cons show ?case by simp
qed simp

text \<open>The echo benchmark measures the round trips it is asked for. With arguments whose product fits an
  \<^verbatim>\<open>int\<close>, a payload within the limit, clients that are echoed in every iteration and a counter that is seen to
  reach the number of round trips, \<^verbatim>\<open>EchoConcurrent\<close> ends without skipping, abort or overflow and reports the
  iterations times the clients times the round trips. If the counter has another value when the wait for it
  ends, the benchmark is skipped instead.\<close>

lemma echo_concurrent_reports:
  assumes "0 < conc" "0 < rtts" "conc * rtts < 2 ^ 31" "int (length its) * (conc * rtts) < 2 ^ 63" "pb \<le> 2 ^ 20"
    and "\<forall>it\<in>set its. \<forall>i<nat conc. echoing (server_port fx) rtts pb i (it_client it i)"
    and "\<forall>it\<in>set its. conc * rtts \<in> fst ` set (it_polls it)"
  shows "(\<forall>it\<in>set its. it_count it = conc * rtts) \<longrightarrow>
      EchoConcurrent tgt fx conc rtts pb its = Some (Done (Processed 0 (int (length its) * (conc * rtts))))"
    and "its \<noteq> [] \<and> it_count (hd its) \<noteq> conc * rtts \<longrightarrow>
      EchoConcurrent tgt fx conc rtts pb its = Some (Done (Skipped ''completion count mismatch''))"
proof -
  let ?run = "\<lambda>it. join_all (map (\<lambda>i. run_client tgt (server_port fx) rtts pb i (it_client it i)) [0..<nat conc])"
  have run: "?run it = Some (Done ())" if "it \<in> set its" for it
    using assms(2,5,6) that by (intro join_all_Done) (auto intro!: run_client_echoing)
  have pos: "0 \<le> conc * rtts" using assms(1,2) by simp
  have im: "int_mult conc rtts = Done (conc * rtts)" using assms(3) pos by (simp add: int_mult_def)
  have "i64_mult (int (length its)) (conc * rtts) = Done (int (length its) * (conc * rtts))"
    using assms(4) pos by (intro i64_mult_ok) simp_all
  then show "(\<forall>it\<in>set its. it_count it = conc * rtts) \<longrightarrow>
      EchoConcurrent tgt fx conc rtts pb its = Some (Done (Processed 0 (int (length its) * (conc * rtts))))"
    using assms(1,2,7) im echo_turns_Done [of its ?run "conc * rtts"] run
    by (auto simp: EchoConcurrent_def echo_report_def)
  show "its \<noteq> [] \<and> it_count (hd its) \<noteq> conc * rtts \<longrightarrow>
      EchoConcurrent tgt fx conc rtts pb its = Some (Done (Skipped ''completion count mismatch''))"
  proof (cases its)
    case (Cons it its')
    with assms(7) obtain c where "c \<in> set (it_polls it)" "fst c = conc * rtts" by auto
    from settle_reached [OF this] run [of it] assms(1,2) im Cons show ?thesis
      by (auto simp: EchoConcurrent_def echo_report_def)
  qed simp
qed

end
