(* ===== verification/Idle_Timeout.thy ===== *)
theory Idle_Timeout
  imports Socket Registry
begin

text \<open>
  \<^verbatim>\<open>idle_timeout_manager.cpp\<close> and its header. \<^verbatim>\<open>std::chrono::steady_clock::time_point\<close> is a count of
  nanoseconds and \<^verbatim>\<open>std::chrono::milliseconds\<close> a count of milliseconds, both 64-bit signed; comparing
  a difference with the limit converts milliseconds to nanoseconds. A result outside the signed
  64-bit range is undefined behaviour in C++ and a branch here. The iteration order of the
  \<^verbatim>\<open>std::unordered_map\<close> is an argument.
\<close>

type_synonym time_point = int

record IdleTimeoutManager =
  idle_after :: int
  last_activity :: "NativeSocket \<rightharpoonup> time_point"

definition IdleTimeoutManager_new :: "int \<Rightarrow> IdleTimeoutManager" where
  "IdleTimeoutManager_new ms = \<lparr>idle_after = ms, last_activity = Map.empty\<rparr>"

definition register_connection :: "NativeSocket \<Rightarrow> time_point \<Rightarrow> IdleTimeoutManager \<Rightarrow> IdleTimeoutManager" where
  "register_connection socket now m = m\<lparr>last_activity := (last_activity m)(socket \<mapsto> now)\<rparr>"

definition unregister_connection :: "NativeSocket \<Rightarrow> IdleTimeoutManager \<Rightarrow> IdleTimeoutManager" where
  "unregister_connection socket m = m\<lparr>last_activity := (last_activity m)(socket := None)\<rparr>"

definition touch_activity :: "NativeSocket \<Rightarrow> time_point \<Rightarrow> IdleTimeoutManager \<Rightarrow> IdleTimeoutManager" where
  "touch_activity socket now m =
     (case last_activity m socket of
        Some _ \<Rightarrow> m\<lparr>last_activity := (last_activity m)(socket \<mapsto> now)\<rparr>
      | None \<Rightarrow> m)"

definition in_i64 :: "int \<Rightarrow> bool" where
  "in_i64 x \<longleftrightarrow> - (2 ^ 63) \<le> x \<and> x < 2 ^ 63"

definition chrono :: "int \<Rightarrow> int outcome" where
  "chrono x = (if in_i64 x then Done x else Undefined ''chrono overflow'')"

text \<open>The comparison \<^verbatim>\<open>now - it->second >= idle_after_\<close>.\<close>

definition is_idle :: "int \<Rightarrow> time_point \<Rightarrow> time_point \<Rightarrow> bool outcome" where
  "is_idle ms now seen =
     bind_outcome (chrono (now - seen)) (\<lambda>d.
     bind_outcome (chrono (ms * 1000000)) (\<lambda>limit. Done (d \<ge> limit)))"

text \<open>The loop over the map: erase an expired entry and report it, or step over it.\<close>

fun expire_loop ::
  "int \<Rightarrow> time_point \<Rightarrow> NativeSocket list \<Rightarrow> NativeSocket list \<Rightarrow> (NativeSocket \<rightharpoonup> time_point) \<Rightarrow>
     (NativeSocket list \<times> (NativeSocket \<rightharpoonup> time_point)) outcome" where
  "expire_loop ms now [] expired act = Done (expired, act)"
| "expire_loop ms now (s # order) expired act =
     (case act s of
        None \<Rightarrow> expire_loop ms now order expired act
      | Some seen \<Rightarrow>
          bind_outcome (is_idle ms now seen) (\<lambda>idle.
            if idle then expire_loop ms now order (expired @ [s]) (act(s := None))
            else expire_loop ms now order expired act))"

definition poll_expired ::
  "time_point \<Rightarrow> NativeSocket list \<Rightarrow> IdleTimeoutManager \<Rightarrow> (NativeSocket list \<times> IdleTimeoutManager) outcome" where
  "poll_expired now order m =
     (if idle_after m = 0 then Done ([], m)
      else bind_outcome (expire_loop (idle_after m) now order [] (last_activity m))
             (\<lambda>(expired, act). Done (expired, m\<lparr>last_activity := act\<rparr>)))"

definition iterates_activity :: "NativeSocket list \<Rightarrow> IdleTimeoutManager \<Rightarrow> bool" where
  "iterates_activity order m \<longleftrightarrow> distinct order \<and> set order = dom (last_activity m)"

text \<open>No comparison leaves the signed 64-bit range.\<close>

definition clock_ok :: "time_point \<Rightarrow> IdleTimeoutManager \<Rightarrow> bool" where
  "clock_ok now m \<longleftrightarrow> in_i64 (idle_after m * 1000000) \<and>
     (\<forall>s t. last_activity m s = Some t \<longrightarrow> in_i64 (now - t))"

section \<open>Facts\<close>

interpretation activity: registry register_connection unregister_connection last_activity "\<lambda>_. True"
  by unfold_locales (simp_all add: register_connection_def unregister_connection_def)

lemma is_idle_Done:
  "in_i64 (now - t) \<Longrightarrow> in_i64 (ms * 1000000) \<Longrightarrow> is_idle ms now t = Done (ms * 1000000 \<le> now - t)"
  by (simp add: is_idle_def chrono_def)

definition idle_in :: "int \<Rightarrow> time_point \<Rightarrow> (NativeSocket \<rightharpoonup> time_point) \<Rightarrow> NativeSocket \<Rightarrow> bool" where
  "idle_in ms now act s \<longleftrightarrow> (case act s of None \<Rightarrow> False | Some t \<Rightarrow> ms * 1000000 \<le> now - t)"

definition expired_at :: "time_point \<Rightarrow> IdleTimeoutManager \<Rightarrow> NativeSocket set" where
  "expired_at now m = {s. \<exists>t. last_activity m s = Some t \<and> idle_after m * 1000000 \<le> now - t}"

lemma idle_in_upd: "idle_in ms now (act(s := None)) x \<longleftrightarrow> x \<noteq> s \<and> idle_in ms now act x"
  by (simp add: idle_in_def)

lemma expire_loop_step:
  assumes "in_i64 (ms * 1000000)" "\<forall>t. act s = Some t \<longrightarrow> in_i64 (now - t)"
  shows "expire_loop ms now (s # order) exp act =
    (if idle_in ms now act s then expire_loop ms now order (exp @ [s]) (act(s := None))
     else expire_loop ms now order exp act)"
  using assms by (auto simp: idle_in_def is_idle_Done split: option.splits)

lemma expire_loop_Done:
  assumes "in_i64 (ms * 1000000)" "\<forall>s t. act s = Some t \<longrightarrow> in_i64 (now - t)" "distinct order"
  shows "expire_loop ms now order exp act =
    Done (exp @ filter (idle_in ms now act) order,
          \<lambda>x. if x \<in> set order \<and> idle_in ms now act x then None else act x)"
  using assms(2,3)
proof (induction order arbitrary: exp act)
  case (Cons s order)
  show ?case
  proof (cases "idle_in ms now act s")
    case True
    have "filter (idle_in ms now (act(s := None))) order = filter (idle_in ms now act) order"
      using Cons.prems(2) by (intro filter_cong) (auto simp: idle_in_upd)
    moreover have "(\<lambda>x. if x \<in> set order \<and> idle_in ms now (act(s := None)) x then None else (act(s := None)) x) =
        (\<lambda>x. if x \<in> set (s # order) \<and> idle_in ms now act x then None else act x)"
      using True by (auto simp: fun_eq_iff idle_in_upd)
    moreover have "expire_loop ms now order (exp @ [s]) (act(s := None)) =
        Done ((exp @ [s]) @ filter (idle_in ms now (act(s := None))) order,
          \<lambda>x. if x \<in> set order \<and> idle_in ms now (act(s := None)) x then None else (act(s := None)) x)"
      by (rule Cons.IH) (use Cons.prems in auto)
    moreover have "expire_loop ms now (s # order) exp act = expire_loop ms now order (exp @ [s]) (act(s := None))"
      using expire_loop_step [OF assms(1), of act s now order exp] Cons.prems(1) True by (metis (full_types))
    ultimately show ?thesis using True by (simp del: expire_loop.simps)
  next
    case False
    have "(\<lambda>x. if x \<in> set order \<and> idle_in ms now act x then None else act x) =
        (\<lambda>x. if x \<in> set (s # order) \<and> idle_in ms now act x then None else act x)"
      using False by (auto simp: fun_eq_iff)
    moreover have "expire_loop ms now order exp act =
        Done (exp @ filter (idle_in ms now act) order,
          \<lambda>x. if x \<in> set order \<and> idle_in ms now act x then None else act x)"
      by (rule Cons.IH) (use Cons.prems in auto)
    moreover have "expire_loop ms now (s # order) exp act = expire_loop ms now order exp act"
      using expire_loop_step [OF assms(1), of act s now order exp] Cons.prems(1) False by (metis (full_types))
    ultimately show ?thesis using False by (simp del: expire_loop.simps)
  qed
qed simp

lemma idle_in_expired: "idle_in (idle_after m) now (last_activity m) s \<longleftrightarrow> s \<in> expired_at now m"
  by (auto simp: idle_in_def expired_at_def split: option.splits)

lemma poll_expired_eq:
  assumes "iterates_activity order m" "clock_ok now m" "idle_after m \<noteq> 0"
  shows "poll_expired now order m =
    Done (filter (\<lambda>s. s \<in> expired_at now m) order,
          m\<lparr>last_activity := (last_activity m) |` (- expired_at now m)\<rparr>)"
proof -
  have idle: "idle_in (idle_after m) now (last_activity m) = (\<lambda>s. s \<in> expired_at now m)"
    by (simp add: fun_eq_iff idle_in_expired)
  have "expire_loop (idle_after m) now order [] (last_activity m) =
      Done (filter (\<lambda>s. s \<in> expired_at now m) order,
        \<lambda>s. if s \<in> set order \<and> s \<in> expired_at now m then None else last_activity m s)"
    using expire_loop_Done [of "idle_after m" "last_activity m" now order "[]"] assms
    by (simp add: clock_ok_def iterates_activity_def idle)
  moreover have "(\<lambda>s. if s \<in> set order \<and> s \<in> expired_at now m then None else last_activity m s) =
      (last_activity m) |` (- expired_at now m)"
    using assms(1) by (auto simp: fun_eq_iff restrict_map_def iterates_activity_def expired_at_def)
  ultimately show ?thesis using assms(3) by (simp add: poll_expired_def)
qed

lemma poll_expired_total:
  assumes "iterates_activity order m" "clock_ok now m"
  shows "\<exists>ex m'. poll_expired now order m = Done (ex, m') \<and> distinct ex \<and>
    set ex = (if idle_after m = 0 then {} else expired_at now m) \<and>
    m' = m\<lparr>last_activity := (last_activity m) |` (- set ex)\<rparr>"
proof (cases "idle_after m = 0")
  case True
  then show ?thesis by (simp add: poll_expired_def restrict_map_def)
next
  case False
  have "expired_at now m \<subseteq> set order"
    using assms(1) by (auto simp: expired_at_def iterates_activity_def)
  then have "set (filter (\<lambda>s. s \<in> expired_at now m) order) = expired_at now m" by auto
  with poll_expired_eq [OF assms False] assms(1) False show ?thesis
    by (simp add: iterates_activity_def)
qed

section \<open>Properties\<close>

text \<open>C35: A poll evicts exactly the idle sockets. Whatever order the registry is iterated in, polling
  at time \<open>now\<close> returns, each once, exactly the registered sockets whose last activity is at least the
  limit ago (none when the limit is zero), removes exactly those from the registry, and leaves every
  other entry and the limit as they were.\<close>

theorem idle_poll_exact:
  assumes "iterates_activity order m" and "clock_ok now m"
  shows "\<exists>ex m'. poll_expired now order m = Done (ex, m') \<and> distinct ex \<and>
    (\<forall>s. s \<in> set ex \<longleftrightarrow> idle_after m \<noteq> 0 \<and>
       (\<exists>t. last_activity m s = Some t \<and> idle_after m * 1000000 \<le> now - t)) \<and>
    (\<forall>s. last_activity m' s = (if s \<in> set ex then None else last_activity m s)) \<and>
    idle_after m' = idle_after m"
  using poll_expired_total [OF assms] by (fastforce simp: expired_at_def restrict_map_def)

definition idle_demo :: IdleTimeoutManager where
  "idle_demo = register_connection 102 80000000 (register_connection 101 0 (IdleTimeoutManager_new 100))"

theorem idle_poll_exact_witness:
  "\<exists>ex m'. poll_expired 110000000 [102, 101] idle_demo = Done (ex, m') \<and> distinct ex \<and>
    (\<forall>s. s \<in> set ex \<longleftrightarrow> idle_after idle_demo \<noteq> 0 \<and>
       (\<exists>t. last_activity idle_demo s = Some t \<and> idle_after idle_demo * 1000000 \<le> 110000000 - t)) \<and>
    (\<forall>s. last_activity m' s = (if s \<in> set ex then None else last_activity idle_demo s)) \<and>
    idle_after m' = idle_after idle_demo"
  by (rule idle_poll_exact)
    (auto simp: idle_demo_def register_connection_def IdleTimeoutManager_new_def iterates_activity_def
      clock_ok_def in_i64_def split: if_splits)

text \<open>Activity protects, and eviction happens once. A socket touched at \<open>t0\<close> while registered is not
  evicted by a poll less than the limit later and keeps \<open>t0\<close> as its last activity; touching or
  unregistering an unknown socket changes nothing; an unregistered socket is not evicted; and two
  successive polls never return the same socket.\<close>

lemma idle_activity_protects:
  assumes "iterates_activity order m" and "clock_ok now m"
    and "poll_expired now order m = Done (ex, m1)"
  shows "(\<forall>m0 t0 s. m = touch_activity s t0 m0 \<and> last_activity m0 s \<noteq> None \<and> now - t0 < idle_after m0 * 1000000 \<longrightarrow>
      s \<notin> set ex \<and> last_activity m1 s = Some t0) \<and>
    (\<forall>m0 s. m = unregister_connection s m0 \<longrightarrow> s \<notin> set ex) \<and>
    (\<forall>m0 t0 s. last_activity m0 s = None \<longrightarrow>
      touch_activity s t0 m0 = m0 \<and> unregister_connection s m0 = m0) \<and>
    (\<forall>now2 order2 ex2 m2. iterates_activity order2 m1 \<and> clock_ok now2 m1 \<and>
      poll_expired now2 order2 m1 = Done (ex2, m2) \<longrightarrow> set ex \<inter> set ex2 = {})"
proof -
  from poll_expired_total [OF assms(1,2)] assms(3) have
    ex: "set ex = (if idle_after m = 0 then {} else expired_at now m)" and
    m1: "m1 = m\<lparr>last_activity := (last_activity m) |` (- set ex)\<rparr>" by auto
  have two: "set ex \<inter> set ex2 = {}"
    if "iterates_activity order2 m1" "clock_ok now2 m1" "poll_expired now2 order2 m1 = Done (ex2, m2)"
    for now2 order2 ex2 m2
    using poll_expired_total [OF that(1,2)] that(3) m1 by (auto simp: expired_at_def split: if_splits)
  have touched: "s \<notin> set ex \<and> last_activity m1 s = Some t0"
    if "m = touch_activity s t0 m0" "last_activity m0 s \<noteq> None" "now - t0 < idle_after m0 * 1000000" for m0 t0 s
    using ex m1 that by (auto simp: touch_activity_def expired_at_def restrict_map_def split: if_splits)
  have gone: "s \<notin> set ex" if "m = unregister_connection s m0" for m0 s
    using ex that by (auto simp: unregister_connection_def expired_at_def split: if_splits)
  have unknown: "touch_activity s t0 m0 = m0 \<and> unregister_connection s m0 = m0"
    if "last_activity m0 s = None" for m0 t0 s
    using that by (simp add: touch_activity_def unregister_connection_def fun_upd_idem)
  show ?thesis using touched gone unknown two by blast
qed

lemma idle_activity_protects_witness:
  "101 \<notin> set ([102] :: NativeSocket list)"
proof -
  let ?m = "touch_activity 101 100000000 idle_demo"
  have "poll_expired 190000000 [102, 101] ?m =
      Done ([102], ?m\<lparr>last_activity := (last_activity ?m)(102 := None)\<rparr>)"
    by (simp add: idle_demo_def register_connection_def IdleTimeoutManager_new_def touch_activity_def
        poll_expired_def is_idle_def chrono_def in_i64_def)
  from idle_activity_protects [OF _ _ this] show ?thesis
    by (auto simp: idle_demo_def register_connection_def IdleTimeoutManager_new_def iterates_activity_def
        clock_ok_def in_i64_def touch_activity_def split: if_splits)
qed

text \<open>No clock overflow with a configured limit. The configuration's \<^verbatim>\<open>timeouts.idle_ms\<close> is a 32-bit
  unsigned number of milliseconds; with such a limit, and a steady clock whose readings are not
  negative, no poll overflows the signed 64-bit arithmetic: every poll returns.\<close>

lemma idle_no_overflow:
  assumes "idle_after m = uint (idle_ms :: u32)" and "iterates_activity order m"
    and "0 \<le> now" "now < 2 ^ 63"
    and "\<forall>s t. last_activity m s = Some t \<longrightarrow> 0 \<le> t \<and> t < 2 ^ 63"
  shows "\<exists>ex m'. poll_expired now order m = Done (ex, m')"
proof -
  have small: "in_i64 (x * 1000000)" if "0 \<le> x" "x < 4294967296" for x :: int
    using that by (simp add: in_i64_def)
  have "uint idle_ms < 4294967296" using uint_lt2p [of idle_ms] by simp
  then have "in_i64 (idle_after m * 1000000)"
    unfolding assms(1) by (intro small) simp_all
  moreover have "in_i64 (now - t)" if "last_activity m s = Some t" for s t
  proof -
    from that assms(5) have "0 \<le> t" "t < 2 ^ 63" by auto
    with assms(3,4) show ?thesis by (simp add: in_i64_def)
  qed
  ultimately have "clock_ok now m" by (simp add: clock_ok_def)
  with poll_expired_total [OF assms(2)] show ?thesis by blast
qed

lemma idle_no_overflow_witness:
  "\<exists>ex m'. poll_expired 9223372036854775807 [101]
     (register_connection 101 0 (IdleTimeoutManager_new 4294967295)) = Done (ex, m')"
  by (rule idle_no_overflow [where idle_ms = "4294967295"])
    (auto simp: register_connection_def IdleTimeoutManager_new_def iterates_activity_def split: if_splits)

end
