(* ===== verification/Lifecycle.thy ===== *)
theory Lifecycle
  imports Prelude
begin

text \<open>
  \<^verbatim>\<open>lifecycle.cpp\<close> and its header: the shutdown coordinator. Its only state is one atomic phase, shared by
  every thread that calls it, so each operation is modelled as the sequence of atomic accesses it
  makes (a program counter per thread), and any schedule may interleave them. \<^verbatim>\<open>compare_exchange_weak\<close>
  may fail spuriously. All accesses are to one atomic object with acquire and release orders, so its
  modification order gives interleaving semantics.
\<close>

section \<open>Phases\<close>

datatype ShutdownPhase = Running | Draining | Stopped

fun phase_value :: "ShutdownPhase \<Rightarrow> nat" where
  "phase_value Running = 0"
| "phase_value Draining = 1"
| "phase_value Stopped = 2"

text \<open>The order of the enumeration's values.\<close>

instantiation ShutdownPhase :: linorder
begin

definition less_eq_ShutdownPhase :: "ShutdownPhase \<Rightarrow> ShutdownPhase \<Rightarrow> bool" where
  "p \<le> q \<longleftrightarrow> phase_value p \<le> phase_value q"

definition less_ShutdownPhase :: "ShutdownPhase \<Rightarrow> ShutdownPhase \<Rightarrow> bool" where
  "p < q \<longleftrightarrow> phase_value p < phase_value q"

instance
proof
  fix p q :: ShutdownPhase
  show "p \<le> q \<Longrightarrow> q \<le> p \<Longrightarrow> p = q"
    by (cases p; cases q) (simp_all add: less_eq_ShutdownPhase_def)
qed (auto simp: less_eq_ShutdownPhase_def less_ShutdownPhase_def)

end

lemma phase_order [simp]:
  "Running \<le> p" "p \<le> Stopped"
  "Draining \<le> p \<longleftrightarrow> p \<noteq> Running" "p \<le> Draining \<longleftrightarrow> p \<noteq> Stopped"
  "Stopped \<le> p \<longleftrightarrow> p = Stopped" "p \<le> Running \<longleftrightarrow> p = Running"
  by (cases p; simp add: less_eq_ShutdownPhase_def)+

definition should_accept_new_connections :: "ShutdownPhase \<Rightarrow> bool" where
  "should_accept_new_connections ph \<longleftrightarrow> ph = Running"

definition should_poll_network :: "ShutdownPhase \<Rightarrow> bool" where
  "should_poll_network ph \<longleftrightarrow> ph \<noteq> Stopped"

section \<open>Operations, one atomic access at a time\<close>

text \<open>The arguments of \<^verbatim>\<open>try_advance_to_stopped_if_drained\<close>.\<close>

record drain_args =
  listener_stopped :: bool
  active_connection_count :: size_t
  any_connection_has_pending_writes :: bool

definition drained_args :: "drain_args \<Rightarrow> bool" where
  "drained_args a \<longleftrightarrow> \<not> (\<not> listener_stopped a \<or> active_connection_count a > 0 \<or>
     any_connection_has_pending_writes a)"

text \<open>
  Where a thread is: outside; in \<^verbatim>\<open>request_shutdown\<close> before the load, before the exchange (with the
  value loaded) and before the assertion after it; in \<^verbatim>\<open>try_advance_to_stopped_if_drained\<close> before the
  first load, before the assertions, before the exchange and before the last assertion.
\<close>

datatype pc =
    Outside
  | R_Load | R_Exchange ShutdownPhase | R_Assert
  | T_Load drain_args | T_Assert drain_args | T_Exchange | T_Final

datatype lifecycle_call = Request | Advance drain_args

fun entry :: "lifecycle_call \<Rightarrow> pc" where
  "entry Request = R_Load"
| "entry (Advance a) = T_Load a"

text \<open>One step of a thread; \<open>spurious\<close> makes the weak exchange fail whatever the phase.\<close>

fun pc_step :: "build \<Rightarrow> bool \<Rightarrow> ShutdownPhase \<Rightarrow> pc \<Rightarrow> (ShutdownPhase \<times> pc) outcome" where
  "pc_step b spurious ph Outside = Done (ph, Outside)"
| "pc_step b spurious ph R_Load = Done (ph, if ph \<noteq> Running then Outside else R_Exchange ph)"
| "pc_step b spurious ph (R_Exchange expected) =
     (if ph = expected \<and> \<not> spurious then Done (Draining, R_Assert) else Done (ph, R_Load))"
| "pc_step b spurious ph R_Assert =
     assert_that b ''request_shutdown: phase == Draining'' (ph = Draining) (Done (ph, Outside))"
| "pc_step b spurious ph (T_Load a) =
     Done (ph, if ph \<noteq> Draining then Outside
               else if \<not> listener_stopped a \<or> active_connection_count a > 0 \<or> any_connection_has_pending_writes a
               then Outside else T_Assert a)"
| "pc_step b spurious ph (T_Assert a) =
     assert_that b ''try_advance: phase == Draining'' (ph = Draining)
       (assert_that b ''try_advance: listener_stopped'' (listener_stopped a)
       (assert_that b ''try_advance: no connections'' (active_connection_count a = 0)
       (assert_that b ''try_advance: no pending writes'' (\<not> any_connection_has_pending_writes a)
       (Done (ph, T_Exchange)))))"
| "pc_step b spurious ph T_Exchange = Done (if ph = Draining then Stopped else ph, T_Final)"
| "pc_step b spurious ph T_Final =
     assert_that b ''try_advance: phase == Stopped'' (ph = Stopped) (Done (ph, Outside))"

section \<open>Threads and schedules\<close>

type_synonym tid = nat

record life =
  phase :: ShutdownPhase
  pcs :: "tid \<Rightarrow> pc"

definition life_init :: life where
  "life_init = \<lparr>phase = Running, pcs = (\<lambda>_. Outside)\<rparr>"

datatype move = Start lifecycle_call | Go bool

text \<open>A thread outside may start a call; \<open>Go\<close> runs its next atomic access.\<close>

fun do_move :: "build \<Rightarrow> tid \<Rightarrow> move \<Rightarrow> life \<Rightarrow> life outcome" where
  "do_move b t (Start c) s =
     (if pcs s t = Outside then Done (s\<lparr>pcs := (pcs s)(t := entry c)\<rparr>) else Done s)"
| "do_move b t (Go spurious) s =
     bind_outcome (pc_step b spurious (phase s) (pcs s t)) (\<lambda>(ph, pc').
       Done (s\<lparr>phase := ph, pcs := (pcs s)(t := pc')\<rparr>))"

fun life_run :: "build \<Rightarrow> (tid \<times> move) list \<Rightarrow> life \<Rightarrow> life outcome" where
  "life_run b [] s = Done s"
| "life_run b ((t, m) # ms) s = bind_outcome (do_move b t m s) (life_run b ms)"

lemma life_run_append:
  "life_run b (xs @ ys) s = bind_outcome (life_run b xs s) (life_run b ys)"
  by (induction xs arbitrary: s) (auto simp: bind_outcome_assoc fun_eq_iff intro!: arg_cong [where f = "bind_outcome _"])

text \<open>The states a schedule reaches.\<close>

inductive life_reach :: "build \<Rightarrow> (tid \<times> move) list \<Rightarrow> life \<Rightarrow> bool" for b where
  init: "life_reach b [] life_init"
| move: "life_reach b ms s \<Longrightarrow> do_move b t m s = Done s' \<Longrightarrow> life_reach b (ms @ [(t, m)]) s'"

inductive_cases life_reach_snocE: "life_reach b (ms @ [x]) s"

lemma life_reach_run: "life_reach b ms s \<Longrightarrow> life_run b ms life_init = Done s"
  by (induction rule: life_reach.induct) (simp_all add: life_run_append)

lemma run_life_reach: "life_run b ms life_init = Done s \<Longrightarrow> life_reach b ms s"
proof (induction ms arbitrary: s rule: rev_induct)
  case Nil
  then show ?case by (simp add: life_reach.init)
next
  case (snoc x ms)
  then obtain s0 where "life_run b ms life_init = Done s0" "do_move b (fst x) (snd x) s0 = Done s"
    by (cases x) (auto simp: life_run_append)
  with snoc.IH [of s0] life_reach.move [of b ms s0 "fst x" "snd x" s] show ?case by simp
qed

section \<open>The invariant\<close>

text \<open>
  What a program counter says about the phase and the calls made so far: \<open>req\<close> that some thread has
  requested a shutdown, \<open>adv\<close> that some thread has reported the server drained.
\<close>

fun pc_ok :: "bool \<Rightarrow> bool \<Rightarrow> ShutdownPhase \<Rightarrow> pc \<Rightarrow> bool" where
  "pc_ok req adv ph Outside \<longleftrightarrow> True"
| "pc_ok req adv ph R_Load \<longleftrightarrow> req"
| "pc_ok req adv ph (R_Exchange e) \<longleftrightarrow> req \<and> e = Running"
| "pc_ok req adv ph R_Assert \<longleftrightarrow> ph \<noteq> Running"
| "pc_ok req adv ph (T_Load a) \<longleftrightarrow> (drained_args a \<longrightarrow> adv)"
| "pc_ok req adv ph (T_Assert a) \<longleftrightarrow> adv \<and> drained_args a \<and> ph \<noteq> Running"
| "pc_ok req adv ph T_Exchange \<longleftrightarrow> adv \<and> ph \<noteq> Running"
| "pc_ok req adv ph T_Final \<longleftrightarrow> ph = Stopped"

definition life_ok :: "bool \<Rightarrow> bool \<Rightarrow> life \<Rightarrow> bool" where
  "life_ok req adv s \<longleftrightarrow>
     (phase s \<noteq> Running \<longrightarrow> req) \<and> (phase s = Stopped \<longrightarrow> adv) \<and> (\<forall>t. pc_ok req adv (phase s) (pcs s t))"

lemma pc_ok_mono:
  "pc_ok req adv ph c \<Longrightarrow> ph \<le> ph' \<Longrightarrow> (req \<longrightarrow> req') \<Longrightarrow> (adv \<longrightarrow> adv') \<Longrightarrow> pc_ok req' adv' ph' c"
  by (cases c) (auto simp: less_eq_ShutdownPhase_def, (cases ph; cases ph'; simp)+)

lemma pc_step_ok:
  assumes "pc_ok req adv ph c" "pc_step b sp ph c = Done (ph', c')"
    and "ph \<noteq> Running \<longrightarrow> req" "ph = Stopped \<longrightarrow> adv"
  shows "ph \<le> ph'" "pc_ok req adv ph' c'" "ph' \<noteq> Running \<longrightarrow> req" "ph' = Stopped \<longrightarrow> adv"
  using assms by (cases c; cases ph; auto simp: drained_args_def split: if_splits)+

definition requested :: "(tid \<times> move) list \<Rightarrow> bool" where
  "requested ms \<longleftrightarrow> (\<exists>t. (t, Start Request) \<in> set ms)"

definition drained_reported :: "(tid \<times> move) list \<Rightarrow> bool" where
  "drained_reported ms \<longleftrightarrow> (\<exists>t a. (t, Start (Advance a)) \<in> set ms \<and> drained_args a)"

lemma do_move_ok:
  assumes "life_ok req adv s" "do_move b t m s = Done s'"
    and "req' \<longleftrightarrow> req \<or> m = Start Request" "adv' \<longleftrightarrow> adv \<or> (\<exists>a. m = Start (Advance a) \<and> drained_args a)"
  shows "life_ok req' adv' s'" "phase s \<le> phase s'"
proof -
  have "life_ok req' adv' s' \<and> phase s \<le> phase s'"
  proof (cases m)
    case (Start c)
    have "pc_ok req' adv' (phase s) (pcs s u)" for u
      using assms(1,3,4) by (auto simp: life_ok_def intro: pc_ok_mono)
    with assms Start show ?thesis
      by (cases c) (auto simp: life_ok_def split: if_splits)
  next
    case (Go sp)
    with assms(2) obtain ph c where step: "pc_step b sp (phase s) (pcs s t) = Done (ph, c)"
      and s': "s' = s\<lparr>phase := ph, pcs := (pcs s)(t := c)\<rparr>" by auto
    from assms(1) have ok: "pc_ok req adv (phase s) (pcs s u)" for u by (simp add: life_ok_def)
    from assms(1) have side: "phase s \<noteq> Running \<longrightarrow> req" "phase s = Stopped \<longrightarrow> adv"
      by (simp_all add: life_ok_def)
    note st = pc_step_ok [OF ok [of t] step side]
    have "pc_ok req adv ph (if u = t then c else pcs s u)" for u
      using st(1,2) pc_ok_mono [OF ok [of u] st(1)] by simp
    with st Go assms(3,4) s' show ?thesis by (auto simp: life_ok_def)
  qed
  then show "life_ok req' adv' s'" "phase s \<le> phase s'" by simp_all
qed

lemma life_reach_ok: "life_reach b ms s \<Longrightarrow> life_ok (requested ms) (drained_reported ms) s"
proof (induction rule: life_reach.induct)
  case init
  show ?case by (simp add: life_ok_def life_init_def requested_def drained_reported_def)
next
  case (move ms s t m s')
  show ?case
    by (rule do_move_ok(1) [OF move.IH move.hyps(2)]) (auto simp: requested_def drained_reported_def)
qed

lemma life_run_mono:
  "life_ok req adv s \<Longrightarrow> life_run b ms s = Done s' \<Longrightarrow> phase s \<le> phase s'"
proof (induction ms arbitrary: s req adv)
  case (Cons x ms)
  then obtain s0 where s0: "do_move b (fst x) (snd x) s = Done s0" "life_run b ms s0 = Done s'"
    by (cases x) auto
  from do_move_ok [OF Cons.prems(1) s0(1) refl refl] Cons.IH s0(2)
  show ?case by (meson order_trans)
qed simp

section \<open>Progress\<close>

text \<open>An upper bound on the atomic accesses a thread has left, spurious failures apart.\<close>

fun left :: "ShutdownPhase \<Rightarrow> pc \<Rightarrow> nat" where
  "left ph Outside = 0"
| "left ph R_Load = (if ph = Running then 3 else 1)"
| "left ph (R_Exchange e) = 2"
| "left ph R_Assert = 1"
| "left ph (T_Load a) = 4"
| "left ph (T_Assert a) = 3"
| "left ph T_Exchange = 2"
| "left ph T_Final = 1"

lemma left_le: "left ph c \<le> 4"
  by (cases c) auto

lemma left_zero_iff: "left ph c = 0 \<longleftrightarrow> c = Outside"
  by (cases c) auto

lemma left_mono: "ph \<le> ph' \<Longrightarrow> left ph' c \<le> left ph c"
  by (cases c; cases ph; cases ph') auto

lemma left_step:
  assumes "pc_step b sp ph c = Done (ph', c')" "pc_ok req adv ph c" "c \<noteq> Outside"
  shows "left ph' c' + 1 \<le> left ph c + (if sp then 2 else 0)"
  using assms by (cases c; cases ph) (auto split: if_splits)

definition own_steps :: "tid \<Rightarrow> (tid \<times> move) list \<Rightarrow> nat" where
  "own_steps t ms = length (filter (\<lambda>x. fst x = t) ms)"

definition spurious_steps :: "tid \<Rightarrow> (tid \<times> move) list \<Rightarrow> nat" where
  "spurious_steps t ms = length (filter (\<lambda>x. x = (t, Go True)) ms)"

lemma stays_outside:
  "life_run b ms s = Done s' \<Longrightarrow> pcs s t = Outside \<Longrightarrow> \<forall>c. (t, Start c) \<notin> set ms \<Longrightarrow> pcs s' t = Outside"
proof (induction ms arbitrary: s)
  case (Cons x ms)
  obtain u m where x: "x = (u, m)" by (cases x)
  with Cons.prems obtain s0 where s0: "do_move b u m s = Done s0" "life_run b ms s0 = Done s'" by auto
  have "pcs s0 t = Outside"
    using s0(1) Cons.prems(2,3) x by (cases m) (auto split: if_splits)
  with Cons.IH s0(2) Cons.prems(3) show ?case by simp
qed simp

lemma bounded_steps:
  "life_run b ms s = Done s' \<Longrightarrow> life_ok req adv s \<Longrightarrow> \<forall>c. (t, Start c) \<notin> set ms \<Longrightarrow> pcs s' t \<noteq> Outside \<Longrightarrow>
     left (phase s') (pcs s' t) + own_steps t ms \<le> left (phase s) (pcs s t) + 2 * spurious_steps t ms"
proof (induction ms arbitrary: s req adv)
  case Nil
  then show ?case by (simp add: own_steps_def)
next
  case (Cons x ms)
  obtain u m where x: "x = (u, m)" by (cases x)
  with Cons.prems obtain s0 where s0: "do_move b u m s = Done s0" "life_run b ms s0 = Done s'" by auto
  note ok0 = do_move_ok [OF Cons.prems(2) s0(1) refl refl]
  have IH: "left (phase s') (pcs s' t) + own_steps t ms \<le> left (phase s0) (pcs s0 t) + 2 * spurious_steps t ms"
    using Cons.IH [OF s0(2) ok0(1)] Cons.prems(3,4) by simp
  show ?case
  proof (cases "u = t")
    case False
    then have "pcs s0 t = pcs s t" using s0(1) by (cases m) (auto split: if_splits)
    with IH left_mono [OF ok0(2), of "pcs s t"] False x show ?thesis
      by (simp add: own_steps_def spurious_steps_def)
  next
    case True
    with Cons.prems(3) x obtain sp where m: "m = Go sp" by (cases m) auto
    have "pcs s t \<noteq> Outside"
      using stays_outside [OF Cons.prems(1) _ Cons.prems(3)] Cons.prems(4) by blast
    with s0(1) m True Cons.prems(2) have "left (phase s0) (pcs s0 t) + 1 \<le> left (phase s) (pcs s t) + (if sp then 2 else 0)"
      by (auto simp: life_ok_def dest!: left_step)
    with IH x m True show ?thesis by (auto simp: own_steps_def spurious_steps_def split: if_splits)
  qed
qed

text \<open>What a call has established, or is still about to.\<close>

definition requesting :: "tid \<Rightarrow> life \<Rightarrow> bool" where
  "requesting t s \<longleftrightarrow> phase s \<noteq> Running \<or> pcs s t = R_Load \<or> (\<exists>e. pcs s t = R_Exchange e)"

definition advancing :: "tid \<Rightarrow> life \<Rightarrow> bool" where
  "advancing t s \<longleftrightarrow> phase s \<noteq> Running \<and> (phase s = Stopped \<or>
     (\<exists>a. drained_args a \<and> (pcs s t = T_Load a \<or> pcs s t = T_Assert a)) \<or> pcs s t = T_Exchange)"

lemma do_move_keeps:
  assumes "life_ok req adv s" "do_move b u m s = Done s'" "\<forall>c. u = t \<longrightarrow> m \<noteq> Start c"
  shows "requesting t s \<Longrightarrow> requesting t s'" "advancing t s \<Longrightarrow> advancing t s'"
proof -
  have mono: "phase s \<le> phase s'" by (rule do_move_ok(2) [OF assms(1,2) refl refl])
  have "(requesting t s \<longrightarrow> requesting t s') \<and> (advancing t s \<longrightarrow> advancing t s')"
  proof (cases "u = t")
    case False
    then have "pcs s' t = pcs s t" using assms(2) by (cases m) (auto split: if_splits)
    with mono show ?thesis
      by (cases "phase s"; cases "phase s'") (auto simp: requesting_def advancing_def)
  next
    case True
    with assms(3) obtain sp where "m = Go sp" by (cases m) auto
    with assms(2) True obtain ph c where st: "pc_step b sp (phase s) (pcs s t) = Done (ph, c)"
      and s': "s' = s\<lparr>phase := ph, pcs := (pcs s)(t := c)\<rparr>" by auto
    from assms(1) have "pc_ok req adv (phase s) (pcs s t)" by (simp add: life_ok_def)
    with st mono show ?thesis unfolding s' requesting_def advancing_def
      by (cases "pcs s t"; cases "phase s") (auto simp: drained_args_def split: if_splits)
  qed
  then show "requesting t s \<Longrightarrow> requesting t s'" "advancing t s \<Longrightarrow> advancing t s'" by simp_all
qed

lemma life_run_keeps:
  assumes "life_ok req adv s" "life_run b ms s = Done s'" "\<forall>c. (t, Start c) \<notin> set ms"
  shows "(requesting t s \<longrightarrow> requesting t s') \<and> (advancing t s \<longrightarrow> advancing t s')"
  using assms
proof (induction ms arbitrary: s req adv)
  case (Cons x ms)
  obtain u m where x: "x = (u, m)" by (cases x)
  with Cons.prems obtain s0 where s0: "do_move b u m s = Done s0" "life_run b ms s0 = Done s'" by auto
  have "\<forall>c. u = t \<longrightarrow> m \<noteq> Start c" using Cons.prems(3) x by auto
  note keep = do_move_keeps [OF Cons.prems(1) s0(1) this]
  show ?case
    using Cons.IH [OF do_move_ok(1) [OF Cons.prems(1) s0(1) refl refl] s0(2)] Cons.prems(3) keep by simp
qed simp

section \<open>Properties\<close>

text \<open>C15: The lifecycle is monotone and Stopped means drained. In every interleaving of any number of
  threads: the phase never goes back; it leaves Running only if some thread called
  \<^verbatim>\<open>request_shutdown\<close>, and reaches Stopped only if, besides, some thread called
  \<^verbatim>\<open>try_advance_to_stopped_if_drained\<close> with the listener stopped, no connection and no pending write.
  Once connections are no longer accepted, or the network no longer polled, they never are again.\<close>

theorem lifecycle_monotone:
  assumes "life_run b ms life_init = Done s"
  shows "(phase s \<noteq> Running \<longrightarrow> (\<exists>t. (t, Start Request) \<in> set ms)) \<and>
    (phase s = Stopped \<longrightarrow> (\<exists>t a. (t, Start (Advance a)) \<in> set ms \<and> listener_stopped a \<and>
       active_connection_count a = 0 \<and> \<not> any_connection_has_pending_writes a)) \<and>
    (\<forall>ms' s'. life_run b ms' s = Done s' \<longrightarrow> phase s \<le> phase s' \<and>
       (should_accept_new_connections (phase s') \<longrightarrow> should_accept_new_connections (phase s)) \<and>
       (should_poll_network (phase s') \<longrightarrow> should_poll_network (phase s)))"
proof -
  have ok: "life_ok (requested ms) (drained_reported ms) s"
    by (rule life_reach_ok [OF run_life_reach [OF assms]])
  have mono: "phase s \<le> phase s'" if "life_run b ms' s = Done s'" for ms' s'
    by (rule life_run_mono [OF ok that])
  have "should_accept_new_connections (phase s') \<longrightarrow> should_accept_new_connections (phase s)"
    "should_poll_network (phase s') \<longrightarrow> should_poll_network (phase s)"
    if "life_run b ms' s = Done s'" for ms' s'
    using mono [OF that] by (auto simp: should_accept_new_connections_def should_poll_network_def)
  with ok mono show ?thesis
    by (auto simp: life_ok_def requested_def drained_reported_def drained_args_def)
qed

definition all_drained :: drain_args where
  "all_drained = \<lparr>listener_stopped = True, active_connection_count = 0, any_connection_has_pending_writes = False\<rparr>"

text \<open>An administrator requests shutdown, with one spurious failure; then the I/O thread advances.\<close>

definition demo_schedule :: "(tid \<times> move) list" where
  "demo_schedule = [(1, Start Request), (1, Go False), (1, Go True), (1, Go False), (1, Go False), (1, Go False),
     (0, Start (Advance all_drained)), (0, Go False), (0, Go False), (0, Go False), (0, Go False)]"

lemma demo_schedule_run:
  "\<exists>s. life_run Debug demo_schedule life_init = Done s \<and> phase s = Stopped"
  by (simp add: demo_schedule_def all_drained_def life_init_def)

theorem lifecycle_monotone_witness:
  "\<exists>s. life_run Debug demo_schedule life_init = Done s \<and> phase s = Stopped \<and>
     (\<exists>t. (t, Start Request) \<in> set demo_schedule)"
proof -
  obtain s where s: "life_run Debug demo_schedule life_init = Done s" "phase s = Stopped"
    using demo_schedule_run by blast
  with lifecycle_monotone [OF s(1)] show ?thesis by auto
qed

text \<open>Which assertions hold under interleaving. In a debug build, in every interleaving, the
  assertions on the arguments and the final assertion that the phase is Stopped never fail; the only
  assertions that can are the two that re-read the phase expecting Draining, and each of them fails
  only when the phase is already Stopped.\<close>

lemma lifecycle_assertions:
  assumes "life_run b ms life_init = Done s" and "do_move b t m s = Abort tag"
  shows "b = Debug \<and> phase s = Stopped \<and>
    (tag = ''request_shutdown: phase == Draining'' \<and> pcs s t = R_Assert \<or>
     tag = ''try_advance: phase == Draining'' \<and> (\<exists>a. pcs s t = T_Assert a))"
proof -
  have "life_ok (requested ms) (drained_reported ms) s"
    by (rule life_reach_ok [OF run_life_reach [OF assms(1)]])
  then have ok: "pc_ok (requested ms) (drained_reported ms) (phase s) (pcs s t)"
    by (simp add: life_ok_def)
  from assms(2) obtain sp where "pc_step b sp (phase s) (pcs s t) = Abort tag"
    by (cases m; cases "pc_step b (case m of Go sp \<Rightarrow> sp) (phase s) (pcs s t)") (auto split: if_splits)
  with ok show ?thesis
    by (cases "pcs s t"; cases "phase s")
      (auto simp: assert_that_def drained_args_def split: if_splits)
qed

lemma lifecycle_assertions_witness:
  "phase \<lparr>phase = Stopped, pcs = (\<lambda>_. Outside)(0 := T_Final, 1 := R_Assert)\<rparr> = Stopped"
proof -
  let ?ms = "[(1, Start Request), (1, Go False), (1, Go False), (0, Start (Advance all_drained)),
      (0, Go False), (0, Go False), (0, Go False)] :: (tid \<times> move) list"
  let ?s = "\<lparr>phase = Stopped, pcs = (\<lambda>_. Outside)(0 := T_Final, 1 := R_Assert)\<rparr>"
  have r: "life_run Debug ?ms life_init = Done ?s"
    by (simp add: all_drained_def life_init_def fun_upd_twist)
  have "do_move Debug 1 (Go False) ?s = Abort ''request_shutdown: phase == Draining''"
    by (simp add: assert_that_Debug)
  from lifecycle_assertions [OF r this] show ?thesis by blast
qed

text \<open>Two threads that advance at the same time, which the header rules out, defeat the other one.\<close>

definition peer_schedule :: "(tid \<times> move) list" where
  "peer_schedule = [(1, Start Request), (1, Go False), (1, Go False), (1, Go False),
     (0, Start (Advance all_drained)), (2, Start (Advance all_drained)), (0, Go False), (2, Go False),
     (0, Go False), (0, Go False)]"

lemma peers_race:
  "\<exists>s. life_run Debug peer_schedule life_init = Done s \<and>
     do_move Debug 2 (Go False) s = Abort ''try_advance: phase == Draining''"
  by (simp add: peer_schedule_def all_drained_def life_init_def assert_that_Debug)

text \<open>With a single thread that advances, only that thread is inside \<^verbatim>\<open>try_advance_to_stopped_if_drained\<close>, and the
  phase stays Draining from its load to its exchange.\<close>

fun advances :: "pc \<Rightarrow> bool" where
  "advances (T_Load a) = True"
| "advances (T_Assert a) = True"
| "advances T_Exchange = True"
| "advances T_Final = True"
| "advances _ = False"

definition sole_advancer :: "tid \<Rightarrow> life \<Rightarrow> bool" where
  "sole_advancer io s \<longleftrightarrow>
     (\<forall>t. advances (pcs s t) \<longrightarrow> t = io) \<and> (\<forall>a. pcs s io = T_Assert a \<longrightarrow> phase s = Draining)"

lemma pc_step_advances:
  assumes "pc_step b sp ph c = Done (ph', c')" "pc_ok req adv ph c"
  shows "advances c' \<Longrightarrow> advances c" "c' = T_Assert a \<Longrightarrow> ph' = Draining"
    "\<not> advances c \<Longrightarrow> ph = Draining \<Longrightarrow> ph' = Draining"
  using assms by (cases c; cases ph; auto split: if_splits)+

lemma sole_advancer_move:
  assumes "sole_advancer io s" "do_move b t m s = Done s'" "\<forall>a. m = Start (Advance a) \<longrightarrow> t = io"
    and "life_ok req adv s"
  shows "sole_advancer io s'"
proof (cases m)
  case (Start c)
  with assms(1-3) show ?thesis by (cases c) (auto simp: sole_advancer_def split: if_splits)
next
  case (Go sp)
  with assms(2) obtain ph pc' where st: "pc_step b sp (phase s) (pcs s t) = Done (ph, pc')"
    "s' = s\<lparr>phase := ph, pcs := (pcs s)(t := pc')\<rparr>" by (auto simp: bind_outcome_Done_iff)
  from assms(4) have ok: "pc_ok req adv (phase s) (pcs s t)" by (simp add: life_ok_def)
  note step = pc_step_advances [OF st(1) ok]
  have "ph = Draining" if "pcs s' io = T_Assert a" for a
  proof (cases "t = io")
    case True
    with that st(2) step(2) show ?thesis by simp
  next
    case False
    with that st(2) assms(1) have "phase s = Draining" "\<not> advances (pcs s t)" by (auto simp: sole_advancer_def)
    with step(3) show ?thesis by blast
  qed
  moreover have "u = io" if "advances (pcs s' u)" for u
    using that st(2) assms(1) step(1) by (cases "u = t") (auto simp: sole_advancer_def)
  ultimately show ?thesis using st(2) by (simp add: sole_advancer_def)
qed

lemma sole_advancer_reach:
  "life_reach b ms s \<Longrightarrow> \<forall>t a. (t, Start (Advance a)) \<in> set ms \<longrightarrow> t = io \<Longrightarrow> sole_advancer io s"
proof (induction rule: life_reach.induct)
  case init
  then show ?case by (simp add: sole_advancer_def life_init_def)
next
  case (move ms s t m s')
  from sole_advancer_move [OF _ move.hyps(2) _ life_reach_ok [OF move.hyps(1)]] move.IH move.prems show ?case by auto
qed

text \<open>C16: In the integration that the header describes the assertion of \<^verbatim>\<open>request_shutdown\<close> can fail, and no other. Take
  a debug build in which any threads request shutdown but only the thread \<open>io\<close> ever advances. Then in every
  reachable state a step aborts exactly if its thread stands before the assertion that follows the successful exchange
  of \<^verbatim>\<open>request_shutdown\<close> and the phase is already Stopped. And that is reached whenever another thread stands there
  in the phase Draining and the I/O thread is outside: if it now reports the server drained, its call gets through its
  three accesses up to the exchange, and then the other thread aborts.\<close>

theorem lifecycle_assertion_races:
  assumes "life_run Debug ms life_init = Done s" and "\<forall>t a. (t, Start (Advance a)) \<in> set ms \<longrightarrow> t = io"
  shows "((\<exists>tag. do_move Debug t m s = Abort tag) \<longleftrightarrow> (\<exists>sp. m = Go sp) \<and> pcs s t = R_Assert \<and> phase s = Stopped) \<and>
    (t \<noteq> io \<and> pcs s t = R_Assert \<and> phase s = Draining \<and> pcs s io = Outside \<and> drained_args a \<longrightarrow>
      (\<exists>s'. life_run Debug [(io, Start (Advance a)), (io, Go False), (io, Go False), (io, Go False)] s = Done s' \<and>
         phase s' = Stopped \<and> do_move Debug t (Go sp) s' = Abort ''request_shutdown: phase == Draining''))"
proof (intro conjI impI)
  note reach = run_life_reach [OF assms(1)]
  have sole: "sole_advancer io s" by (rule sole_advancer_reach [OF reach assms(2)])
  from life_reach_ok [OF reach] have ok: "pc_ok (requested ms) (drained_reported ms) (phase s) (pcs s t)"
    by (simp add: life_ok_def)
  show "(\<exists>tag. do_move Debug t m s = Abort tag) \<longleftrightarrow> (\<exists>sp. m = Go sp) \<and> pcs s t = R_Assert \<and> phase s = Stopped"
  proof (cases m)
    case (Go sp)
    have "pcs s t = T_Assert a \<Longrightarrow> phase s = Draining" for a
      using sole by (auto simp: sole_advancer_def dest!: spec [of _ t])
    with ok have "(\<exists>tag. pc_step Debug sp (phase s) (pcs s t) = Abort tag) \<longleftrightarrow> pcs s t = R_Assert \<and> phase s = Stopped"
      by (cases "pcs s t"; cases "phase s") (simp_all add: assert_that_def drained_args_def)
    with Go show ?thesis by (cases "pc_step Debug sp (phase s) (pcs s t)") auto
  qed simp
next
  assume "t \<noteq> io \<and> pcs s t = R_Assert \<and> phase s = Draining \<and> pcs s io = Outside \<and> drained_args a"
  then show "\<exists>s'. life_run Debug [(io, Start (Advance a)), (io, Go False), (io, Go False), (io, Go False)] s = Done s' \<and>
      phase s' = Stopped \<and> do_move Debug t (Go sp) s' = Abort ''request_shutdown: phase == Draining''"
    by (simp add: drained_args_def assert_that_Debug)
qed

theorem lifecycle_assertion_races_witness:
  "\<exists>s s'. life_run Debug [(1, Start Request), (1, Go False), (1, Go False)] life_init = Done s \<and>
     life_run Debug [(0, Start (Advance all_drained)), (0, Go False), (0, Go False), (0, Go False)] s = Done s' \<and>
     do_move Debug 1 (Go False) s' = Abort ''request_shutdown: phase == Draining''"
proof -
  let ?ms = "[(1, Start Request), (1, Go False), (1, Go False)] :: (tid \<times> move) list"
  let ?s = "\<lparr>phase = Draining, pcs = (\<lambda>_. Outside)(1 := R_Assert)\<rparr>"
  have r: "life_run Debug ?ms life_init = Done ?s" by (simp add: life_init_def)
  have one: "\<forall>t a. (t, Start (Advance a)) \<in> set ?ms \<longrightarrow> t = 0" by simp
  have "1 \<noteq> (0 :: tid) \<and> pcs ?s 1 = R_Assert \<and> phase ?s = Draining \<and> pcs ?s 0 = Outside \<and> drained_args all_drained"
    by (simp add: drained_args_def all_drained_def)
  from mp [OF conjunct2 [OF lifecycle_assertion_races [OF r one]] this, of False] r show ?thesis by blast
qed

text \<open>C25: Every call returns and has done its work. Whatever the other threads do, a thread inside
  \<^verbatim>\<open>request_shutdown\<close> or \<^verbatim>\<open>try_advance_to_stopped_if_drained\<close> is outside again after at most four of its
  own atomic accesses and two more for each spurious failure of the weak exchange: the retry loop never
  spins on contention. When a request has returned the phase is no longer Running; when a call that
  reported the server drained, made after shutdown was requested, has returned the phase is Stopped.\<close>

theorem lifecycle_calls_return:
  assumes "life_run b ms life_init = Done s" and "life_run b ms' s = Done s'"
    and "\<forall>c. (t, Start c) \<notin> set ms'" and "4 + 2 * spurious_steps t ms' \<le> own_steps t ms'"
  shows "pcs s' t = Outside \<and> (pcs s t = R_Load \<longrightarrow> phase s' \<noteq> Running) \<and>
    (\<forall>a. pcs s t = T_Load a \<and> drained_args a \<and> phase s \<noteq> Running \<longrightarrow> phase s' = Stopped)"
proof -
  have ok: "life_ok (requested ms) (drained_reported ms) s"
    by (rule life_reach_ok [OF run_life_reach [OF assms(1)]])
  have "\<not> pcs s' t \<noteq> Outside"
  proof
    assume running: "pcs s' t \<noteq> Outside"
    from bounded_steps [OF assms(2) ok assms(3) running] left_le [of "phase s" "pcs s t"] assms(4)
    have "left (phase s') (pcs s' t) = 0" by linarith
    with running show False by (simp add: left_zero_iff)
  qed
  with life_run_keeps [OF ok assms(2,3)] show ?thesis
    by (auto simp: requesting_def advancing_def)
qed

definition retry_schedule :: "(tid \<times> move) list" where
  "retry_schedule = [(1, Go True), (1, Go False), (0, Go False), (1, Go True), (1, Go False), (1, Go False),
     (1, Go False), (1, Go False), (1, Go False)]"

theorem lifecycle_calls_return_witness:
  "\<exists>s'. life_run Release retry_schedule \<lparr>phase = Running, pcs = (\<lambda>_. Outside)(1 := R_Load)\<rparr> = Done s' \<and>
     pcs s' 1 = Outside \<and> phase s' \<noteq> Running"
proof -
  let ?s = "\<lparr>phase = Running, pcs = (\<lambda>_. Outside)(1 := R_Load)\<rparr>"
  have r: "life_run Release [(1, Start Request)] life_init = Done ?s"
    by (simp add: life_init_def)
  have "\<exists>s'. life_run Release retry_schedule ?s = Done s'"
    by (simp add: retry_schedule_def assert_that_Release)
  then obtain s' where s': "life_run Release retry_schedule ?s = Done s'" ..
  have "\<forall>c. (1, Start c) \<notin> set retry_schedule" "4 + 2 * spurious_steps 1 retry_schedule \<le> own_steps 1 retry_schedule"
    by (simp_all add: retry_schedule_def own_steps_def spurious_steps_def)
  from lifecycle_calls_return [OF r s' this] s' show ?thesis by simp
qed

end
