(* ===== verification/Worker_Pool.thy ===== *)
theory Worker_Pool
  imports Dispatcher "HOL-Library.Multiset"
begin

text \<open>
  \<^verbatim>\<open>worker_pool.cpp\<close> and its header: bounded task and result queues between the I/O thread and a fixed
  set of worker threads. Each thread has a program counter; one step is one locking operation, one
  critical section or notification, or one access of the atomic \<^verbatim>\<open>stop_\<close>, and any schedule may interleave
  them. A \<^verbatim>\<open>wait\<close> with a predicate is a loop of evaluating the predicate under the lock, and, when it is
  false, releasing the lock and going to sleep in one step; a thread sleeps while it is in the set of
  waiters, may wake spuriously, and once awake takes the lock and evaluates the predicate again. \<^verbatim>\<open>notify_one\<close> wakes a waiter the schedule picks.
\<close>

section \<open>Data\<close>

datatype TaskQueueOverflowPolicy = RejectNewTask | DropOldestPendingTask
datatype ResultQueueOverflowPolicy = BlockWorkerUntilPopped | DropOldestCompletedResult

record WorkerPoolOptions =
  task_queue_overflow :: TaskQueueOverflowPolicy
  result_queue_overflow :: ResultQueueOverflowPolicy
  result_queue_capacity_override :: size_t

record HandlerTask =
  ht_correlation_id :: u64
  ht_payload :: "byte list"

record HandlerResult =
  hr_correlation_id :: u64
  hr_outcome :: "DispatchError + byte list"

type_synonym tid = nat

text \<open>
  Worker positions (\<open>W_\<close>), then those of \<^verbatim>\<open>try_submit\<close> (\<open>S_\<close>), \<^verbatim>\<open>try_pop_result\<close> (\<open>P_\<close>) and \<^verbatim>\<open>shutdown\<close>
  (\<open>D_\<close>). \<open>W_Take\<close> follows the wait for a task, \<open>W_Push\<close> the wait for room, both still locked.
\<close>

datatype pool_pc =
    W_Lock_Task | W_Task_Pred | W_Task_Block | W_Task_Waiting | W_Take
  | W_Notify_Task HandlerTask | W_Dispatch HandlerTask
  | W_Lock_Result HandlerResult | W_Drop HandlerResult
  | W_Result_Pred HandlerResult | W_Result_Block HandlerResult | W_Result_Waiting HandlerResult
  | W_Push HandlerResult | W_Notify_Result | W_Finished
  | Idle
  | S_Lock HandlerTask | S_Body HandlerTask | S_Notify
  | P_Lock | P_Body | P_Notify
  | D_Exchange | D_Notify_Task | D_Notify_Result | D_Join

text \<open>What happened, for the properties: no operation reads it.\<close>

datatype event =
    Ev_accept HandlerTask | Ev_refuse HandlerTask | Ev_evict HandlerTask
  | Ev_drop HandlerResult | Ev_abandon HandlerResult | Ev_pop HandlerResult | Ev_empty

record pool_config =
  cfg_build :: build
  cfg_workers :: size_t
  cfg_task_capacity :: size_t
  cfg_result_capacity :: size_t
  cfg_options :: WorkerPoolOptions
  cfg_dispatch :: "byte list \<Rightarrow> dispatch_run \<Rightarrow> bool"

record pool =
  stop :: bool
  tasks :: "HandlerTask list"
  results :: "HandlerResult list"
  task_lock :: "tid option"
  result_lock :: "tid option"
  task_waiters :: "tid set"
  result_waiters :: "tid set"
  at :: "tid \<Rightarrow> pool_pc"
  events :: "event list"

section \<open>Construction\<close>

text \<open>The constructor: \<open>Inl\<close> is the message of the \<^verbatim>\<open>std::invalid_argument\<close> thrown.\<close>

definition WorkerPool_config ::
  "build \<Rightarrow> size_t \<Rightarrow> size_t \<Rightarrow> (byte list \<Rightarrow> dispatch_run \<Rightarrow> bool) \<Rightarrow> WorkerPoolOptions \<Rightarrow> string + pool_config" where
  "WorkerPool_config b num_workers queue_capacity dispatcher options =
     (let result_capacity = (if result_queue_capacity_override options \<noteq> 0
            then result_queue_capacity_override options else queue_capacity)
      in if num_workers = 0 then Inl ''WorkerPool: num_workers must be >= 1''
         else if queue_capacity = 0 then Inl ''WorkerPool: queue_capacity must be >= 1''
         else if result_capacity = 0 then Inl ''WorkerPool: effective result queue capacity must be >= 1''
         else Inr \<lparr>cfg_build = b, cfg_workers = num_workers, cfg_task_capacity = queue_capacity,
                   cfg_result_capacity = result_capacity, cfg_options = options, cfg_dispatch = dispatcher\<rparr>)"

text \<open>Threads below \<open>cfg_workers\<close> are workers, at the top of their loop; the others are callers.\<close>

definition pool_init :: "pool_config \<Rightarrow> pool" where
  "pool_init cfg = \<lparr>stop = False, tasks = [], results = [], task_lock = None, result_lock = None,
     task_waiters = {}, result_waiters = {},
     at = (\<lambda>t. if t < cfg_workers cfg then W_Lock_Task else Idle), events = []\<rparr>"

section \<open>Steps\<close>

definition goto :: "tid \<Rightarrow> pool_pc \<Rightarrow> pool \<Rightarrow> pool" where
  "goto t c s = s\<lparr>at := (at s)(t := c)\<rparr>"

definition record_events :: "event list \<Rightarrow> pool \<Rightarrow> pool" where
  "record_events es s = s\<lparr>events := events s @ es\<rparr>"

text \<open>What the schedule decides for one step.\<close>

record choice =
  ch_spurious :: bool
  ch_pick :: tid
  ch_run :: dispatch_run

definition notify_one :: "tid \<Rightarrow> tid set \<Rightarrow> tid set option" where
  "notify_one pick w = (if w = {} then Some {} else if pick \<in> w then Some (w - {pick}) else None)"

text \<open>The loop \<^verbatim>\<open>while (results_.size() >= result_capacity_ && !results_.empty()) pop_front\<close>.\<close>

fun make_room :: "size_t \<Rightarrow> HandlerResult list \<Rightarrow> HandlerResult list \<times> HandlerResult list" where
  "make_room cap [] = ([], [])"
| "make_room cap (r # rs) =
     (if length (r # rs) \<ge> cap then (case make_room cap rs of (dropped, kept) \<Rightarrow> (r # dropped, kept))
      else ([], r # rs))"

text \<open>\<^verbatim>\<open>results_.push_back(done)\<close> with the assertions around it.\<close>

definition push_result :: "pool_config \<Rightarrow> tid \<Rightarrow> HandlerResult \<Rightarrow> pool \<Rightarrow> pool outcome" where
  "push_result cfg t r s =
     assert_that (cfg_build cfg) ''results < capacity before push'' (length (results s) < cfg_result_capacity cfg)
       (let s' = s\<lparr>results := results s @ [r]\<rparr>
        in assert_that (cfg_build cfg) ''results <= capacity after push'' (length (results s') \<le> cfg_result_capacity cfg)
             (Done (goto t W_Notify_Result (s'\<lparr>result_lock := None\<rparr>))))"

text \<open>\<^verbatim>\<open>return\<close> from the worker loop with the result lock held: \<open>r\<close> is destroyed with the frame.\<close>

definition abandon_result :: "tid \<Rightarrow> HandlerResult \<Rightarrow> pool \<Rightarrow> pool" where
  "abandon_result t r s = goto t W_Finished (record_events [Ev_abandon r] (s\<lparr>result_lock := None\<rparr>))"

definition submit_body :: "pool_config \<Rightarrow> tid \<Rightarrow> HandlerTask \<Rightarrow> pool \<Rightarrow> pool outcome" where
  "submit_body cfg t tk s =
     (let refuse = Done (goto t Idle (record_events [Ev_refuse tk] (s\<lparr>task_lock := None\<rparr>)));
          push = (\<lambda>s'. let s'' = s'\<lparr>tasks := tasks s' @ [tk]\<rparr>
                  in assert_that (cfg_build cfg) ''tasks <= capacity after submit'' (length (tasks s'') \<le> cfg_task_capacity cfg)
                       (Done (goto t S_Notify (record_events [Ev_accept tk] (s''\<lparr>task_lock := None\<rparr>)))))
      in if stop s then refuse
         else if length (tasks s) \<ge> cfg_task_capacity cfg
         then if task_queue_overflow (cfg_options cfg) = DropOldestPendingTask
              then (case tasks s of
                      [] \<Rightarrow> push s
                    | old # rest \<Rightarrow> push (record_events [Ev_evict old] (s\<lparr>tasks := rest\<rparr>)))
              else refuse
         else push s)"

definition pop_body :: "pool_config \<Rightarrow> tid \<Rightarrow> pool \<Rightarrow> pool outcome" where
  "pop_body cfg t s =
     (case results s of
        [] \<Rightarrow> Done (goto t Idle (record_events [Ev_empty] (s\<lparr>result_lock := None\<rparr>)))
      | r # rest \<Rightarrow>
          assert_that (cfg_build cfg) ''results < capacity after pop'' (length rest < cfg_result_capacity cfg)
            (Done (goto t P_Notify (record_events [Ev_pop r] (s\<lparr>results := rest, result_lock := None\<rparr>)))))"

definition take_body :: "pool_config \<Rightarrow> tid \<Rightarrow> pool \<Rightarrow> pool outcome" where
  "take_body cfg t s =
     (case tasks s of
        [] \<Rightarrow> Done (goto t (if stop s then W_Finished else W_Lock_Task) (s\<lparr>task_lock := None\<rparr>))
      | tk # rest \<Rightarrow>
          assert_that (cfg_build cfg) ''tasks <= capacity after take'' (length rest \<le> cfg_task_capacity cfg)
            (Done (goto t (W_Notify_Task tk) (s\<lparr>tasks := rest, task_lock := None\<rparr>))))"

definition drop_body :: "pool_config \<Rightarrow> tid \<Rightarrow> HandlerResult \<Rightarrow> pool \<Rightarrow> pool outcome" where
  "drop_body cfg t r s =
     (case make_room (cfg_result_capacity cfg) (results s) of (dropped, kept) \<Rightarrow>
        let s' = record_events (map Ev_drop dropped) (s\<lparr>results := kept\<rparr>)
        in assert_that (cfg_build cfg) ''results < capacity after drop'' (length kept < cfg_result_capacity cfg)
             (if stop s' then Done (abandon_result t r s') else push_result cfg t r s'))"

text \<open>One step of thread \<open>t\<close> at a position; \<open>None\<close> when it cannot move.\<close>

fun step_at :: "pool_config \<Rightarrow> tid \<Rightarrow> choice \<Rightarrow> pool_pc \<Rightarrow> pool \<Rightarrow> pool outcome option" where
  "step_at cfg t ch W_Lock_Task s =
     (if task_lock s = None then Some (Done (goto t W_Task_Pred (s\<lparr>task_lock := Some t\<rparr>))) else None)"
| "step_at cfg t ch W_Task_Pred s =
     Some (Done (goto t (if stop s \<or> tasks s \<noteq> [] then W_Take else W_Task_Block) s))"
| "step_at cfg t ch W_Task_Block s =
     Some (Done (goto t W_Task_Waiting (s\<lparr>task_lock := None, task_waiters := insert t (task_waiters s)\<rparr>)))"
| "step_at cfg t ch W_Task_Waiting s =
     (if t \<notin> task_waiters s \<or> ch_spurious ch
      then Some (Done (goto t W_Lock_Task (s\<lparr>task_waiters := task_waiters s - {t}\<rparr>))) else None)"
| "step_at cfg t ch W_Take s = Some (take_body cfg t s)"
| "step_at cfg t ch (W_Notify_Task tk) s = Some (Done (goto t (W_Dispatch tk) (s\<lparr>task_waiters := {}\<rparr>)))"
| "step_at cfg t ch (W_Dispatch tk) s =
     (if cfg_dispatch cfg (ht_payload tk) (ch_run ch)
      then Some (Done (goto t (W_Lock_Result
             \<lparr>hr_correlation_id = ht_correlation_id tk, hr_outcome = guarded (ch_run ch)\<rparr>) s))
      else None)"
| "step_at cfg t ch (W_Lock_Result r) s =
     (if result_lock s = None
      then Some (Done (goto t
             (if result_queue_overflow (cfg_options cfg) = DropOldestCompletedResult then W_Drop r else W_Result_Pred r)
             (s\<lparr>result_lock := Some t\<rparr>)))
      else None)"
| "step_at cfg t ch (W_Drop r) s = Some (drop_body cfg t r s)"
| "step_at cfg t ch (W_Result_Pred r) s =
     Some (Done (goto t (if stop s \<or> length (results s) < cfg_result_capacity cfg then W_Push r else W_Result_Block r) s))"
| "step_at cfg t ch (W_Result_Block r) s =
     Some (Done (goto t (W_Result_Waiting r) (s\<lparr>result_lock := None, result_waiters := insert t (result_waiters s)\<rparr>)))"
| "step_at cfg t ch (W_Result_Waiting r) s =
     (if t \<notin> result_waiters s \<or> ch_spurious ch
      then Some (Done (goto t (W_Lock_Result r) (s\<lparr>result_waiters := result_waiters s - {t}\<rparr>))) else None)"
| "step_at cfg t ch (W_Push r) s =
     Some (if stop s then Done (abandon_result t r s) else push_result cfg t r s)"
| "step_at cfg t ch W_Notify_Result s =
     (case notify_one (ch_pick ch) (result_waiters s) of
        Some w \<Rightarrow> Some (Done (goto t W_Lock_Task (s\<lparr>result_waiters := w\<rparr>))) | None \<Rightarrow> None)"
| "step_at cfg t ch W_Finished s = None"
| "step_at cfg t ch Idle s = None"
| "step_at cfg t ch (S_Lock tk) s =
     (if task_lock s = None then Some (Done (goto t (S_Body tk) (s\<lparr>task_lock := Some t\<rparr>))) else None)"
| "step_at cfg t ch (S_Body tk) s = Some (submit_body cfg t tk s)"
| "step_at cfg t ch S_Notify s =
     (case notify_one (ch_pick ch) (task_waiters s) of
        Some w \<Rightarrow> Some (Done (goto t Idle (s\<lparr>task_waiters := w\<rparr>))) | None \<Rightarrow> None)"
| "step_at cfg t ch P_Lock s =
     (if result_lock s = None then Some (Done (goto t P_Body (s\<lparr>result_lock := Some t\<rparr>))) else None)"
| "step_at cfg t ch P_Body s = Some (pop_body cfg t s)"
| "step_at cfg t ch P_Notify s = Some (Done (goto t Idle (s\<lparr>result_waiters := {}\<rparr>)))"
| "step_at cfg t ch D_Exchange s =
     Some (Done (if stop s then goto t Idle s else goto t D_Notify_Task (s\<lparr>stop := True\<rparr>)))"
| "step_at cfg t ch D_Notify_Task s = Some (Done (goto t D_Notify_Result (s\<lparr>task_waiters := {}\<rparr>)))"
| "step_at cfg t ch D_Notify_Result s = Some (Done (goto t D_Join (s\<lparr>result_waiters := {}\<rparr>)))"
| "step_at cfg t ch D_Join s =
     (if list_all (\<lambda>w. at s w = W_Finished) [0..<cfg_workers cfg] then Some (Done (goto t Idle s)) else None)"

section \<open>Schedules\<close>

datatype pool_call = Try_submit HandlerTask | Try_pop_result | Shutdown

fun call_entry :: "pool_call \<Rightarrow> pool_pc" where
  "call_entry (Try_submit tk) = S_Lock tk"
| "call_entry Try_pop_result = P_Lock"
| "call_entry Shutdown = D_Exchange"

datatype act = Call pool_call | Step choice

fun pool_act :: "pool_config \<Rightarrow> tid \<Rightarrow> act \<Rightarrow> pool \<Rightarrow> pool outcome option" where
  "pool_act cfg t (Call c) s = (if at s t = Idle then Some (Done (goto t (call_entry c) s)) else None)"
| "pool_act cfg t (Step ch) s = step_at cfg t ch (at s t) s"

fun pool_run :: "pool_config \<Rightarrow> (tid \<times> act) list \<Rightarrow> pool \<Rightarrow> pool outcome option" where
  "pool_run cfg [] s = Some (Done s)"
| "pool_run cfg ((t, a) # sched) s =
     (case pool_act cfg t a s of
        Some (Done s') \<Rightarrow> pool_run cfg sched s'
      | Some failed \<Rightarrow> Some failed
      | None \<Rightarrow> None)"

inductive pool_reach :: "pool_config \<Rightarrow> pool \<Rightarrow> bool" for cfg where
  start: "pool_reach cfg (pool_init cfg)"
| act: "pool_reach cfg s \<Longrightarrow> pool_act cfg t a s = Some (Done s') \<Longrightarrow> pool_reach cfg s'"

inductive_cases pool_reachE: "pool_reach cfg s"

lemma pool_run_reach: "pool_run cfg sched s = Some (Done s') \<Longrightarrow> pool_reach cfg s \<Longrightarrow> pool_reach cfg s'"
  by (induction cfg sched s rule: pool_run.induct)
    (auto split: option.splits outcome.splits intro: pool_reach.act)

section \<open>The invariant\<close>

definition cfg_ok :: "pool_config \<Rightarrow> bool" where
  "cfg_ok cfg \<longleftrightarrow> 0 < cfg_workers cfg \<and> 0 < cfg_task_capacity cfg \<and> 0 < cfg_result_capacity cfg"

fun holds_task :: "pool_pc \<Rightarrow> bool" where
  "holds_task W_Task_Pred = True" | "holds_task W_Task_Block = True" | "holds_task W_Take = True"
| "holds_task (S_Body tk) = True" | "holds_task _ = False"

fun holds_result :: "pool_pc \<Rightarrow> bool" where
  "holds_result (W_Drop r) = True" | "holds_result (W_Result_Pred r) = True"
| "holds_result (W_Result_Block r) = True" | "holds_result (W_Push r) = True"
| "holds_result P_Body = True" | "holds_result _ = False"

fun worker_pc :: "pool_pc \<Rightarrow> bool" where
  "worker_pc Idle = False" | "worker_pc (S_Lock tk) = False" | "worker_pc (S_Body tk) = False"
| "worker_pc S_Notify = False" | "worker_pc P_Lock = False" | "worker_pc P_Body = False"
| "worker_pc P_Notify = False" | "worker_pc D_Exchange = False" | "worker_pc D_Notify_Task = False"
| "worker_pc D_Notify_Result = False" | "worker_pc D_Join = False" | "worker_pc _ = True"

fun waits_result :: "pool_pc \<Rightarrow> bool" where
  "waits_result (W_Result_Waiting r) = True" | "waits_result _ = False"

text \<open>What a position says about the shared state.\<close>

fun pos_ok :: "pool_config \<Rightarrow> bool \<Rightarrow> nat \<Rightarrow> nat \<Rightarrow> pool_pc \<Rightarrow> bool" where
  "pos_ok cfg st nt nr W_Task_Block \<longleftrightarrow> nt = 0"
| "pos_ok cfg st nt nr W_Take \<longleftrightarrow> st \<or> 0 < nt"
| "pos_ok cfg st nt nr (W_Push r) \<longleftrightarrow> st \<or> nr < cfg_result_capacity cfg"
| "pos_ok cfg st nt nr (W_Result_Block r) \<longleftrightarrow> cfg_result_capacity cfg \<le> nr"
| "pos_ok cfg st nt nr W_Finished \<longleftrightarrow> st"
| "pos_ok cfg st nt nr D_Notify_Task \<longleftrightarrow> st"
| "pos_ok cfg st nt nr D_Notify_Result \<longleftrightarrow> st"
| "pos_ok cfg st nt nr D_Join \<longleftrightarrow> st"
| "pos_ok cfg st nt nr _ \<longleftrightarrow> True"

definition thread_ok :: "pool_config \<Rightarrow> pool \<Rightarrow> tid \<Rightarrow> bool" where
  "thread_ok cfg s t \<longleftrightarrow>
     (holds_task (at s t) \<longleftrightarrow> task_lock s = Some t) \<and>
     (holds_result (at s t) \<longleftrightarrow> result_lock s = Some t) \<and>
     (t \<in> task_waiters s \<longrightarrow> at s t = W_Task_Waiting) \<and>
     (t \<in> result_waiters s \<longrightarrow> waits_result (at s t)) \<and>
     (worker_pc (at s t) \<longleftrightarrow> t < cfg_workers cfg) \<and>
     pos_ok cfg (stop s) (length (tasks s)) (length (results s)) (at s t)"

definition sizes_ok :: "pool_config \<Rightarrow> pool \<Rightarrow> bool" where
  "sizes_ok cfg s \<longleftrightarrow> length (tasks s) \<le> cfg_task_capacity cfg \<and> length (results s) \<le> cfg_result_capacity cfg"

definition pool_inv :: "pool_config \<Rightarrow> pool \<Rightarrow> bool" where
  "pool_inv cfg s \<longleftrightarrow> sizes_ok cfg s \<and> (\<forall>t. thread_ok cfg s t)"

lemmas step_bodies = goto_def record_events_def push_result_def abandon_result_def submit_body_def
  pop_body_def take_body_def drop_body_def notify_one_def Let_def

lemma make_room_length:
  "0 < cap \<Longrightarrow> make_room cap rs = (dropped, kept) \<Longrightarrow> length kept < cap \<and> length kept \<le> length rs \<and> rs = dropped @ kept"
  by (induction cap rs arbitrary: dropped rule: make_room.induct) (auto split: if_splits prod.splits)

lemma make_room_nothing: "length rs < cap \<Longrightarrow> make_room cap rs = ([], rs)"
  by (cases rs) auto

lemma holds_task_unique: "pool_inv cfg s \<Longrightarrow> holds_task (at s t) \<Longrightarrow> u \<noteq> t \<Longrightarrow> \<not> holds_task (at s u)"
  by (auto simp: pool_inv_def thread_ok_def)

lemma holds_result_unique: "pool_inv cfg s \<Longrightarrow> holds_result (at s t) \<Longrightarrow> u \<noteq> t \<Longrightarrow> \<not> holds_result (at s u)"
  by (auto simp: pool_inv_def thread_ok_def)

lemma step_no_abort:
  assumes "cfg_ok cfg" "pool_inv cfg s" "step_at cfg t ch (at s t) s = Some out"
  shows "\<exists>s'. out = Done s'"
proof -
  from assms(2) have th: "thread_ok cfg s t" "sizes_ok cfg s" by (auto simp: pool_inv_def)
  show ?thesis
    using assms(1,3) th
    by (cases "at s t")
      (auto simp: step_bodies thread_ok_def sizes_ok_def cfg_ok_def assert_that_def
        split: if_splits list.splits option.splits prod.splits dest: make_room_length)
qed

text \<open>What a step can change, seen from the other threads.\<close>

definition confined :: "tid \<Rightarrow> pool \<Rightarrow> pool \<Rightarrow> bool" where
  "confined t s s' \<longleftrightarrow>
     (\<forall>u. u \<noteq> t \<longrightarrow> at s' u = at s u) \<and> (stop s \<longrightarrow> stop s') \<and>
     (tasks s' = tasks s \<or> holds_task (at s t)) \<and> (results s' = results s \<or> holds_result (at s t)) \<and>
     (task_lock s' = task_lock s \<or> task_lock s = None \<and> task_lock s' = Some t \<or>
        holds_task (at s t) \<and> task_lock s' = None) \<and>
     (result_lock s' = result_lock s \<or> result_lock s = None \<and> result_lock s' = Some t \<or>
        holds_result (at s t) \<and> result_lock s' = None) \<and>
     task_waiters s' \<subseteq> insert t (task_waiters s) \<and> result_waiters s' \<subseteq> insert t (result_waiters s)"

lemma step_frame: "step_at cfg t ch (at s t) s = Some (Done s') \<Longrightarrow> confined t s s'"
  by (cases "at s t")
    (auto simp: step_bodies confined_def split: if_splits list.splits option.splits prod.splits)

lemma pos_ok_frame:
  "pos_ok cfg st nt nr c \<Longrightarrow> nt' = nt \<or> \<not> holds_task c \<Longrightarrow> nr' = nr \<or> \<not> holds_result c \<Longrightarrow> (st \<longrightarrow> st') \<Longrightarrow>
     pos_ok cfg st' nt' nr' c"
  by (cases c) auto

lemma frame_locks:
  assumes "confined t s s'" "thread_ok cfg s t" "u \<noteq> t"
  shows "task_lock s' = Some u \<longleftrightarrow> task_lock s = Some u" "result_lock s' = Some u \<longleftrightarrow> result_lock s = Some u"
proof -
  from assms(1) have "task_lock s' = task_lock s \<or> task_lock s = None \<and> task_lock s' = Some t \<or>
      holds_task (at s t) \<and> task_lock s' = None" by (simp add: confined_def)
  moreover from assms(2) have "holds_task (at s t) \<longleftrightarrow> task_lock s = Some t" by (simp add: thread_ok_def)
  ultimately show "task_lock s' = Some u \<longleftrightarrow> task_lock s = Some u" using assms(3) by auto
  from assms(1) have "result_lock s' = result_lock s \<or> result_lock s = None \<and> result_lock s' = Some t \<or>
      holds_result (at s t) \<and> result_lock s' = None" by (simp add: confined_def)
  moreover from assms(2) have "holds_result (at s t) \<longleftrightarrow> result_lock s = Some t" by (simp add: thread_ok_def)
  ultimately show "result_lock s' = Some u \<longleftrightarrow> result_lock s = Some u" using assms(3) by auto
qed

lemma frame_sizes:
  assumes "confined t s s'" "thread_ok cfg s t" "thread_ok cfg s u" "u \<noteq> t"
  shows "tasks s' = tasks s \<or> \<not> holds_task (at s u)" "results s' = results s \<or> \<not> holds_result (at s u)"
proof -
  from assms(1) have "tasks s' = tasks s \<or> holds_task (at s t)" "results s' = results s \<or> holds_result (at s t)"
    by (simp_all add: confined_def)
  moreover have "\<not> (holds_task (at s t) \<and> holds_task (at s u))" "\<not> (holds_result (at s t) \<and> holds_result (at s u))"
    using assms(2-4) by (auto simp: thread_ok_def)
  ultimately show "tasks s' = tasks s \<or> \<not> holds_task (at s u)" "results s' = results s \<or> \<not> holds_result (at s u)"
    by blast+
qed

lemma thread_ok_other:
  assumes "confined t s s'" "thread_ok cfg s t" "thread_ok cfg s u" "u \<noteq> t"
  shows "thread_ok cfg s' u"
proof -
  from assms(1,4) have same: "at s' u = at s u" "stop s \<longrightarrow> stop s'"
    "u \<in> task_waiters s' \<longrightarrow> u \<in> task_waiters s" "u \<in> result_waiters s' \<longrightarrow> u \<in> result_waiters s"
    by (auto simp: confined_def)
  have "pos_ok cfg (stop s') (length (tasks s')) (length (results s')) (at s u)"
    by (rule pos_ok_frame [of cfg "stop s" "length (tasks s)" "length (results s)"])
      (use same frame_sizes [OF assms] assms(3) in \<open>auto simp: thread_ok_def\<close>)
  with same frame_locks [OF assms(1,2,4)] assms(3) show ?thesis by (simp add: thread_ok_def)
qed

lemma thread_ok_own:
  assumes "thread_ok cfg s t" "step_at cfg t ch (at s t) s = Some (Done s')"
  shows "thread_ok cfg s' t"
  using assms
  by (cases "at s t")
    (auto simp: step_bodies thread_ok_def split: if_splits list.splits option.splits prod.splits)

lemma sizes_step:
  assumes "cfg_ok cfg" "pool_inv cfg s" "step_at cfg t ch (at s t) s = Some (Done s')"
  shows "sizes_ok cfg s'"
proof -
  from assms(2) have th: "thread_ok cfg s t" "sizes_ok cfg s" by (auto simp: pool_inv_def)
  show ?thesis
    using assms(1,3) th
    by (cases "at s t")
      (auto simp: step_bodies thread_ok_def sizes_ok_def cfg_ok_def
        split: if_splits list.splits option.splits prod.splits dest!: make_room_length)
qed

lemma pool_inv_init: "cfg_ok cfg \<Longrightarrow> pool_inv cfg (pool_init cfg)"
  by (auto simp: pool_inv_def sizes_ok_def thread_ok_def pool_init_def)

lemma pool_act_inv:
  assumes "cfg_ok cfg" "pool_inv cfg s" "pool_act cfg t a s = Some out"
  obtains s' where "out = Done s'" "pool_inv cfg s'" "confined t s s'"
proof (cases a)
  case (Call c)
  with assms(3) have s': "out = Done (goto t (call_entry c) s)" "at s t = Idle" by (auto split: if_splits)
  have "confined t s (goto t (call_entry c) s)" by (auto simp: confined_def goto_def)
  moreover have "thread_ok cfg (goto t (call_entry c) s) u" for u
  proof (cases "u = t")
    case True
    have "thread_ok cfg s t" using assms(2) by (simp add: pool_inv_def)
    with True s'(2) show ?thesis by (cases c) (auto simp: thread_ok_def goto_def)
  next
    case False
    with thread_ok_other [OF \<open>confined t s (goto t (call_entry c) s)\<close>] assms(2) show ?thesis
      by (simp add: pool_inv_def)
  qed
  ultimately show thesis
    using that [OF s'(1)] assms(2) by (simp add: pool_inv_def sizes_ok_def goto_def)
next
  case (Step ch)
  with assms(3) have st: "step_at cfg t ch (at s t) s = Some out" by simp
  from step_no_abort [OF assms(1,2) st] obtain s' where s': "out = Done s'" ..
  note st' = st [unfolded s']
  have "thread_ok cfg s' u" for u
    using thread_ok_own [OF _ st'] thread_ok_other [OF step_frame [OF st']] assms(2)
    by (cases "u = t") (auto simp: pool_inv_def)
  with sizes_step [OF assms(1,2) st'] step_frame [OF st'] show thesis
    using that [OF s'] by (simp add: pool_inv_def)
qed

lemma pool_reach_inv: "cfg_ok cfg \<Longrightarrow> pool_reach cfg s \<Longrightarrow> pool_inv cfg s"
  by (rotate_tac 1, induction rule: pool_reach.induct)
    (auto intro: pool_inv_init elim: pool_act_inv)

end
