(* ===== verification/Worker_Pool_Safety.thy ===== *)
theory Worker_Pool_Safety
  imports Worker_Pool
begin

text \<open>
  What the worker pool guarantees in every interleaving: its assertions and capacity bounds, that no
  accepted task is lost or duplicated except where a policy or a stop says so, and that every response
  is the handler's response to an accepted request.
\<close>

section \<open>Conservation\<close>

text \<open>The correlation ids a thread carries between the two queues.\<close>

fun carried :: "pool_pc \<Rightarrow> u64 multiset" where
  "carried (W_Notify_Task tk) = {#ht_correlation_id tk#}"
| "carried (W_Dispatch tk) = {#ht_correlation_id tk#}"
| "carried (W_Lock_Result r) = {#hr_correlation_id r#}"
| "carried (W_Drop r) = {#hr_correlation_id r#}"
| "carried (W_Result_Pred r) = {#hr_correlation_id r#}"
| "carried (W_Result_Block r) = {#hr_correlation_id r#}"
| "carried (W_Result_Waiting r) = {#hr_correlation_id r#}"
| "carried (W_Push r) = {#hr_correlation_id r#}"
| "carried _ = {#}"

fun accepted_id :: "event \<Rightarrow> u64 multiset" where
  "accepted_id (Ev_accept tk) = {#ht_correlation_id tk#}"
| "accepted_id _ = {#}"

text \<open>The ids that left the pool: returned to the caller, evicted or dropped by a policy, abandoned.\<close>

fun departed_id :: "event \<Rightarrow> u64 multiset" where
  "departed_id (Ev_pop r) = {#hr_correlation_id r#}"
| "departed_id (Ev_evict tk) = {#ht_correlation_id tk#}"
| "departed_id (Ev_drop r) = {#hr_correlation_id r#}"
| "departed_id (Ev_abandon r) = {#hr_correlation_id r#}"
| "departed_id _ = {#}"

definition accepted :: "pool \<Rightarrow> u64 multiset" where
  "accepted s = sum_list (map accepted_id (events s))"

definition departed :: "pool \<Rightarrow> u64 multiset" where
  "departed s = sum_list (map departed_id (events s))"

definition in_queues :: "pool \<Rightarrow> u64 multiset" where
  "in_queues s = mset (map ht_correlation_id (tasks s)) + mset (map hr_correlation_id (results s))"

definition in_hands :: "pool_config \<Rightarrow> pool \<Rightarrow> u64 multiset" where
  "in_hands cfg s = (\<Sum>t<cfg_workers cfg. carried (at s t))"

definition conserved :: "pool_config \<Rightarrow> pool \<Rightarrow> bool" where
  "conserved cfg s \<longleftrightarrow> accepted s = in_queues s + in_hands cfg s + departed s"

lemma sum_carried_upd:
  fixes f :: "tid \<Rightarrow> pool_pc"
  assumes "t < n"
  shows "(\<Sum>u<n. carried ((f(t := c)) u)) + carried (f t) = (\<Sum>u<n. carried (f u)) + carried c"
proof -
  have "(\<Sum>u<n. g u) = g t + (\<Sum>u\<in>{..<n} - {t}. g u)" for g :: "tid \<Rightarrow> u64 multiset"
    using assms by (intro sum.remove) auto
  moreover have "(\<Sum>u\<in>{..<n} - {t}. carried ((f(t := c)) u)) = (\<Sum>u\<in>{..<n} - {t}. carried (f u))"
    by (rule sum.cong) auto
  ultimately show ?thesis by simp
qed

lemma sum_carried_outside:
  fixes f :: "tid \<Rightarrow> pool_pc"
  shows "n \<le> t \<Longrightarrow> (\<Sum>u<n. carried ((f(t := c)) u)) = (\<Sum>u<n. carried (f u))"
  by (rule sum.cong) auto

lemma drop_events [simp]:
  "sum_list (map (departed_id \<circ> Ev_drop) rs) = image_mset hr_correlation_id (mset rs)"
  "sum_list (map (accepted_id \<circ> Ev_drop) rs) = {#}"
  by (induction rs) simp_all

lemma not_worker_carries: "\<not> worker_pc c \<Longrightarrow> carried c = {#}"
  by (cases c) auto

lemma make_room_append: "make_room cap rs = (dropped, kept) \<Longrightarrow> rs = dropped @ kept"
  by (induction cap rs arbitrary: dropped rule: make_room.induct) (auto split: if_splits prod.splits)

lemma make_room_ids:
  "make_room cap rs = (dropped, kept) \<Longrightarrow> image_mset hr_correlation_id (mset rs) =
     image_mset hr_correlation_id (mset dropped) + image_mset hr_correlation_id (mset kept)"
  using make_room_append [of cap rs dropped kept] by simp

text \<open>A step moves ids; the balance before and after differs by what the stepping thread carries.\<close>

lemmas balance_defs = accepted_def departed_def in_queues_def

lemma drop_balance:
  assumes "drop_body cfg t r s = Done s'"
  shows "accepted s' + in_queues s + {#hr_correlation_id r#} + departed s =
    accepted s + in_queues s' + carried (at s' t) + departed s'"
proof -
  obtain dropped kept where room: "make_room (cfg_result_capacity cfg) (results s) = (dropped, kept)"
    by (cases "make_room (cfg_result_capacity cfg) (results s)")
  show ?thesis
    using assms room make_room_ids [OF room]
    by (cases "stop s") (auto simp: step_bodies balance_defs)
qed

lemma submit_balance:
  assumes "submit_body cfg t tk s = Done s'"
  shows "accepted s' + in_queues s + departed s = accepted s + in_queues s' + carried (at s' t) + departed s'"
  using assms
  by (auto simp: step_bodies balance_defs split: if_splits list.splits)

lemma step_balance:
  assumes "step_at cfg t ch (at s t) s = Some (Done s')"
  shows "accepted s' + in_queues s + carried (at s t) + departed s =
    accepted s + in_queues s' + carried (at s' t) + departed s'"
proof (cases "\<exists>r. at s t = W_Drop r \<or> (\<exists>tk. at s t = S_Body tk)")
  case True
  then show ?thesis using assms drop_balance submit_balance by force
next
  case False
  then show ?thesis
    using assms
    by (cases "at s t")
      (auto simp: goto_def record_events_def push_result_def abandon_result_def pop_body_def take_body_def
        Let_def balance_defs split: if_splits list.splits option.splits)
qed

lemma act_conserved:
  assumes "cfg_ok cfg" "pool_inv cfg s" "conserved cfg s" "pool_act cfg t a s = Some (Done s')"
  shows "conserved cfg s'"
proof -
  obtain out where "pool_inv cfg s'" and frame: "confined t s s'"
    by (rule pool_act_inv [OF assms(1,2,4)]) simp
  then have role: "worker_pc (at s t) \<longleftrightarrow> t < cfg_workers cfg" "worker_pc (at s' t) \<longleftrightarrow> t < cfg_workers cfg"
    using assms(2) by (simp_all add: pool_inv_def thread_ok_def)
  have at': "at s' = (at s)(t := at s' t)" using frame by (auto simp: confined_def)
  have hands: "in_hands cfg s' + carried (at s t) = in_hands cfg s + carried (at s' t)"
  proof (cases "t < cfg_workers cfg")
    case True
    from sum_carried_upd [OF True, of "at s" "at s' t"] at' show ?thesis by (simp add: in_hands_def)
  next
    case False
    with role not_worker_carries have "carried (at s t) = {#}" "carried (at s' t) = {#}" by auto
    with sum_carried_outside [of "cfg_workers cfg" t "at s" "at s' t"] False at' show ?thesis
      by (simp add: in_hands_def)
  qed
  have balance: "accepted s' + in_queues s + carried (at s t) + departed s =
      accepted s + in_queues s' + carried (at s' t) + departed s'"
  proof (cases a)
    case (Call c)
    with assms(4) have "at s t = Idle" "s' = goto t (call_entry c) s" by (auto split: if_splits)
    then show ?thesis by (cases c) (simp_all add: goto_def balance_defs)
  next
    case (Step ch)
    with assms(4) step_balance show ?thesis by simp
  qed
  have "accepted s' + (in_queues s + carried (at s t) + departed s) =
      in_queues s' + in_hands cfg s' + departed s' + (in_queues s + carried (at s t) + departed s)"
    using balance hands assms(3) [unfolded conserved_def] by (simp add: ac_simps)
  then show ?thesis by (simp add: conserved_def)
qed

lemma reach_conserved: "cfg_ok cfg \<Longrightarrow> pool_reach cfg s \<Longrightarrow> conserved cfg s"
proof (rotate_tac 1, induction rule: pool_reach.induct)
  case start
  have "carried (at (pool_init cfg) t) = {#}" for t by (simp add: pool_init_def)
  then show ?case by (simp add: conserved_def balance_defs in_hands_def) (simp add: pool_init_def)
next
  case (act s t a s')
  then show ?case using act_conserved pool_reach_inv by blast
qed

section \<open>Where tasks and results come from\<close>

fun pc_tasks :: "pool_pc \<Rightarrow> HandlerTask set" where
  "pc_tasks (W_Notify_Task tk) = {tk}" | "pc_tasks (W_Dispatch tk) = {tk}" | "pc_tasks _ = {}"

fun pc_results :: "pool_pc \<Rightarrow> HandlerResult set" where
  "pc_results (W_Lock_Result r) = {r}" | "pc_results (W_Drop r) = {r}"
| "pc_results (W_Result_Pred r) = {r}" | "pc_results (W_Result_Block r) = {r}"
| "pc_results (W_Result_Waiting r) = {r}" | "pc_results (W_Push r) = {r}" | "pc_results _ = {}"

definition responds :: "pool_config \<Rightarrow> HandlerTask \<Rightarrow> HandlerResult \<Rightarrow> bool" where
  "responds cfg tk r \<longleftrightarrow> hr_correlation_id r = ht_correlation_id tk \<and>
     (\<exists>run. cfg_dispatch cfg (ht_payload tk) run \<and> hr_outcome r = guarded run)"

definition accepted_tasks :: "pool \<Rightarrow> HandlerTask list" where
  "accepted_tasks s = concat (map (\<lambda>e. case e of Ev_accept tk \<Rightarrow> [tk] | _ \<Rightarrow> []) (events s))"

definition popped :: "pool \<Rightarrow> HandlerResult list" where
  "popped s = concat (map (\<lambda>e. case e of Ev_pop r \<Rightarrow> [r] | _ \<Rightarrow> []) (events s))"

definition live_tasks :: "pool \<Rightarrow> tid \<Rightarrow> HandlerTask set" where
  "live_tasks s t = set (tasks s) \<union> pc_tasks (at s t)"

definition live_results :: "pool \<Rightarrow> tid \<Rightarrow> HandlerResult set" where
  "live_results s t = set (results s) \<union> pc_results (at s t) \<union> set (popped s)"

lemma popped_drop [simp]: "concat (map ((\<lambda>e. case e of Ev_pop r \<Rightarrow> [r] | _ \<Rightarrow> []) \<circ> Ev_drop) rs) = []"
  by (induction rs) simp_all

lemma accepted_drop [simp]: "concat (map ((\<lambda>e. case e of Ev_accept tk \<Rightarrow> [tk] | _ \<Rightarrow> []) \<circ> Ev_drop) rs) = []"
  by (induction rs) simp_all

lemma make_room_subset: "make_room cap rs = (dropped, kept) \<Longrightarrow> set kept \<subseteq> set rs"
  by (drule make_room_append) simp

lemmas flow_defs = live_tasks_def live_results_def popped_def accepted_tasks_def

lemma drop_flow:
  assumes "drop_body cfg t r s = Done s'" "at s t = W_Drop r"
  shows "accepted_tasks s' = accepted_tasks s \<and> tasks s' = tasks s \<and> pc_tasks (at s' t) = {} \<and>
    popped s' = popped s \<and> pc_results (at s' t) = {} \<and> set (results s') \<subseteq> insert r (set (results s))"
proof -
  obtain dropped kept where room: "make_room (cfg_result_capacity cfg) (results s) = (dropped, kept)"
    by (cases "make_room (cfg_result_capacity cfg) (results s)")
  show ?thesis
    using assms(1) room make_room_subset [OF room]
    by (cases "stop s") (auto simp: step_bodies popped_def accepted_tasks_def)
qed

lemma submit_flow:
  assumes "submit_body cfg t tk s = Done s'"
  shows "set (accepted_tasks s) \<subseteq> set (accepted_tasks s') \<and> set (tasks s') \<subseteq> set (tasks s) \<union> set (accepted_tasks s') \<and>
    pc_tasks (at s' t) = {} \<and> popped s' = popped s \<and> pc_results (at s' t) = {} \<and> results s' = results s"
  using assms by (auto simp: step_bodies popped_def accepted_tasks_def split: if_splits list.splits)

lemma step_flow:
  assumes "step_at cfg t ch (at s t) s = Some (Done s')"
  shows "set (accepted_tasks s) \<subseteq> set (accepted_tasks s') \<and>
    live_tasks s' t \<subseteq> live_tasks s t \<union> set (accepted_tasks s') \<and>
    live_results s' t \<subseteq> live_results s t \<union> {r. \<exists>tk\<in>live_tasks s t. responds cfg tk r}"
proof (cases "\<exists>r. at s t = W_Drop r \<or> (\<exists>tk. at s t = S_Body tk)")
  case True
  then consider r where "at s t = W_Drop r" | tk where "at s t = S_Body tk" by blast
  then show ?thesis
  proof cases
    case (1 r)
    with drop_flow [of cfg t r s s'] assms show ?thesis by (auto simp: live_tasks_def live_results_def)
  next
    case (2 tk)
    with submit_flow [of cfg t tk s s'] assms show ?thesis by (auto simp: live_tasks_def live_results_def)
  qed
next
  case False
  then show ?thesis
    using assms
    by (cases "at s t")
      (auto simp: goto_def record_events_def push_result_def abandon_result_def pop_body_def take_body_def
        Let_def flow_defs responds_def split: if_splits list.splits option.splits)
qed

definition sourced :: "pool_config \<Rightarrow> pool \<Rightarrow> bool" where
  "sourced cfg s \<longleftrightarrow>
     (\<forall>t. live_tasks s t \<subseteq> set (accepted_tasks s)) \<and>
     (\<forall>t. live_results s t \<subseteq> {r. \<exists>tk\<in>set (accepted_tasks s). responds cfg tk r})"

lemma act_flow:
  assumes "pool_act cfg t a s = Some (Done s')"
  shows "set (accepted_tasks s) \<subseteq> set (accepted_tasks s') \<and>
    live_tasks s' t \<subseteq> live_tasks s t \<union> set (accepted_tasks s') \<and>
    live_results s' t \<subseteq> live_results s t \<union> {r. \<exists>tk\<in>live_tasks s t. responds cfg tk r}"
proof (cases a)
  case (Call c)
  with assms have "at s t = Idle" "s' = goto t (call_entry c) s" by (auto split: if_splits)
  then show ?thesis by (cases c) (simp_all add: goto_def flow_defs)
next
  case (Step ch)
  with assms step_flow show ?thesis by simp
qed

lemma act_sourced:
  assumes "cfg_ok cfg" "pool_inv cfg s" "sourced cfg s" "pool_act cfg t a s = Some (Done s')"
  shows "sourced cfg s'"
proof -
  obtain out where frame: "confined t s s'" by (rule pool_act_inv [OF assms(1,2,4)]) simp
  note flow = act_flow [OF assms(4)]
  have src: "live_tasks s u \<subseteq> set (accepted_tasks s)"
    "live_results s u \<subseteq> {r. \<exists>tk\<in>set (accepted_tasks s). responds cfg tk r}" for u
    using assms(3) by (simp_all add: sourced_def)
  have own: "live_tasks s' t \<subseteq> set (accepted_tasks s')"
    "live_results s' t \<subseteq> {r. \<exists>tk\<in>set (accepted_tasks s'). responds cfg tk r}"
    using flow src [of t] by blast+
  have "live_tasks s' u \<subseteq> live_tasks s' t \<union> live_tasks s u"
    "live_results s' u \<subseteq> live_results s' t \<union> live_results s u" if "u \<noteq> t" for u
    using frame that by (auto simp: confined_def live_tasks_def live_results_def)
  note other = this
  have acc: "set (accepted_tasks s) \<subseteq> set (accepted_tasks s')" using flow by simp
  have res: "{r. \<exists>tk\<in>set (accepted_tasks s). responds cfg tk r} \<subseteq> {r. \<exists>tk\<in>set (accepted_tasks s'). responds cfg tk r}"
    using acc by blast
  have "live_tasks s' u \<subseteq> set (accepted_tasks s')" for u
    using other(1) [of u] own(1) src(1) [of u] acc by (cases "u = t") (simp_all, meson Un_least order_trans)
  moreover have "live_results s' u \<subseteq> {r. \<exists>tk\<in>set (accepted_tasks s'). responds cfg tk r}" for u
  proof (cases "u = t")
    case True
    then show ?thesis using own(2) by simp
  next
    case False
    have "live_results s' t \<union> live_results s u \<subseteq> {r. \<exists>tk\<in>set (accepted_tasks s'). responds cfg tk r}"
      using own(2) subset_trans [OF src(2) [of u] res] by (rule Un_least)
    with other(2) [OF False] show ?thesis by (rule subset_trans)
  qed
  ultimately show ?thesis unfolding sourced_def by blast
qed

lemma reach_sourced: "cfg_ok cfg \<Longrightarrow> pool_reach cfg s \<Longrightarrow> sourced cfg s"
proof (rotate_tac 1, induction rule: pool_reach.induct)
  case start
  show ?case by (simp add: sourced_def flow_defs) (simp add: pool_init_def)
next
  case (act s t a s')
  then show ?case using act_sourced pool_reach_inv by blast
qed

context handler
begin

lemma popped_meets_spec:
  assumes "cfg_dispatch cfg = runs" "cfg_ok cfg" "pool_reach cfg s" "r \<in> set (popped s)"
  shows "\<exists>tk\<in>set (accepted_tasks s). hr_correlation_id r = ht_correlation_id tk \<and>
    spec (ht_payload tk) (hr_outcome r)"
proof -
  have "r \<in> live_results s 0" using assms(4) by (simp add: live_results_def)
  with reach_sourced [OF assms(2,3)] obtain tk where "tk \<in> set (accepted_tasks s)" "responds cfg tk r"
    unfolding sourced_def by blast
  with assms(1) runs_spec show ?thesis by (auto simp: responds_def)
qed

end

section \<open>Losses and order\<close>

text \<open>When an event may happen, given the policies, whether the pool is stopped, and the position.\<close>

fun event_ok :: "pool_config \<Rightarrow> bool \<Rightarrow> pool_pc \<Rightarrow> event \<Rightarrow> bool" where
  "event_ok cfg st c (Ev_evict tk) \<longleftrightarrow> task_queue_overflow (cfg_options cfg) = DropOldestPendingTask"
| "event_ok cfg st c (Ev_drop r) \<longleftrightarrow> (\<exists>r. c = W_Drop r)"
| "event_ok cfg st c (Ev_abandon r) \<longleftrightarrow> st"
| "event_ok cfg st c _ \<longleftrightarrow> True"

lemma drop_body_events:
  assumes "drop_body cfg t r s = Done s'"
  shows "\<exists>es. events s' = events s @ es \<and> (\<forall>e\<in>set es. event_ok cfg (stop s) (W_Drop r) e)"
proof -
  obtain dropped kept where room: "make_room (cfg_result_capacity cfg) (results s) = (dropped, kept)"
    by (cases "make_room (cfg_result_capacity cfg) (results s)")
  show ?thesis
    using assms room by (cases "stop s") (auto simp: step_bodies)
qed

lemma step_events:
  assumes "step_at cfg t ch (at s t) s = Some (Done s')"
  shows "\<exists>es. events s' = events s @ es \<and> (\<forall>e\<in>set es. event_ok cfg (stop s) (at s t) e)"
proof (cases "\<exists>r. at s t = W_Drop r")
  case True
  then show ?thesis using assms drop_body_events by force
next
  case False
  then show ?thesis
    using assms
    by (cases "at s t")
      (auto simp: goto_def record_events_def push_result_def abandon_result_def pop_body_def take_body_def
        submit_body_def Let_def split: if_splits list.splits option.splits)
qed

lemma step_drop_position:
  assumes "step_at cfg t ch (at s t) s = Some (Done s')" "at s' t = W_Drop r"
  shows "result_queue_overflow (cfg_options cfg) = DropOldestCompletedResult"
proof (cases "\<exists>r. at s t = W_Drop r")
  case True
  with assms show ?thesis
    by (auto simp: step_bodies split: if_splits prod.splits)
next
  case False
  with assms show ?thesis
    by (cases "at s t")
      (auto simp: goto_def record_events_def push_result_def abandon_result_def pop_body_def take_body_def
        submit_body_def Let_def split: if_splits list.splits option.splits)
qed

definition losses_ok :: "pool_config \<Rightarrow> pool \<Rightarrow> bool" where
  "losses_ok cfg s \<longleftrightarrow>
     (\<forall>tk. Ev_evict tk \<in> set (events s) \<longrightarrow> task_queue_overflow (cfg_options cfg) = DropOldestPendingTask) \<and>
     (\<forall>r. Ev_drop r \<in> set (events s) \<longrightarrow> result_queue_overflow (cfg_options cfg) = DropOldestCompletedResult) \<and>
     (\<forall>r. Ev_abandon r \<in> set (events s) \<longrightarrow> stop s) \<and>
     (\<forall>t r. at s t = W_Drop r \<longrightarrow> result_queue_overflow (cfg_options cfg) = DropOldestCompletedResult)"

lemma act_losses:
  assumes "losses_ok cfg s" "pool_act cfg t a s = Some (Done s')"
  shows "losses_ok cfg s'"
proof (cases a)
  case (Call c)
  with assms show ?thesis
    by (cases c) (auto simp: losses_ok_def goto_def split: if_splits)
next
  case (Step ch)
  with assms(2) have st: "step_at cfg t ch (at s t) s = Some (Done s')" by simp
  from step_events [OF st] obtain es where es: "events s' = events s @ es"
    "\<forall>e\<in>set es. event_ok cfg (stop s) (at s t) e" by blast
  from step_frame [OF st] have fr: "\<And>u. u \<noteq> t \<Longrightarrow> at s' u = at s u" "stop s \<Longrightarrow> stop s'"
    by (auto simp: confined_def)
  have "result_queue_overflow (cfg_options cfg) = DropOldestCompletedResult" if "at s' u = W_Drop r" for u r
    using that assms(1) fr(1) step_drop_position [OF st] by (cases "u = t") (auto simp: losses_ok_def)
  moreover have "event_ok cfg (stop s) (at s t) e" if "e \<in> set (events s')" "e \<notin> set (events s)" for e
    using that es by auto
  note new = this
  have "task_queue_overflow (cfg_options cfg) = DropOldestPendingTask" if "Ev_evict tk \<in> set (events s')" for tk
    using new [OF that] assms(1) by (auto simp: losses_ok_def)
  moreover have "result_queue_overflow (cfg_options cfg) = DropOldestCompletedResult" if "Ev_drop r \<in> set (events s')" for r
    using new [OF that] assms(1) by (auto simp: losses_ok_def)
  moreover have "stop s'" if "Ev_abandon r \<in> set (events s')" for r
    using new [OF that] assms(1) fr(2) by (auto simp: losses_ok_def)
  ultimately show ?thesis by (auto simp: losses_ok_def)
qed

lemma reach_losses: "pool_reach cfg s \<Longrightarrow> losses_ok cfg s"
proof (induction rule: pool_reach.induct)
  case start
  show ?case by (auto simp: losses_ok_def pool_init_def)
qed (rule act_losses)

text \<open>The pending tasks are the last accepted ones, in the order of acceptance.\<close>

lemma step_fifo:
  assumes "step_at cfg t ch (at s t) s = Some (Done s')" "suffix (tasks s) (accepted_tasks s)"
  shows "suffix (tasks s') (accepted_tasks s')"
proof (cases "\<exists>r. at s t = W_Drop r")
  case True
  then show ?thesis using assms drop_flow by force
next
  case False
  have tail: "suffix (tl xs @ [x]) (ys @ [x]) \<and> suffix (tl xs) ys \<and> suffix (xs @ [x]) (ys @ [x])" if "suffix xs ys"
    for xs ys and x :: HandlerTask using that by (cases xs) (auto simp: suffix_def)
  from False show ?thesis
    using assms tail [OF assms(2)]
    by (cases "at s t")
      (auto simp: goto_def record_events_def push_result_def abandon_result_def pop_body_def take_body_def
        submit_body_def Let_def accepted_tasks_def split: if_splits list.splits option.splits)
qed

lemma reach_fifo: "pool_reach cfg s \<Longrightarrow> suffix (tasks s) (accepted_tasks s)"
proof (induction rule: pool_reach.induct)
  case start
  show ?case by (simp add: pool_init_def accepted_tasks_def)
next
  case (act s t a s')
  show ?case
  proof (cases a)
    case (Call c)
    with act show ?thesis by (auto simp: goto_def accepted_tasks_def split: if_splits)
  next
    case (Step ch)
    with act step_fifo show ?thesis by simp
  qed
qed

section \<open>Runs\<close>

lemma config_ok:
  assumes "WorkerPool_config b n q disp opts = Inr cfg"
  shows "cfg_ok cfg" "cfg_task_capacity cfg = q" "cfg_options cfg = opts" "cfg_dispatch cfg = disp"
    "cfg_result_capacity cfg =
       (if result_queue_capacity_override opts \<noteq> 0 then result_queue_capacity_override opts else q)"
  using assms by (auto simp: WorkerPool_config_def cfg_ok_def Let_def split: if_splits)

lemma run_done:
  assumes "cfg_ok cfg" "pool_reach cfg s" "pool_run cfg sched s = Some out"
  shows "\<exists>s'. out = Done s' \<and> pool_reach cfg s'"
  using assms(2,3)
proof (induction sched arbitrary: s)
  case Nil
  then show ?case by (intro exI [of _ s]) simp
next
  case (Cons x sched)
  obtain t a where x: "x = (t, a)" by (cases x)
  with Cons.prems(2) obtain out' where o: "pool_act cfg t a s = Some out'" by (auto split: option.splits)
  obtain s1 where s1: "out' = Done s1"
    using pool_act_inv [OF assms(1) pool_reach_inv [OF assms(1) Cons.prems(1)] o] by blast
  from Cons.prems(2) x o s1 have "pool_run cfg sched s1 = Some out" by simp
  with Cons.IH [OF pool_reach.act [OF Cons.prems(1) o [unfolded s1]]] show ?case by simp
qed

lemma run_reach: "pool_run cfg sched (pool_init cfg) = Some (Done s) \<Longrightarrow> pool_reach cfg s"
  by (rule pool_run_reach [OF _ pool_reach.start])

lemma accepted_ids: "accepted s = mset (map ht_correlation_id (accepted_tasks s))"
proof -
  have "sum_list (map accepted_id es) =
      mset (map ht_correlation_id (concat (map (\<lambda>e. case e of Ev_accept tk \<Rightarrow> [tk] | _ \<Rightarrow> []) es)))" for es
    by (induction es) (auto split: event.splits)
  then show ?thesis by (simp add: accepted_def accepted_tasks_def)
qed

lemma departed_popped:
  assumes "\<forall>e\<in>set (events s). (\<forall>tk. e \<noteq> Ev_evict tk) \<and> (\<forall>r. e \<noteq> Ev_drop r) \<and> (\<forall>r. e \<noteq> Ev_abandon r)"
  shows "departed s = mset (map hr_correlation_id (popped s))"
proof -
  have "sum_list (map departed_id es) =
      mset (map hr_correlation_id (concat (map (\<lambda>e. case e of Ev_pop r \<Rightarrow> [r] | _ \<Rightarrow> []) es)))"
    if "\<forall>e\<in>set es. (\<forall>tk. e \<noteq> Ev_evict tk) \<and> (\<forall>r. e \<noteq> Ev_drop r) \<and> (\<forall>r. e \<noteq> Ev_abandon r)" for es
    using that by (induction es) (auto split: event.splits)
  with assms show ?thesis by (simp add: departed_def popped_def)
qed

text \<open>One echo worker with room for one task; a caller submits a task, the worker serves it, and the
  caller pops the result.\<close>

definition lossless :: WorkerPoolOptions where
  "lossless = \<lparr>task_queue_overflow = RejectNewTask, result_queue_overflow = BlockWorkerUntilPopped,
     result_queue_capacity_override = 0\<rparr>"

definition pool_demo_cfg :: pool_config where
  "pool_demo_cfg = \<lparr>cfg_build = Debug, cfg_workers = 1, cfg_task_capacity = 1, cfg_result_capacity = 1,
     cfg_options = lossless, cfg_dispatch = echo_runs\<rparr>"

definition pool_demo_task :: HandlerTask where
  "pool_demo_task = \<lparr>ht_correlation_id = 9, ht_payload = [104, 105]\<rparr>"

definition go :: act where
  "go = Step \<lparr>ch_spurious = False, ch_pick = 0, ch_run = Returned (Inr [104, 105])\<rparr>"

definition pool_demo_schedule :: "(tid \<times> act) list" where
  "pool_demo_schedule = (1, Call (Try_submit pool_demo_task)) # replicate 3 (1, go) @ replicate 9 (0, go) @
     (1, Call Try_pop_result) # replicate 3 (1, go)"

lemma pool_demo_config: "WorkerPool_config Debug 1 1 echo_runs lossless = Inr pool_demo_cfg"
  by (simp add: WorkerPool_config_def pool_demo_cfg_def lossless_def)

lemma pool_demo_run:
  "\<exists>s. pool_run pool_demo_cfg pool_demo_schedule (pool_init pool_demo_cfg) = Some (Done s) \<and> \<not> stop s \<and>
     popped s = [\<lparr>hr_correlation_id = 9, hr_outcome = Inr [104, 105]\<rparr>]"
  by (simp add: pool_demo_schedule_def pool_demo_cfg_def lossless_def pool_demo_task_def go_def pool_init_def step_bodies
      echo_runs_def echo_dispatch_def popped_def numeral_eq_Suc)

section \<open>Properties\<close>

text \<open>C12: Bounds, mutual exclusion, and no failing assertion. In every interleaving of any number of
  callers with the workers of a pool the constructor accepts, in a debug build, no assertion fails; the
  task queue never exceeds the capacity given, nor the result queue its own (the override when it is
  not zero); and no two threads are in a critical section of the same mutex.\<close>

theorem pool_bounds:
  assumes "WorkerPool_config b n q disp opts = Inr cfg" and "pool_run cfg sched (pool_init cfg) = Some out"
  shows "\<exists>s. out = Done s \<and> length (tasks s) \<le> q \<and>
    length (results s) \<le>
      (if result_queue_capacity_override opts \<noteq> 0 then result_queue_capacity_override opts else q) \<and>
    (\<forall>t u. holds_task (at s t) \<and> holds_task (at s u) \<longrightarrow> t = u) \<and>
    (\<forall>t u. holds_result (at s t) \<and> holds_result (at s u) \<longrightarrow> t = u)"
proof -
  note cfg = config_ok [OF assms(1)]
  from run_done [OF cfg(1) pool_reach.start assms(2)] obtain s where s: "out = Done s" "pool_reach cfg s" by blast
  have inv: "pool_inv cfg s" by (rule pool_reach_inv [OF cfg(1) s(2)])
  then have "sizes_ok cfg s" by (simp add: pool_inv_def)
  then have "length (tasks s) \<le> q" "length (results s) \<le>
      (if result_queue_capacity_override opts \<noteq> 0 then result_queue_capacity_override opts else q)"
    using cfg by (simp_all add: sizes_ok_def)
  with s(1) holds_task_unique [OF inv] holds_result_unique [OF inv] show ?thesis by blast
qed

theorem pool_bounds_witness:
  "\<exists>s. pool_run pool_demo_cfg pool_demo_schedule (pool_init pool_demo_cfg) = Some (Done s) \<and>
     length (tasks s) \<le> 1 \<and> length (results s) \<le> 1"
proof -
  obtain s where r: "pool_run pool_demo_cfg pool_demo_schedule (pool_init pool_demo_cfg) = Some (Done s)"
    using pool_demo_run by blast
  from pool_bounds [OF pool_demo_config r] r show ?thesis by (simp add: lossless_def)
qed

text \<open>C8: No task is lost or served twice. At every moment of every interleaving the ids of the accepted
  tasks are, each as often as it was accepted, those of the pending tasks, of the tasks and results the
  workers carry, of the results waiting, and of those that left; pending tasks are the last accepted
  ones in their order. Ids leave only by being popped, by being evicted or dropped under the policy that
  says so, or, after the stop, by a worker abandoning its result: under the default policies and before
  the stop, every accepted task is still in the pool or was returned exactly once.\<close>

theorem pool_conservation:
  assumes "WorkerPool_config b n q disp opts = Inr cfg" and "pool_run cfg sched (pool_init cfg) = Some (Done s)"
  shows "accepted s = in_queues s + in_hands cfg s + departed s \<and>
    suffix (tasks s) (accepted_tasks s) \<and>
    (\<forall>tk. Ev_evict tk \<in> set (events s) \<longrightarrow> task_queue_overflow opts = DropOldestPendingTask) \<and>
    (\<forall>r. Ev_drop r \<in> set (events s) \<longrightarrow> result_queue_overflow opts = DropOldestCompletedResult) \<and>
    (\<forall>r. Ev_abandon r \<in> set (events s) \<longrightarrow> stop s) \<and>
    (task_queue_overflow opts = RejectNewTask \<and> result_queue_overflow opts = BlockWorkerUntilPopped \<and> \<not> stop s \<longrightarrow>
       mset (map ht_correlation_id (accepted_tasks s)) =
         in_queues s + in_hands cfg s + mset (map hr_correlation_id (popped s)))"
proof -
  note cfg = config_ok [OF assms(1)] and reach = run_reach [OF assms(2)]
  have con: "accepted s = in_queues s + in_hands cfg s + departed s"
    using reach_conserved [OF cfg(1) reach] by (simp add: conserved_def)
  have losses: "\<forall>tk. Ev_evict tk \<in> set (events s) \<longrightarrow> task_queue_overflow opts = DropOldestPendingTask"
    "\<forall>r. Ev_drop r \<in> set (events s) \<longrightarrow> result_queue_overflow opts = DropOldestCompletedResult"
    "\<forall>r. Ev_abandon r \<in> set (events s) \<longrightarrow> stop s"
    using reach_losses [OF reach] cfg(3) by (simp_all add: losses_ok_def)
  have "departed s = mset (map hr_correlation_id (popped s))"
    if "task_queue_overflow opts = RejectNewTask" "result_queue_overflow opts = BlockWorkerUntilPopped" "\<not> stop s"
    using losses that by (intro departed_popped) auto
  with con losses reach_fifo [OF reach] show ?thesis by (auto simp: accepted_ids)
qed

theorem pool_conservation_witness:
  "\<exists>s. pool_run pool_demo_cfg pool_demo_schedule (pool_init pool_demo_cfg) = Some (Done s) \<and>
     mset (map ht_correlation_id (accepted_tasks s)) = in_queues s + in_hands pool_demo_cfg s + {#9#}"
proof -
  obtain s where r: "pool_run pool_demo_cfg pool_demo_schedule (pool_init pool_demo_cfg) = Some (Done s)" "\<not> stop s"
    "popped s = [\<lparr>hr_correlation_id = 9, hr_outcome = Inr [104, 105]\<rparr>]"
    using pool_demo_run by blast
  from pool_conservation [OF pool_demo_config r(1)] r show ?thesis by (simp add: lossless_def)
qed

text \<open>C23: Every response answers a request. Each result a caller pops carries the id of a task that was
  accepted, and its outcome is that of a run of the handler on that task's payload, an exception turned
  into an Internal error; with the echo handler the outcome is the request's payload itself.\<close>

theorem pool_responses:
  assumes "WorkerPool_config b n q disp opts = Inr cfg" and "pool_run cfg sched (pool_init cfg) = Some (Done s)"
  shows "(\<forall>r\<in>set (popped s). \<exists>tk\<in>set (accepted_tasks s). hr_correlation_id r = ht_correlation_id tk \<and>
      (\<exists>run. disp (ht_payload tk) run \<and> hr_outcome r = guarded run)) \<and>
    (disp = echo_runs \<longrightarrow>
      (\<forall>r\<in>set (popped s). \<exists>tk\<in>set (accepted_tasks s). hr_correlation_id r = ht_correlation_id tk \<and>
         hr_outcome r = Inr (ht_payload tk)))"
proof -
  note cfg = config_ok [OF assms(1)] and reach = run_reach [OF assms(2)]
  have "\<exists>tk\<in>set (accepted_tasks s). responds cfg tk r" if "r \<in> set (popped s)" for r
    using reach_sourced [OF cfg(1) reach] that unfolding sourced_def live_results_def by blast
  moreover have "\<exists>tk\<in>set (accepted_tasks s). hr_correlation_id r = ht_correlation_id tk \<and>
      hr_outcome r = Inr (ht_payload tk)" if "disp = echo_runs" "r \<in> set (popped s)" for r
    using echo.popped_meets_spec [OF _ cfg(1) reach that(2)] cfg(4) that(1) by simp
  ultimately show ?thesis by (simp add: responds_def cfg(4))
qed

theorem pool_responses_witness:
  "\<exists>s. pool_run pool_demo_cfg pool_demo_schedule (pool_init pool_demo_cfg) = Some (Done s) \<and>
     (\<exists>tk\<in>set (accepted_tasks s). ht_correlation_id tk = 9 \<and> ht_payload tk = [104, 105])"
proof -
  obtain s where r: "pool_run pool_demo_cfg pool_demo_schedule (pool_init pool_demo_cfg) = Some (Done s)" "\<not> stop s"
    "popped s = [\<lparr>hr_correlation_id = 9, hr_outcome = Inr [104, 105]\<rparr>]"
    using pool_demo_run by blast
  from pool_responses [OF pool_demo_config r(1)] r show ?thesis by fastforce
qed

end
