(* ===== verification/Worker_Pool_Progress.thy ===== *)
theory Worker_Pool_Progress
  imports Worker_Pool_Safety
begin

text \<open>
  When the worker pool makes progress: before the stop no wake-up is lost, so pending work with room for
  its result never leaves every thread blocked; after the stop a wake-up can be lost, and then
  \<^verbatim>\<open>shutdown\<close> never returns.
\<close>

section \<open>Wake-ups\<close>

definition task_wake :: "pool_config \<Rightarrow> pool \<Rightarrow> bool" where
  "task_wake cfg s \<longleftrightarrow>
     (tasks s \<noteq> [] \<longrightarrow> (\<exists>w<cfg_workers cfg. w \<notin> task_waiters s) \<or> (\<exists>t. at s t = S_Notify))"

definition result_wake :: "pool_config \<Rightarrow> pool \<Rightarrow> bool" where
  "result_wake cfg s \<longleftrightarrow>
     (\<not> stop s \<and> result_waiters s \<noteq> {} \<and> length (results s) < cfg_result_capacity cfg \<longrightarrow>
        (\<exists>t. at s t = P_Notify))"

lemmas plain_bodies = goto_def record_events_def push_result_def abandon_result_def pop_body_def take_body_def
  Let_def

lemma drop_wake:
  assumes "drop_body cfg t r s = Done s'" "0 < cfg_result_capacity cfg"
  shows "task_waiters s' = task_waiters s \<and> tasks s' = tasks s \<and> result_waiters s' = result_waiters s \<and>
    stop s' = stop s \<and> (\<not> stop s \<and> length (results s') < cfg_result_capacity cfg \<longrightarrow>
      length (results s) < cfg_result_capacity cfg)"
proof -
  have room: "length rs \<ge> cap \<Longrightarrow> 0 < cap \<Longrightarrow> length (snd (make_room cap rs)) + 1 = cap" for cap and rs :: "HandlerResult list"
  proof (induction cap rs rule: make_room.induct)
    case (2 cap r rs)
    show ?case
    proof (cases "cap \<le> length rs")
      case True
      with 2 show ?thesis by (simp add: split_def)
    next
      case False
      with 2(2) have "length rs + 1 = cap" by simp
      with make_room_nothing [of rs cap] show ?thesis by (simp add: split_def)
    qed
  qed simp
  show ?thesis
    using assms room [of "cfg_result_capacity cfg" "results s"]
    by (cases "stop s"; cases "length (results s) < cfg_result_capacity cfg")
      (auto simp: drop_body_def plain_bodies split_def)
qed

lemma step_task_wake:
  assumes "step_at cfg t ch (at s t) s = Some (Done s')" "at s t \<noteq> S_Notify" "at s t \<noteq> W_Task_Block"
    and "0 < cfg_result_capacity cfg"
  shows "task_waiters s' \<subseteq> task_waiters s \<and> (tasks s' \<noteq> [] \<longrightarrow> tasks s \<noteq> [] \<or> at s' t = S_Notify)"
proof (cases "\<exists>r. at s t = W_Drop r")
  case True
  with assms drop_wake show ?thesis by fastforce
next
  case False
  with assms show ?thesis
    by (cases "at s t")
      (auto simp: plain_bodies submit_body_def notify_one_def split: if_splits list.splits option.splits)
qed

lemma step_result_wake:
  assumes "step_at cfg t ch (at s t) s = Some (Done s')" "at s t \<noteq> P_Notify" "\<forall>r. at s t \<noteq> W_Result_Block r"
    and "0 < cfg_result_capacity cfg" "\<not> stop s'"
  shows "result_waiters s' \<subseteq> result_waiters s \<and>
    (length (results s') < cfg_result_capacity cfg \<longrightarrow>
       length (results s) < cfg_result_capacity cfg \<or> at s' t = P_Notify)"
proof (cases "\<exists>r. at s t = W_Drop r")
  case True
  with assms drop_wake show ?thesis by fastforce
next
  case False
  with assms show ?thesis
    by (cases "at s t")
      (auto simp: plain_bodies submit_body_def notify_one_def split: if_splits list.splits option.splits)
qed

lemma task_wake_step:
  assumes "cfg_ok cfg" "pool_inv cfg s" "task_wake cfg s" "step_at cfg t ch (at s t) s = Some (Done s')"
  shows "task_wake cfg s'"
proof -
  have th: "thread_ok cfg s u" for u using assms(2) by (simp add: pool_inv_def)
  from assms(1) have caps: "0 < cfg_workers cfg" "0 < cfg_result_capacity cfg" by (simp_all add: cfg_ok_def)
  consider "at s t = S_Notify" | "at s t = W_Task_Block" | "at s t \<noteq> S_Notify" "at s t \<noteq> W_Task_Block" by blast
  then show ?thesis
  proof cases
    case 1
    with assms(4) obtain w where w: "notify_one (ch_pick ch) (task_waiters s) = Some w" "task_waiters s' = w"
      by (auto simp: goto_def split: option.splits)
    have "\<exists>u<cfg_workers cfg. u \<notin> w"
    proof (cases "task_waiters s = {}")
      case True
      with w caps show ?thesis by (auto simp: notify_one_def)
    next
      case False
      with w have "ch_pick ch \<in> task_waiters s" "ch_pick ch \<notin> w" by (auto simp: notify_one_def split: if_splits)
      moreover from this th [of "ch_pick ch"] have "ch_pick ch < cfg_workers cfg" by (auto simp: thread_ok_def)
      ultimately show ?thesis by blast
    qed
    with w show ?thesis by (simp add: task_wake_def)
  next
    case 2
    with th [of t] have "tasks s = []" by (simp add: thread_ok_def)
    with 2 assms(4) show ?thesis by (auto simp: task_wake_def goto_def)
  next
    case 3
    from step_task_wake [OF assms(4) 3 caps(2)] step_frame [OF assms(4)] 3(1) assms(3) show ?thesis
      unfolding task_wake_def confined_def by (metis subsetD)
  qed
qed

lemma result_wake_step:
  assumes "cfg_ok cfg" "pool_inv cfg s" "result_wake cfg s" "step_at cfg t ch (at s t) s = Some (Done s')"
  shows "result_wake cfg s'"
proof -
  have th: "thread_ok cfg s t" using assms(2) by (simp add: pool_inv_def)
  from assms(1) have cap: "0 < cfg_result_capacity cfg" by (simp add: cfg_ok_def)
  from step_frame [OF assms(4)] have fr: "stop s \<Longrightarrow> stop s'" "\<And>u. u \<noteq> t \<Longrightarrow> at s' u = at s u"
    by (auto simp: confined_def)
  consider "at s t = P_Notify" | r where "at s t = W_Result_Block r"
    | "at s t \<noteq> P_Notify" "\<forall>r. at s t \<noteq> W_Result_Block r" by blast
  then show ?thesis
  proof cases
    case 1
    with assms(4) show ?thesis by (auto simp: result_wake_def goto_def)
  next
    case (2 r)
    with th have "cfg_result_capacity cfg \<le> length (results s)" by (simp add: thread_ok_def)
    with 2 assms(4) show ?thesis by (auto simp: result_wake_def goto_def)
  next
    case 3
    show ?thesis unfolding result_wake_def
    proof (intro impI, elim conjE)
      assume a: "\<not> stop s'" "result_waiters s' \<noteq> {}" "length (results s') < cfg_result_capacity cfg"
      from step_result_wake [OF assms(4) 3 cap a(1)] a
      have "result_waiters s \<noteq> {}" "length (results s) < cfg_result_capacity cfg \<or> at s' t = P_Notify" by auto
      moreover have "\<not> stop s" using a(1) fr(1) by blast
      ultimately consider "at s' t = P_Notify" | u where "at s u = P_Notify"
        using assms(3) unfolding result_wake_def by blast
      then show "\<exists>u. at s' u = P_Notify"
        using fr(2) 3(1) by cases (metis, metis)
    qed
  qed
qed

lemma reach_wake:
  "cfg_ok cfg \<Longrightarrow> pool_reach cfg s \<Longrightarrow> task_wake cfg s \<and> result_wake cfg s"
proof (rotate_tac 1, induction rule: pool_reach.induct)
  case start
  show ?case by (simp add: task_wake_def result_wake_def pool_init_def)
next
  case (act s t a s')
  have inv: "pool_inv cfg s" by (rule pool_reach_inv [OF act.prems act.hyps(1)])
  show ?case
  proof (cases a)
    case (Call c)
    with act have s': "s' = goto t (call_entry c) s" "at s t = Idle" by (auto split: if_splits)
    then have keep: "\<And>u. at s u = S_Notify \<Longrightarrow> at s' u = S_Notify" "\<And>u. at s u = P_Notify \<Longrightarrow> at s' u = P_Notify"
      by (auto simp: goto_def)
    have "tasks s' = tasks s" "task_waiters s' = task_waiters s" "stop s' = stop s"
      "result_waiters s' = result_waiters s" "results s' = results s" using s' by (simp_all add: goto_def)
    with keep act.IH [OF act.prems] show ?thesis unfolding task_wake_def result_wake_def by metis
  next
    case (Step ch)
    with act.hyps(2) have "step_at cfg t ch (at s t) s = Some (Done s')" by simp
    with task_wake_step [OF act.prems inv] result_wake_step [OF act.prems inv] act.IH [OF act.prems]
    show ?thesis by blast
  qed
qed

section \<open>Who can move\<close>

definition moves :: "pool_config \<Rightarrow> pool \<Rightarrow> tid \<Rightarrow> bool" where
  "moves cfg s t \<longleftrightarrow> (\<exists>ch out. \<not> ch_spurious ch \<and> step_at cfg t ch (at s t) s = Some out)"

lemma movesI: "step_at cfg t \<lparr>ch_spurious = False, ch_pick = p, ch_run = r\<rparr> (at s t) s = Some out \<Longrightarrow> moves cfg s t"
  unfolding moves_def by (intro exI [of _ "\<lparr>ch_spurious = False, ch_pick = p, ch_run = r\<rparr>"] exI [of _ out]) simp

lemma lock_holder_moves: "holds_task (at s t) \<or> holds_result (at s t) \<Longrightarrow> moves cfg s t"
  by (cases "at s t") (auto intro!: movesI [of cfg t 0 Threw_other s])

lemma notifier_moves:
  assumes "at s t = S_Notify \<or> at s t = P_Notify \<or> at s t = W_Notify_Result"
  shows "moves cfg s t"
proof -
  have "\<exists>p w'. notify_one p w = Some w'" for w by (auto simp: notify_one_def)
  then obtain p1 w1 p2 w2 where "notify_one p1 (task_waiters s) = Some w1" "notify_one p2 (result_waiters s) = Some w2"
    by metis
  then show ?thesis
    using assms by (auto intro: movesI [of cfg t p1 Threw_other s] movesI [of cfg t p2 Threw_other s])
qed

lemma awake_worker_moves:
  assumes "worker_pc (at s w)" "w \<notin> task_waiters s" "w \<notin> result_waiters s" "at s w \<noteq> W_Finished" "thread_ok cfg s w"
    and "task_lock s = None" "result_lock s = None" "\<forall>p. \<exists>run. cfg_dispatch cfg p run"
  shows "moves cfg s w"
proof (cases "at s w")
  case (W_Dispatch tk)
  from assms(8) obtain run where "cfg_dispatch cfg (ht_payload tk) run" by blast
  with W_Dispatch show ?thesis by (auto intro: movesI [of cfg w 0 run s])
next
  case W_Notify_Result
  then show ?thesis by (auto intro: notifier_moves)
qed (use assms in \<open>auto simp: thread_ok_def intro: lock_holder_moves movesI [of cfg w 0 Threw_other s]\<close>)

section \<open>Properties\<close>

text \<open>C24: No deadlock before the stop. In every interleaving, while the pool is not stopped, if a task is
  pending and there is room for a result, and the handler always returns, then some thread can move,
  without any spurious wake-up: no notification is ever lost, whatever the policies and the number of
  workers and callers.\<close>

theorem pool_no_deadlock:
  assumes "WorkerPool_config b n q disp opts = Inr cfg" and "pool_run cfg sched (pool_init cfg) = Some (Done s)"
    and "\<not> stop s" "tasks s \<noteq> []" "length (results s) < cfg_result_capacity cfg" "\<forall>p. \<exists>run. disp p run"
  shows "\<exists>t ch out. \<not> ch_spurious ch \<and> pool_act cfg t (Step ch) s = Some out"
proof -
  note cfg = config_ok [OF assms(1)] and reach = run_reach [OF assms(2)]
  have th: "thread_ok cfg s t" for t
    using pool_reach_inv [OF cfg(1) reach] by (simp add: pool_inv_def)
  note wake = reach_wake [OF cfg(1) reach]
  have "\<exists>t. moves cfg s t"
  proof (cases "task_lock s = None \<and> result_lock s = None")
    case False
    then obtain t where "task_lock s = Some t \<or> result_lock s = Some t" by auto
    with th [of t] show ?thesis by (auto simp: thread_ok_def intro: lock_holder_moves)
  next
    case True
    from wake assms(4) consider t where "at s t = S_Notify" | w where "w < cfg_workers cfg" "w \<notin> task_waiters s"
      by (auto simp: task_wake_def)
    then show ?thesis
    proof cases
      case 1
      then show ?thesis using notifier_moves by blast
    next
      case (2 w)
      show ?thesis
      proof (cases "w \<in> result_waiters s")
        case True
        with wake assms(3,5) obtain t where "at s t = P_Notify" by (auto simp: result_wake_def)
        then show ?thesis using notifier_moves by blast
      next
        case False
        have "at s w \<noteq> W_Finished" using th [of w] assms(3) by (auto simp: thread_ok_def)
        with awake_worker_moves [of s w cfg] 2 False True th [of w] assms(6) cfg(4) show ?thesis
          by (auto simp: thread_ok_def)
      qed
    qed
  qed
  then show ?thesis by (auto simp: moves_def)
qed

text \<open>A worker asleep, a task submitted, and the caller about to notify.\<close>

definition submit_schedule :: "(tid \<times> act) list" where
  "submit_schedule = replicate 3 (0, go) @ (1, Call (Try_submit pool_demo_task)) # replicate 2 (1, go)"

theorem pool_no_deadlock_witness:
  "\<exists>s. pool_run pool_demo_cfg submit_schedule (pool_init pool_demo_cfg) = Some (Done s) \<and>
     (\<exists>t ch out. \<not> ch_spurious ch \<and> pool_act pool_demo_cfg t (Step ch) s = Some out)"
proof -
  have "\<exists>s. pool_run pool_demo_cfg submit_schedule (pool_init pool_demo_cfg) = Some (Done s) \<and>
      \<not> stop s \<and> tasks s \<noteq> [] \<and> length (results s) < cfg_result_capacity pool_demo_cfg"
    by (simp add: submit_schedule_def pool_demo_cfg_def lossless_def pool_demo_task_def go_def pool_init_def
        step_bodies numeral_eq_Suc)
  then obtain s where s: "pool_run pool_demo_cfg submit_schedule (pool_init pool_demo_cfg) = Some (Done s)"
    "\<not> stop s" "tasks s \<noteq> []" "length (results s) < cfg_result_capacity pool_demo_cfg" by blast
  have "\<forall>p. \<exists>run. echo_runs p run" by (simp add: echo_runs_def)
  from pool_no_deadlock [OF pool_demo_config s this] s(1) show ?thesis by blast
qed

section \<open>Stopping the pool can hang\<close>

definition hang_schedule :: "(tid \<times> act) list" where
  "hang_schedule = [(0, go), (0, go), (1, Call Shutdown), (1, go), (1, go), (1, go), (0, go)]"

definition spurious_act :: "act \<Rightarrow> bool" where
  "spurious_act a \<longleftrightarrow> (case a of Call _ \<Rightarrow> False | Step ch \<Rightarrow> ch_spurious ch)"

definition hung :: "pool \<Rightarrow> bool" where
  "hung s \<longleftrightarrow> stop s \<and> 0 \<in> task_waiters s \<and> at s 0 = W_Task_Waiting \<and> at s 1 = D_Join \<and>
     (\<forall>t. t \<noteq> 0 \<longrightarrow> \<not> worker_pc (at s t) \<and> at s t \<noteq> S_Notify \<and> at s t \<noteq> D_Notify_Task)"

lemma hung_act:
  assumes "hung s" "pool_act pool_demo_cfg t a s = Some (Done s')" "\<not> spurious_act a"
  shows "hung s'"
proof (cases a)
  case (Call c)
  with assms(2) have s': "at s t = Idle" "s' = goto t (call_entry c) s" by (auto split: if_splits)
  have "at s t \<noteq> at s 0" "at s t \<noteq> at s 1" using assms(1) s'(1) by (simp_all add: hung_def)
  then have "t \<noteq> 0" "t \<noteq> 1" by metis+
  with assms(1) s' show ?thesis by (cases c) (auto simp: hung_def goto_def)
next
  case (Step ch)
  with assms have st: "step_at pool_demo_cfg t ch (at s t) s = Some (Done s')" "\<not> ch_spurious ch"
    by (simp_all add: spurious_act_def)
  have at: "at s 0 = W_Task_Waiting" "0 \<in> task_waiters s" "at s 1 = D_Join" using assms(1) by (simp_all add: hung_def)
  have "t \<noteq> 0" using st at by (intro notI) simp
  moreover have "t \<noteq> 1" using st at by (intro notI) (simp add: pool_demo_cfg_def)
  ultimately have "t \<noteq> 0" "t \<noteq> 1" .
  with assms(1) have pc: "\<not> worker_pc (at s t)" "at s t \<noteq> S_Notify" "at s t \<noteq> D_Notify_Task"
    and st0: "stop s" by (auto simp: hung_def)
  have "task_waiters s' = task_waiters s \<and> stop s' \<and> \<not> worker_pc (at s' t) \<and> at s' t \<noteq> S_Notify \<and>
      at s' t \<noteq> D_Notify_Task"
    using st(1) pc st0
    by (cases "at s t") (auto simp: plain_bodies submit_body_def split: if_splits list.splits)
  with step_frame [OF st(1)] assms(1) \<open>t \<noteq> 0\<close> \<open>t \<noteq> 1\<close> show ?thesis
    by (auto simp: hung_def confined_def)
qed

lemma hung_run:
  "hung s \<Longrightarrow> pool_run pool_demo_cfg sched s = Some (Done s') \<Longrightarrow> \<forall>x\<in>set sched. \<not> spurious_act (snd x) \<Longrightarrow> hung s'"
proof (induction sched arbitrary: s)
  case (Cons x sched)
  obtain t a where x: "x = (t, a)" by (cases x)
  with Cons.prems(2) obtain s1 where s1: "pool_act pool_demo_cfg t a s = Some (Done s1)"
    "pool_run pool_demo_cfg sched s1 = Some (Done s')" by (auto split: option.splits outcome.splits)
  from hung_act [OF Cons.prems(1) s1(1)] Cons.prems(3) x Cons.IH [OF _ s1(2)] show ?case by simp
qed simp

lemma pool_run_append:
  "pool_run cfg (xs @ ys) s =
     (case pool_run cfg xs s of Some (Done s') \<Rightarrow> pool_run cfg ys s' | r \<Rightarrow> r)"
  by (induction cfg xs s rule: pool_run.induct) (auto split: option.splits outcome.splits)

lemma hang_schedule_hangs:
  "\<exists>s. pool_run pool_demo_cfg hang_schedule (pool_init pool_demo_cfg) = Some (Done s) \<and> hung s"
  by (simp add: hang_schedule_def pool_demo_cfg_def lossless_def go_def pool_init_def step_bodies hung_def)

text \<open>C13: \<^verbatim>\<open>shutdown\<close> can hang. \<^verbatim>\<open>stop_\<close> is set and the workers are notified without the task mutex, so both
  can happen between a worker's evaluation of its wait predicate (not stopped, no task) and its going to
  sleep. In that schedule the worker sleeps with the pool stopped and the caller waits to join it, and
  however the run goes on, whatever any thread calls, as long as no wake-up is spurious, both stay there:
  later submissions are refused without notifying, and nothing else notifies the task condition.\<close>

theorem pool_shutdown_hangs:
  assumes "pool_run pool_demo_cfg (hang_schedule @ sched) (pool_init pool_demo_cfg) = Some (Done s)"
    and "\<forall>x\<in>set sched. \<not> spurious_act (snd x)"
  shows "stop s \<and> at s 0 = W_Task_Waiting \<and> 0 \<in> task_waiters s \<and> at s 1 = D_Join"
proof -
  obtain s0 where s0: "pool_run pool_demo_cfg hang_schedule (pool_init pool_demo_cfg) = Some (Done s0)" "hung s0"
    using hang_schedule_hangs by blast
  with assms(1) have "pool_run pool_demo_cfg sched s0 = Some (Done s)" by (simp add: pool_run_append)
  from hung_run [OF s0(2) this assms(2)] show ?thesis by (simp add: hung_def)
qed

theorem pool_shutdown_hangs_witness:
  "\<exists>s. pool_run pool_demo_cfg
       (hang_schedule @ [(2, Call (Try_submit pool_demo_task)), (2, go), (2, go), (3, Call Shutdown), (3, go)])
       (pool_init pool_demo_cfg) = Some (Done s) \<and> at s 0 = W_Task_Waiting \<and> at s 1 = D_Join"
proof -
  let ?more = "[(2, Call (Try_submit pool_demo_task)), (2, go), (2, go), (3, Call Shutdown), (3, go)]"
  have "\<exists>s. pool_run pool_demo_cfg (hang_schedule @ ?more) (pool_init pool_demo_cfg) = Some (Done s)"
    by (simp add: hang_schedule_def pool_demo_cfg_def lossless_def go_def pool_init_def step_bodies pool_demo_task_def)
  then obtain s where s: "pool_run pool_demo_cfg (hang_schedule @ ?more) (pool_init pool_demo_cfg) = Some (Done s)" ..
  have "\<forall>x\<in>set ?more. \<not> spurious_act (snd x)" by (simp add: spurious_act_def go_def)
  from pool_shutdown_hangs [OF s this] s show ?thesis by blast
qed

end
