(* ===== verification/Worker_Pool_Shutdown.thy ===== *)
theory Worker_Pool_Shutdown
  imports Worker_Pool_Progress
begin

text \<open>
  When \<^verbatim>\<open>shutdown\<close> does return. If no worker is between its wait predicate and its going to sleep when the stop flag
  is set, none goes to sleep afterwards, so the notifications wake all of them; from then on every step of a
  worker brings it nearer to its end (\<open>worker_rank\<close>), and some step that is not a wait is always possible.
\<close>

section \<open>Nobody goes to sleep\<close>

fun about_to_sleep :: "pool_pc \<Rightarrow> bool" where
  "about_to_sleep W_Task_Block = True" | "about_to_sleep (W_Result_Block r) = True" | "about_to_sleep _ = False"

definition awake :: "pool \<Rightarrow> bool" where
  "awake s \<longleftrightarrow> stop s \<and> (\<forall>u. \<not> about_to_sleep (at s u))"

lemma awake_own:
  assumes "step_at cfg t ch (at s t) s = Some (Done s')" "stop s" "\<not> about_to_sleep (at s t)"
  shows "\<not> about_to_sleep (at s' t) \<and> task_waiters s' \<subseteq> task_waiters s \<and> result_waiters s' \<subseteq> result_waiters s"
  using assms
  by (cases "at s t") (auto simp: step_bodies split: if_splits list.splits option.splits prod.splits)

lemma awake_act:
  assumes "pool_act cfg t a s = Some (Done s')" "awake s"
  shows "awake s' \<and> task_waiters s' \<subseteq> task_waiters s \<and> result_waiters s' \<subseteq> result_waiters s"
proof (cases a)
  case (Call c)
  with assms show ?thesis by (cases c) (auto simp: awake_def goto_def split: if_splits)
next
  case (Step ch)
  with assms(1) have st: "step_at cfg t ch (at s t) s = Some (Done s')" by simp
  from awake_own [OF st] step_frame [OF st] assms(2) show ?thesis
    unfolding awake_def confined_def by metis
qed

text \<open>The caller that has set the flag, on its way to the joins.\<close>

definition stopping :: "tid \<Rightarrow> pool \<Rightarrow> bool" where
  "stopping t s \<longleftrightarrow> awake s \<and> (at s t = D_Notify_Task \<or> at s t = D_Notify_Result \<and> task_waiters s = {} \<or>
     task_waiters s = {} \<and> result_waiters s = {})"

lemma act_frame: "pool_act cfg u a s = Some (Done s') \<Longrightarrow> t \<noteq> u \<Longrightarrow> at s' t = at s t"
  by (cases a) (auto simp: goto_def split: if_splits dest!: step_frame simp: confined_def)

lemma stopping_act:
  assumes "pool_act cfg u a s = Some (Done s')" "stopping t s"
  shows "stopping t s'"
proof -
  from assms have aw: "awake s" by (simp add: stopping_def)
  note keep = awake_act [OF assms(1) aw]
  show ?thesis
  proof (cases "u = t \<and> (at s t = D_Notify_Task \<or> at s t = D_Notify_Result)")
    case True
    with assms keep show ?thesis by (cases a) (auto simp: stopping_def goto_def)
  next
    case False
    with act_frame [OF assms(1)] keep assms(2) show ?thesis unfolding stopping_def by (metis subset_empty)
  qed
qed

lemma stopping_run: "pool_run cfg sched s = Some (Done s') \<Longrightarrow> stopping t s \<Longrightarrow> stopping t s'"
proof (induction cfg sched s rule: pool_run.induct)
  case (2 cfg u a sched s)
  then obtain s1 where "pool_act cfg u a s = Some (Done s1)" "pool_run cfg sched s1 = Some (Done s')"
    by (auto split: option.splits outcome.splits)
  with 2 stopping_act show ?case by (metis (mono_tags, lifting))
qed simp

lemma stopping_start:
  assumes "at s t = D_Exchange" "\<not> stop s" "\<forall>u. \<not> about_to_sleep (at s u)"
    and "step_at cfg t ch (at s t) s = Some (Done s')"
  shows "stopping t s'"
  using assms by (auto simp: stopping_def awake_def goto_def split: if_splits)

section \<open>Workers end\<close>

fun worker_rank :: "pool_pc \<Rightarrow> nat" where
  "worker_rank W_Notify_Result = 9" | "worker_rank W_Task_Waiting = 9" | "worker_rank W_Lock_Task = 8"
| "worker_rank W_Task_Pred = 7" | "worker_rank W_Take = 6" | "worker_rank (W_Notify_Task tk) = 5"
| "worker_rank (W_Dispatch tk) = 4" | "worker_rank (W_Result_Waiting r) = 4" | "worker_rank (W_Lock_Result r) = 3"
| "worker_rank (W_Result_Pred r) = 2" | "worker_rank (W_Push r) = 1" | "worker_rank (W_Drop r) = 1"
| "worker_rank _ = 0"

lemma worker_rank_le: "worker_rank c \<le> 9"
  by (cases c) simp_all

lemma rank_step:
  assumes "step_at cfg t ch (at s t) s = Some (Done s')" "stop s" "worker_pc (at s t)" "\<not> about_to_sleep (at s t)"
  shows "worker_rank (at s' t) < worker_rank (at s t)"
  using assms
  by (cases "at s t") (auto simp: step_bodies split: if_splits list.splits option.splits prod.splits)

definition own_moves :: "tid \<Rightarrow> (tid \<times> act) list \<Rightarrow> nat" where
  "own_moves w sched = length (filter (\<lambda>(u, a). u = w) sched)"

lemma rank_run:
  assumes "pool_run cfg sched s = Some (Done s')" "cfg_ok cfg" "pool_inv cfg s" "awake s" "w < cfg_workers cfg"
  shows "own_moves w sched + worker_rank (at s' w) \<le> worker_rank (at s w)"
  using assms(1,3,4)
proof (induction sched arbitrary: s)
  case (Cons x sched)
  obtain u a where x: "x = (u, a)" by (rule prod.exhaust)
  with Cons.prems(1) obtain s1 where s1: "pool_act cfg u a s = Some (Done s1)" "pool_run cfg sched s1 = Some (Done s')"
    by (auto split: option.splits outcome.splits)
  obtain s2 where "Done s1 = Done s2" "pool_inv cfg s2" by (rule pool_act_inv [OF assms(2) Cons.prems(2) s1(1)])
  then have inv: "pool_inv cfg s1" by simp
  note IH = Cons.IH [OF s1(2) inv conjunct1 [OF awake_act [OF s1(1) Cons.prems(3)]]]
  show ?case
  proof (cases "u = w")
    case True
    have wk: "worker_pc (at s w)" using Cons.prems(2) assms(5) by (simp add: pool_inv_def thread_ok_def)
    with s1(1) True obtain ch where "a = Step ch" by (cases a) (auto split: if_splits)
    with s1(1) True wk Cons.prems(3) rank_step [of cfg w ch s s1] have "worker_rank (at s1 w) < worker_rank (at s w)"
      by (simp add: awake_def)
    with IH x True show ?thesis by (simp add: own_moves_def)
  next
    case False
    with IH x act_frame [OF s1(1), of w] show ?thesis by (simp add: own_moves_def)
  qed
qed (simp add: own_moves_def)

section \<open>Somebody can move\<close>

text \<open>What is left: the ranks of the workers, and a step of each caller inside a critical section.\<close>

definition caller_holds :: "pool_config \<Rightarrow> tid option \<Rightarrow> nat" where
  "caller_holds cfg lock = (case lock of None \<Rightarrow> 0 | Some u \<Rightarrow> if u < cfg_workers cfg then 0 else 1)"

definition work_left :: "pool_config \<Rightarrow> pool \<Rightarrow> nat" where
  "work_left cfg s = (\<Sum>w<cfg_workers cfg. worker_rank (at s w)) + caller_holds cfg (task_lock s) +
     caller_holds cfg (result_lock s)"

lemma worker_step_work:
  assumes "step_at cfg w ch (at s w) s = Some (Done s')" "pool_inv cfg s" "awake s" "w < cfg_workers cfg"
  shows "work_left cfg s' < work_left cfg s"
proof -
  have th: "thread_ok cfg s w" using assms(2) by (simp add: pool_inv_def)
  then have less: "worker_rank (at s' w) < worker_rank (at s w)"
    using rank_step [OF assms(1)] assms(3,4) by (auto simp: awake_def thread_ok_def)
  note fr = step_frame [OF assms(1), unfolded confined_def]
  then have "worker_rank (at s' u) \<le> worker_rank (at s u)" for u using less by (cases "u = w") simp_all
  with less assms(4) have "(\<Sum>u<cfg_workers cfg. worker_rank (at s' u)) < (\<Sum>u<cfg_workers cfg. worker_rank (at s u))"
    by (intro sum_strict_mono_ex1) auto
  moreover have "caller_holds cfg (task_lock s') \<le> caller_holds cfg (task_lock s)"
    "caller_holds cfg (result_lock s') \<le> caller_holds cfg (result_lock s)"
    using fr assms(4) by (auto simp: caller_holds_def)
  ultimately show ?thesis by (simp add: work_left_def)
qed

lemma caller_step_work:
  assumes "step_at cfg u ch (at s u) s = Some (Done s')" "pool_inv cfg s" "\<not> u < cfg_workers cfg"
    and "holds_task (at s u) \<or> holds_result (at s u)"
  shows "work_left cfg s' < work_left cfg s"
proof -
  have th: "thread_ok cfg s u" using assms(2) by (simp add: pool_inv_def)
  note fr = step_frame [OF assms(1), unfolded confined_def]
  then have "at s' w = at s w" if "w < cfg_workers cfg" for w using that assms(3) by auto
  then have "(\<Sum>w<cfg_workers cfg. worker_rank (at s' w)) = (\<Sum>w<cfg_workers cfg. worker_rank (at s w))" by simp
  moreover have "caller_holds cfg (task_lock s') + caller_holds cfg (result_lock s') <
      caller_holds cfg (task_lock s) + caller_holds cfg (result_lock s)"
    using assms(1,3,4) th
    by (cases "at s u") (auto simp: step_bodies thread_ok_def caller_holds_def split: if_splits list.splits)
  ultimately show ?thesis by (simp add: work_left_def)
qed

lemma somebody_moves:
  assumes "pool_inv cfg s" "task_waiters s = {}" "result_waiters s = {}" "\<forall>p. \<exists>run. cfg_dispatch cfg p run"
    and "w < cfg_workers cfg" "at s w \<noteq> W_Finished"
  obtains u where "moves cfg s u" "u < cfg_workers cfg \<or> holds_task (at s u) \<or> holds_result (at s u)"
proof -
  have th: "thread_ok cfg s u" for u using assms(1) by (simp add: pool_inv_def)
  show thesis
  proof (cases "task_lock s = None \<and> result_lock s = None")
    case False
    then obtain u where "task_lock s = Some u \<or> result_lock s = Some u" by auto
    with th [of u] have "holds_task (at s u) \<or> holds_result (at s u)" by (auto simp: thread_ok_def)
    with lock_holder_moves that show thesis by blast
  next
    case True
    have "worker_pc (at s w)" using th [of w] assms(5) by (simp add: thread_ok_def)
    with awake_worker_moves [of s w cfg] True th [of w] assms have "moves cfg s w" by simp
    with that assms(5) show thesis by blast
  qed
qed

definition no_spurious :: "(tid \<times> act) list \<Rightarrow> bool" where
  "no_spurious sched \<longleftrightarrow> (\<forall>x\<in>set sched. \<not> spurious_act (snd x))"

lemma workers_can_finish:
  assumes "cfg_ok cfg" "\<forall>p. \<exists>run. cfg_dispatch cfg p run"
  shows "pool_inv cfg s \<Longrightarrow> awake s \<Longrightarrow> task_waiters s = {} \<Longrightarrow> result_waiters s = {} \<Longrightarrow> at s t = D_Join \<Longrightarrow>
    \<exists>more s'. no_spurious more \<and> pool_run cfg more s = Some (Done s') \<and> at s' t = D_Join \<and>
      (\<forall>w<cfg_workers cfg. at s' w = W_Finished)"
proof (induction "work_left cfg s" arbitrary: s rule: less_induct)
  case less
  show ?case
  proof (cases "\<forall>w<cfg_workers cfg. at s w = W_Finished")
    case True
    with less.prems(5) show ?thesis by (intro exI [of _ "[]"]) (simp add: no_spurious_def)
  next
    case False
    then obtain w where w: "w < cfg_workers cfg" "at s w \<noteq> W_Finished" by blast
    obtain u where u: "moves cfg s u" "u < cfg_workers cfg \<or> holds_task (at s u) \<or> holds_result (at s u)"
      by (rule somebody_moves [OF less.prems(1,3,4) assms(2) w])
    then obtain ch out where ch: "\<not> ch_spurious ch" "step_at cfg u ch (at s u) s = Some out" by (auto simp: moves_def)
    from step_no_abort [OF assms(1) less.prems(1) ch(2)] obtain s1 where out: "out = Done s1" ..
    note st = ch(2) [unfolded out]
    have act: "pool_act cfg u (Step ch) s = Some (Done s1)" using st by simp
    obtain s2 where "Done s1 = Done s2" "pool_inv cfg s2" by (rule pool_act_inv [OF assms(1) less.prems(1) act])
    then have inv: "pool_inv cfg s1" by simp
    have work: "work_left cfg s1 < work_left cfg s"
      using worker_step_work [OF st less.prems(1,2)] caller_step_work [OF st less.prems(1)] u(2) by blast
    have "\<not> worker_pc (at s t)" "\<not> holds_task (at s t)" "\<not> holds_result (at s t)" using less.prems(5) by simp_all
    then have "t \<noteq> u" using u(2) less.prems(1) by (auto simp: pool_inv_def thread_ok_def)
    then have "at s1 t = D_Join" using act_frame [OF act] less.prems(5) by simp
    with less.hyps [OF work inv] awake_act [OF act less.prems(2)] less.prems(3,4) obtain more s' where
      "no_spurious more" "pool_run cfg more s1 = Some (Done s')" "at s' t = D_Join"
      "\<forall>w<cfg_workers cfg. at s' w = W_Finished" by auto
    with act ch(1) show ?thesis
      by (intro exI [of _ "(u, Step ch) # more"] exI [of _ s']) (simp add: no_spurious_def spurious_act_def)
  qed
qed

section \<open>Property\<close>

text \<open>C14: \<^verbatim>\<open>shutdown\<close> returns when nobody is about to sleep. Let a caller be about to set the stop flag of a running
  pool while no worker is between the evaluation of a wait predicate and going to sleep. However the threads are then
  interleaved, once the caller has made its notifications each worker makes at most nine more moves, after which it has
  ended; and at every moment there is a continuation without spurious wake-ups in which all workers end and the
  caller returns from the joins, if the handler always returns. So the window between predicate and sleep is the only
  way in which stopping can hang.\<close>

theorem pool_shutdown_completes:
  assumes "WorkerPool_config b n q disp opts = Inr cfg" and "pool_run cfg sched0 (pool_init cfg) = Some (Done s0)"
    and "at s0 t = D_Exchange" "\<not> stop s0" "\<forall>u. \<not> about_to_sleep (at s0 u)"
    and "pool_run cfg ((t, Step ch) # sched1) s0 = Some (Done s1)" "at s1 t = D_Join"
    and "pool_run cfg sched2 s1 = Some (Done s2)" and "\<forall>p. \<exists>run. disp p run"
  shows "(\<forall>w<n. own_moves w sched2 + worker_rank (at s2 w) \<le> 9) \<and>
    (at s2 t = D_Join \<longrightarrow> (\<exists>more s3. no_spurious more \<and> pool_run cfg more s2 = Some (Done s3) \<and> at s3 t = Idle \<and>
       (\<forall>w<n. at s3 w = W_Finished)))"
proof -
  note cfg = config_ok [OF assms(1)]
  have n: "cfg_workers cfg = n" using assms(1) by (auto simp: WorkerPool_config_def Let_def split: if_splits)
  from assms(6) obtain s where s: "step_at cfg t ch (at s0 t) s0 = Some (Done s)" "pool_run cfg sched1 s = Some (Done s1)"
    by (auto split: option.splits outcome.splits)
  from stopping_run [OF s(2) stopping_start [OF assms(3-5) s(1)]] have st1: "stopping t s1" .
  from pool_run_reach [OF assms(6) run_reach [OF assms(2)]] have reach: "pool_reach cfg s1" .
  have "own_moves w sched2 + worker_rank (at s2 w) \<le> 9" if "w < n" for w
    using rank_run [OF assms(8) cfg(1) pool_reach_inv [OF cfg(1) reach], of w] st1 that n worker_rank_le [of "at s1 w"]
    by (simp add: stopping_def)
  moreover have "\<exists>more s3. no_spurious more \<and> pool_run cfg more s2 = Some (Done s3) \<and> at s3 t = Idle \<and>
       (\<forall>w<n. at s3 w = W_Finished)" if join: "at s2 t = D_Join"
  proof -
    from stopping_run [OF assms(8) st1] join have "awake s2" "task_waiters s2 = {}" "result_waiters s2 = {}"
      by (auto simp: stopping_def)
    moreover have "pool_inv cfg s2" by (rule pool_reach_inv [OF cfg(1) pool_run_reach [OF assms(8) reach]])
    moreover have "\<forall>p. \<exists>run. cfg_dispatch cfg p run" using assms(9) cfg(4) by simp
    ultimately obtain more s3 where m: "no_spurious more" "pool_run cfg more s2 = Some (Done s3)" "at s3 t = D_Join"
      "\<forall>w<n. at s3 w = W_Finished"
      using workers_can_finish [OF cfg(1) _ _ _ _ _ join] n by metis
    then have "pool_run cfg [(t, go)] s3 = Some (Done (goto t Idle s3))" by (simp add: list_all_iff n go_def)
    with m(2) have "pool_run cfg (more @ [(t, go)]) s2 = Some (Done (goto t Idle s3))" by (simp add: pool_run_append)
    moreover have "no_spurious (more @ [(t, go)])" using m(1) by (simp add: no_spurious_def spurious_act_def go_def)
    moreover have "\<forall>w<n. at (goto t Idle s3) w = W_Finished" "at (goto t Idle s3) t = Idle"
      using m(3,4) by (auto simp: goto_def)
    ultimately show ?thesis by blast
  qed
  ultimately show ?thesis by blast
qed

text \<open>The only worker is asleep when the caller sets the flag; it is woken and ends, and the caller returns.\<close>

definition stop_schedule :: "(tid \<times> act) list" where
  "stop_schedule = [(0, go), (0, go), (0, go), (1, Call Shutdown)]"

theorem pool_shutdown_completes_witness:
  "\<exists>s1 s2 more s3. pool_run pool_demo_cfg (stop_schedule @ [(1, go), (1, go), (1, go)]) (pool_init pool_demo_cfg) = Some (Done s1) \<and>
     at s1 0 = W_Task_Waiting \<and> pool_run pool_demo_cfg [(0, go), (0, go)] s1 = Some (Done s2) \<and>
     2 + worker_rank (at s2 0) \<le> 9 \<and>
     pool_run pool_demo_cfg more s2 = Some (Done s3) \<and> at s3 1 = Idle \<and> at s3 0 = W_Finished"
proof -
  obtain s0 s1 s2 where r: "pool_run pool_demo_cfg stop_schedule (pool_init pool_demo_cfg) = Some (Done s0)"
      "at s0 1 = D_Exchange" "\<not> stop s0" "\<forall>u. \<not> about_to_sleep (at s0 u)"
      "pool_run pool_demo_cfg [(1, go), (1, go), (1, go)] s0 = Some (Done s1)" "at s1 1 = D_Join" "at s1 0 = W_Task_Waiting"
      "pool_run pool_demo_cfg [(0, go), (0, go)] s1 = Some (Done s2)" "at s2 1 = D_Join"
    by (simp add: stop_schedule_def pool_demo_cfg_def lossless_def go_def pool_init_def step_bodies)
  have "\<forall>p. \<exists>run. echo_runs p run" by (simp add: echo_runs_def)
  from pool_shutdown_completes [OF pool_demo_config r(1-4) r(5) [unfolded go_def] r(6,8) this] r(9)
  obtain more s3 where "own_moves 0 [(0, go), (0, go)] + worker_rank (at s2 0) \<le> 9"
    "pool_run pool_demo_cfg more s2 = Some (Done s3)" "at s3 1 = Idle" "at s3 0 = W_Finished" by auto
  with r show ?thesis by (simp add: own_moves_def pool_run_append) blast
qed

end
