(* ===== verification/Worker_Pool_Order.thy ===== *)
theory Worker_Pool_Order
  imports Worker_Pool_Safety
begin

text \<open>
  A pool with one worker answers in the order it was asked. The pool is abstracted to three sequences: the results
  produced so far (popped, queued, in the worker's hands), the tasks still to be served and the tasks accepted.
  \<open>in_order\<close> relates them, with one rule per thing that can happen; every step of the pool is one of these or
  changes nothing.
\<close>

section \<open>The abstract pool\<close>

definition in_order :: "pool_config \<Rightarrow> bool \<Rightarrow> HandlerResult list \<Rightarrow> HandlerTask list \<Rightarrow> HandlerTask list \<Rightarrow> bool" where
  "in_order cfg complete rs q acc \<longleftrightarrow>
     (\<exists>ts. list_all2 (responds cfg) ts rs \<and> subseq (ts @ q) acc \<and> (complete \<longrightarrow> ts @ q = acc))"

lemma in_order_start: "in_order cfg c [] [] []"
  by (simp add: in_order_def)

lemma in_order_accept: "in_order cfg c rs q acc \<Longrightarrow> in_order cfg c rs (q @ [tk]) (acc @ [tk])"
  unfolding in_order_def by (metis append_assoc list_emb_append_mono subseq_order.order_refl)

lemma in_order_serve: "in_order cfg c rs (tk # q) acc \<Longrightarrow> responds cfg tk r \<Longrightarrow> in_order cfg c (rs @ [r]) q acc"
proof -
  assume "in_order cfg c rs (tk # q) acc" and r: "responds cfg tk r"
  then obtain ts where ts: "list_all2 (responds cfg) ts rs" "subseq (ts @ tk # q) acc" "c \<longrightarrow> ts @ tk # q = acc"
    by (auto simp: in_order_def)
  with r have "list_all2 (responds cfg) (ts @ [tk]) (rs @ [r])" by (simp add: list_all2_appendI)
  with ts show ?thesis unfolding in_order_def by (intro exI [of _ "ts @ [tk]"]) simp
qed

lemma in_order_weaken: "in_order cfg c rs q acc \<Longrightarrow> (c' \<Longrightarrow> c) \<Longrightarrow> in_order cfg c' rs q acc"
  unfolding in_order_def by blast

lemma in_order_lose_task:
  assumes "in_order cfg c rs q acc" "subseq q' q"
  shows "in_order cfg False rs q' acc"
proof -
  from assms(1) obtain ts where ts: "list_all2 (responds cfg) ts rs" "subseq (ts @ q) acc"
    by (auto simp: in_order_def)
  have "subseq (ts @ q') (ts @ q)" using assms(2) by (simp add: list_emb_append_mono)
  with ts show ?thesis unfolding in_order_def by (meson subseq_order.order_trans)
qed

lemma list_all2_subseq:
  "subseq ys' ys \<Longrightarrow> list_all2 P xs ys \<Longrightarrow> \<exists>xs'. subseq xs' xs \<and> list_all2 P xs' ys'"
proof (induction arbitrary: xs rule: list_emb.induct)
  case (list_emb_Nil ys)
  then show ?case by (intro exI [of _ "[]"]) simp
next
  case (list_emb_Cons ys' ys y)
  then obtain x xs1 where xs: "xs = x # xs1" "list_all2 P xs1 ys" by (cases xs) auto
  with list_emb_Cons obtain xs' where "subseq xs' xs1" "list_all2 P xs' ys'" by blast
  with xs show ?case by (intro exI [of _ xs']) (auto intro: list_emb_Cons)
next
  case (list_emb_Cons2 y' y ys' ys)
  then obtain x xs1 where xs: "xs = x # xs1" "P x y" "list_all2 P xs1 ys" by (cases xs) auto
  with list_emb_Cons2 obtain xs' where "subseq xs' xs1" "list_all2 P xs' ys'" by blast
  with xs list_emb_Cons2(1) show ?case by (intro exI [of _ "x # xs'"]) simp
qed

lemma in_order_lose_result:
  assumes "in_order cfg c rs q acc" "subseq rs' rs"
  shows "in_order cfg False rs' q acc"
proof -
  from assms(1) obtain ts where ts: "list_all2 (responds cfg) ts rs" "subseq (ts @ q) acc"
    by (auto simp: in_order_def)
  from list_all2_subseq [OF assms(2) ts(1)] obtain ts' where ts': "subseq ts' ts" "list_all2 (responds cfg) ts' rs'"
    by blast
  have "subseq (ts' @ q) (ts @ q)" using ts'(1) by (simp add: list_emb_append_mono)
  with ts(2) ts'(2) show ?thesis unfolding in_order_def by (meson subseq_order.order_trans)
qed

section \<open>The pool implements it\<close>

fun task_at :: "pool_pc \<Rightarrow> HandlerTask list" where
  "task_at (W_Notify_Task tk) = [tk]" | "task_at (W_Dispatch tk) = [tk]" | "task_at _ = []"

fun result_at :: "pool_pc \<Rightarrow> HandlerResult list" where
  "result_at (W_Lock_Result r) = [r]" | "result_at (W_Drop r) = [r]" | "result_at (W_Result_Pred r) = [r]"
| "result_at (W_Result_Block r) = [r]" | "result_at (W_Result_Waiting r) = [r]" | "result_at (W_Push r) = [r]"
| "result_at _ = []"

text \<open>Nothing can have been lost: neither policy drops anything, and the pool has not been stopped.\<close>

definition lossless_now :: "pool_config \<Rightarrow> pool \<Rightarrow> bool" where
  "lossless_now cfg s \<longleftrightarrow> task_queue_overflow (cfg_options cfg) = RejectNewTask \<and>
     result_queue_overflow (cfg_options cfg) = BlockWorkerUntilPopped \<and> \<not> stop s"

definition ordered :: "pool_config \<Rightarrow> pool \<Rightarrow> bool" where
  "ordered cfg s \<longleftrightarrow> in_order cfg (lossless_now cfg s) (popped s @ results s @ result_at (at s 0))
     (task_at (at s 0) @ tasks s) (accepted_tasks s)"

lemmas order_defs = ordered_def popped_def accepted_tasks_def lossless_now_def

lemma popped_snoc [simp]:
  "popped (s\<lparr>events := es @ [Ev_pop r]\<rparr>) = popped (s\<lparr>events := es\<rparr>) @ [r]"
  by (simp add: popped_def)

text \<open>The calling threads.\<close>

lemma submit_order:
  assumes "submit_body cfg t tk s = Done s'" "ordered cfg s" "t \<noteq> 0"
  shows "ordered cfg s'"
proof -
  let ?rs = "popped s @ results s @ result_at (at s 0)" and ?c = "lossless_now cfg s"
  note ord = assms(2) [unfolded ordered_def]
  show ?thesis
  proof (cases "stop s \<or> cfg_task_capacity cfg \<le> length (tasks s) \<and> task_queue_overflow (cfg_options cfg) = RejectNewTask")
    case True
    with assms(1,3) have "popped s' = popped s" "results s' = results s" "at s' 0 = at s 0" "tasks s' = tasks s"
      "accepted_tasks s' = accepted_tasks s" "lossless_now cfg s' = ?c"
      by (auto simp: submit_body_def step_bodies popped_def accepted_tasks_def lossless_now_def split: if_splits)
    with ord show ?thesis by (simp add: ordered_def)
  next
    case room: False
    have policy: "task_queue_overflow (cfg_options cfg) = RejectNewTask \<or>
        task_queue_overflow (cfg_options cfg) = DropOldestPendingTask"
      by (cases "task_queue_overflow (cfg_options cfg)") simp_all
    show ?thesis
    proof (cases "cfg_task_capacity cfg \<le> length (tasks s) \<and> tasks s \<noteq> []")
      case True
      moreover have "task_queue_overflow (cfg_options cfg) = DropOldestPendingTask"
        using True room policy by auto
      ultimately have "popped s' = popped s" "results s' = results s" "at s' 0 = at s 0"
        "tasks s' = tl (tasks s) @ [tk]" "accepted_tasks s' = accepted_tasks s @ [tk]" "\<not> lossless_now cfg s'"
        using room assms(1,3)
        by (auto simp: submit_body_def step_bodies popped_def accepted_tasks_def lossless_now_def
            split: if_splits list.splits)
      moreover have "subseq (task_at (at s 0) @ tl (tasks s)) (task_at (at s 0) @ tasks s)"
        by (intro list_emb_append_mono subseq_order.order_refl) (cases "tasks s"; auto intro: list_emb_Cons)
      from in_order_accept [OF in_order_lose_task [OF ord this], of tk] show ?thesis
        using calculation by (simp add: ordered_def)
    next
      case False
      with room policy assms(1,3) have "popped s' = popped s" "results s' = results s" "at s' 0 = at s 0"
        "tasks s' = tasks s @ [tk]" "accepted_tasks s' = accepted_tasks s @ [tk]" "lossless_now cfg s' = ?c"
        by (auto simp: submit_body_def step_bodies popped_def accepted_tasks_def lossless_now_def
            split: if_splits list.splits)
      with in_order_accept [OF ord, of tk] show ?thesis by (simp add: ordered_def)
    qed
  qed
qed

lemma caller_order:
  assumes "step_at cfg t ch (at s t) s = Some (Done s')" "ordered cfg s" "t \<noteq> 0" "\<not> worker_pc (at s t)"
  shows "ordered cfg s'"
proof (cases "\<exists>tk. at s t = S_Body tk")
  case True
  with assms submit_order show ?thesis by auto
next
  case False
  then have "popped s' @ results s' = popped s @ results s" "at s' 0 = at s 0" "tasks s' = tasks s"
    "accepted_tasks s' = accepted_tasks s" "lossless_now cfg s' \<longrightarrow> lossless_now cfg s"
    using assms(1,3,4)
    by (cases "at s t"; auto simp: goto_def record_events_def pop_body_def Let_def popped_def accepted_tasks_def lossless_now_def
        split: if_splits list.splits option.splits)+
  with assms(2) show ?thesis unfolding ordered_def by (metis append_assoc in_order_weaken)
qed

section \<open>The worker\<close>

lemma drop_order:
  assumes "drop_body cfg 0 r s = Done s'" "ordered cfg s" "at s 0 = W_Drop r"
    and "result_queue_overflow (cfg_options cfg) = DropOldestCompletedResult"
  shows "ordered cfg s'"
proof -
  obtain dropped kept where room: "make_room (cfg_result_capacity cfg) (results s) = (dropped, kept)"
    by (cases "make_room (cfg_result_capacity cfg) (results s)")
  note ord = assms(2) [unfolded ordered_def assms(3)]
  have "\<not> lossless_now cfg s'" using assms(4) by (simp add: lossless_now_def)
  moreover have "popped s' = popped s" "tasks s' = tasks s" "accepted_tasks s' = accepted_tasks s" "task_at (at s' 0) = []"
    "results s' @ result_at (at s' 0) = kept @ (if stop s then [] else [r])"
    using assms(1) room by (cases "stop s"; auto simp: step_bodies popped_def accepted_tasks_def)+
  moreover have "subseq (popped s @ kept @ (if stop s then [] else [r])) (popped s @ results s @ [r])"
    unfolding make_room_append [OF room]
    by (intro list_emb_append_mono subseq_order.order_refl) (auto intro!: list_emb_append_mono)
  ultimately show ?thesis using in_order_lose_result [OF ord] by (simp add: ordered_def)
qed

lemma abandon_order:
  assumes "ordered cfg s" "result_at (at s 0) = [r]" "task_at (at s 0) = []" "stop s"
  shows "ordered cfg (abandon_result 0 r s)"
proof -
  have "in_order cfg False (popped s @ results s) (tasks s) (accepted_tasks s)"
    by (rule in_order_lose_result [OF assms(1) [unfolded ordered_def assms(2,3), simplified]])
      (rule prefix_imp_subseq, simp)
  then show ?thesis
    using assms(4) by (simp add: ordered_def abandon_result_def goto_def record_events_def popped_def accepted_tasks_def
        lossless_now_def)
qed

lemma serve_order:
  assumes "ordered cfg s" "at s 0 = W_Dispatch tk" "responds cfg tk r"
  shows "ordered cfg (goto 0 (W_Lock_Result r) s)"
  using in_order_serve [OF assms(1) [unfolded ordered_def assms(2), simplified] assms(3)]
  by (simp add: ordered_def goto_def popped_def accepted_tasks_def lossless_now_def)

lemma worker_order:
  assumes "step_at cfg 0 ch (at s 0) s = Some (Done s')" "ordered cfg s" "worker_pc (at s 0)" "losses_ok cfg s"
  shows "ordered cfg s'"
proof (cases "\<exists>r. at s 0 = W_Drop r \<or> at s 0 = W_Push r \<and> stop s \<or> (\<exists>tk. at s 0 = W_Dispatch tk)")
  case True
  then consider r where "at s 0 = W_Drop r" | r where "at s 0 = W_Push r" "stop s" | tk where "at s 0 = W_Dispatch tk"
    by blast
  then show ?thesis
  proof cases
    case (1 r)
    with assms drop_order show ?thesis by (auto simp: losses_ok_def)
  next
    case (2 r)
    with assms(1,2) abandon_order show ?thesis by auto
  next
    case (3 tk)
    with assms(1) have "cfg_dispatch cfg (ht_payload tk) (ch_run ch)"
      "s' = goto 0 (W_Lock_Result \<lparr>hr_correlation_id = ht_correlation_id tk, hr_outcome = guarded (ch_run ch)\<rparr>) s"
      by (simp_all split: if_splits)
    moreover from this(1) have "responds cfg tk \<lparr>hr_correlation_id = ht_correlation_id tk, hr_outcome = guarded (ch_run ch)\<rparr>"
      by (auto simp: responds_def)
    ultimately show ?thesis using serve_order [OF assms(2) 3] by simp
  qed
next
  case False
  then have "popped s' @ results s' @ result_at (at s' 0) = popped s @ results s @ result_at (at s 0)"
    "task_at (at s' 0) @ tasks s' = task_at (at s 0) @ tasks s"
    "accepted_tasks s' = accepted_tasks s" "lossless_now cfg s' \<longrightarrow> lossless_now cfg s"
    using assms(1,3)
    by (cases "at s 0"; auto simp: goto_def push_result_def take_body_def Let_def popped_def accepted_tasks_def
        lossless_now_def split: if_splits list.splits option.splits)+
  with assms(2) show ?thesis unfolding ordered_def by (metis in_order_weaken)
qed

lemma act_order:
  assumes "cfg_ok cfg" "cfg_workers cfg = 1" "pool_reach cfg s" "ordered cfg s" "pool_act cfg t a s = Some (Done s')"
  shows "ordered cfg s'"
proof -
  have th: "thread_ok cfg s t" using pool_reach_inv [OF assms(1,3)] by (simp add: pool_inv_def)
  show ?thesis
  proof (cases a)
    case (Call c)
    with assms(2,5) th have "at s t = Idle" "s' = goto t (call_entry c) s" "t \<noteq> 0"
      by (auto simp: thread_ok_def split: if_splits)
    with assms(4) show ?thesis by (simp add: order_defs goto_def)
  next
    case (Step ch)
    with assms(5) have st: "step_at cfg t ch (at s t) s = Some (Done s')" by simp
    show ?thesis
    proof (cases "t = 0")
      case True
      with st assms(2,4) th reach_losses [OF assms(3)] worker_order show ?thesis by (auto simp: thread_ok_def)
    next
      case False
      with st assms(2,4) th caller_order show ?thesis by (auto simp: thread_ok_def)
    qed
  qed
qed

lemma reach_order: "cfg_ok cfg \<Longrightarrow> cfg_workers cfg = 1 \<Longrightarrow> pool_reach cfg s \<Longrightarrow> ordered cfg s"
proof (rotate_tac 2, induction rule: pool_reach.induct)
  case start
  then show ?case using in_order_start by (simp add: order_defs) (simp add: pool_init_def)
next
  case (act s t a s')
  then show ?case using act_order by blast
qed

section \<open>Property\<close>

text \<open>C22: One worker answers in order. In every interleaving of any number of callers with a pool of one worker,
  under any policies and whether it is stopped or not, the results popped so far answer, one by one and in order, a
  subsequence of the accepted tasks; while nothing may be dropped and the pool is not stopped they answer exactly
  the first tasks accepted, and the rest is waiting in the pool in order. With the echo handler each result is then
  determined: it carries its task's id and payload.\<close>

theorem pool_single_worker_in_order:
  assumes "WorkerPool_config b 1 q disp opts = Inr cfg" and "pool_run cfg sched (pool_init cfg) = Some (Done s)"
  shows "\<exists>ts. list_all2 (responds cfg) ts (popped s) \<and> subseq ts (accepted_tasks s) \<and>
    (task_queue_overflow opts = RejectNewTask \<and> result_queue_overflow opts = BlockWorkerUntilPopped \<and> \<not> stop s \<longrightarrow>
       ts = take (length (popped s)) (accepted_tasks s)) \<and>
    (disp = echo_runs \<longrightarrow>
       popped s = map (\<lambda>tk. \<lparr>hr_correlation_id = ht_correlation_id tk, hr_outcome = Inr (ht_payload tk)\<rparr>) ts)"
proof -
  note cfg = config_ok [OF assms(1)] and reach = run_reach [OF assms(2)]
  have w: "cfg_workers cfg = 1" using assms(1) by (auto simp: WorkerPool_config_def Let_def split: if_splits)
  from reach_order [OF cfg(1) w reach] obtain us where us:
    "list_all2 (responds cfg) us (popped s @ results s @ result_at (at s 0))"
    "subseq (us @ task_at (at s 0) @ tasks s) (accepted_tasks s)"
    "lossless_now cfg s \<longrightarrow> us @ task_at (at s 0) @ tasks s = accepted_tasks s"
    by (auto simp: ordered_def in_order_def)
  let ?ts = "take (length (popped s)) us"
  have len: "length (popped s) \<le> length us" using list_all2_lengthD [OF us(1)] by simp
  have resp: "list_all2 (responds cfg) ?ts (popped s)"
    using list_all2_takeI [OF us(1), of "length (popped s)"] by simp
  have "subseq ?ts (us @ task_at (at s 0) @ tasks s)"
    by (meson prefix_imp_subseq subseq_order.order_trans take_is_prefix prefixI)
  from subseq_order.order_trans [OF this us(2)] have sub: "subseq ?ts (accepted_tasks s)" .
  have exact: "lossless_now cfg s \<Longrightarrow> ?ts = take (length (popped s)) (accepted_tasks s)"
    using us(3) len by (metis append_take_drop_id append_assoc append_eq_conv_conj length_take min.absorb2)
  have "popped s = map (\<lambda>tk. \<lparr>hr_correlation_id = ht_correlation_id tk, hr_outcome = Inr (ht_payload tk)\<rparr>) ?ts"
    if "disp = echo_runs"
  proof -
    have "r = \<lparr>hr_correlation_id = ht_correlation_id tk, hr_outcome = Inr (ht_payload tk)\<rparr>" if "responds cfg tk r" for tk r
      using that cfg(4) \<open>disp = echo_runs\<close> echo.runs_spec by (cases r) (auto simp: responds_def)
    with resp show ?thesis by (intro list_eq_iff_nth_eq [THEN iffD2]) (auto simp: list_all2_conv_all_nth)
  qed
  with resp sub exact cfg(3) show ?thesis by (intro exI [of _ ?ts]) (auto simp: lossless_now_def)
qed

theorem pool_single_worker_in_order_witness:
  "\<exists>s. pool_run pool_demo_cfg pool_demo_schedule (pool_init pool_demo_cfg) = Some (Done s) \<and>
     take 1 (accepted_tasks s) = [pool_demo_task]"
proof -
  obtain s where r: "pool_run pool_demo_cfg pool_demo_schedule (pool_init pool_demo_cfg) = Some (Done s)" "\<not> stop s"
    "popped s = [\<lparr>hr_correlation_id = 9, hr_outcome = Inr [104, 105]\<rparr>]"
    using pool_demo_run by blast
  from pool_single_worker_in_order [OF pool_demo_config r(1)] r obtain ts where
    "ts = take 1 (accepted_tasks s)"
    "popped s = map (\<lambda>tk. \<lparr>hr_correlation_id = ht_correlation_id tk, hr_outcome = Inr (ht_payload tk)\<rparr>) ts"
    by (auto simp: lossless_def)
  with r show ?thesis by (auto simp: pool_demo_task_def map_eq_Cons_conv)
qed

end
