(* ===== verification/Config.thy ===== *)
theory Config
  imports Prelude
begin

text \<open>
  \<^verbatim>\<open>config.hpp\<close>, \<^verbatim>\<open>config_loader.cpp\<close> and \<^verbatim>\<open>config_validator.cpp\<close>: the configuration record, loading it from
  \<^verbatim>\<open>key=value\<close> text with environment overrides, and validating it. The contents of the file and the
  environment are arguments. \<^verbatim>\<open>std::from_chars\<close> on an unsigned type reads the longest prefix of decimal
  digits and accepts neither sign nor space; \<^verbatim>\<open>std::getline\<close> splits at newlines and gives no empty last line.
\<close>

section \<open>The configuration\<close>

record ListenConfig =
  cl_host :: string
  cl_port :: u16

record LimitsConfig =
  max_connections :: u32
  max_message_bytes :: u64

datatype LogLevel = LL_Trace | LL_Debug | LL_Info | LL_Warn | LL_Error

record TimeoutsConfig =
  idle_ms :: u32

record RuntimeConfig =
  worker_threads :: u32

record LoggingConfig =
  log_level :: LogLevel

record MetricsConfig =
  metrics_enabled :: bool

record ServerConfig =
  listen :: ListenConfig
  limits :: LimitsConfig
  timeouts :: TimeoutsConfig
  runtime :: RuntimeConfig
  logging :: LoggingConfig
  metrics_cfg :: MetricsConfig

text \<open>\<^verbatim>\<open>ServerConfig cfg{}\<close>: the members' default initialisers.\<close>

definition ServerConfig_default :: ServerConfig where
  "ServerConfig_default = \<lparr>listen = \<lparr>cl_host = [], cl_port = 0\<rparr>,
     limits = \<lparr>max_connections = 0, max_message_bytes = 0\<rparr>,
     timeouts = \<lparr>idle_ms = 0\<rparr>, runtime = \<lparr>worker_threads = 0\<rparr>,
     logging = \<lparr>log_level = LL_Info\<rparr>, metrics_cfg = \<lparr>metrics_enabled = False\<rparr>\<rparr>"

datatype ConfigLoadErrorCode = FileOpenFailed | InvalidLine | UnknownKey | InvalidValue

record ConfigLoadError =
  cle_code :: ConfigLoadErrorCode
  cle_message :: string
  cle_line :: size_t

definition load_err :: "ConfigLoadErrorCode \<Rightarrow> string \<Rightarrow> size_t \<Rightarrow> ConfigLoadError" where
  "load_err code msg ln = \<lparr>cle_code = code, cle_message = msg, cle_line = ln\<rparr>"

section \<open>Parsing values\<close>

definition is_blank :: "char \<Rightarrow> bool" where
  "is_blank c \<longleftrightarrow> c = CHR '' '' \<or> c = CHR 0x09 \<or> c = CHR 0x0D"

definition trim :: "string \<Rightarrow> string" where
  "trim s = rev (dropWhile is_blank (rev (dropWhile is_blank s)))"

definition parse_kv :: "string \<Rightarrow> (string \<times> string) option" where
  "parse_kv line =
     (if CHR ''='' \<notin> set line then None
      else
        let key = trim (takeWhile (\<lambda>c. c \<noteq> CHR ''='') line);
            val = trim (tl (dropWhile (\<lambda>c. c \<noteq> CHR ''='') line))
        in if key = [] then None else Some (key, val))"

datatype errc = Ok | Invalid_argument | Result_out_of_range

text \<open>\<^verbatim>\<open>std::from_chars\<close> for an unsigned type of width \<open>w\<close>: the error, the value, and what is not read.\<close>

definition from_chars :: "nat \<Rightarrow> string \<Rightarrow> errc \<times> nat \<times> string" where
  "from_chars w s =
     (let ds = takeWhile is_digit s; rest = dropWhile is_digit s
      in if ds = [] then (Invalid_argument, 0, s)
         else if digits_value ds \<ge> 2 ^ w then (Result_out_of_range, 0, rest)
         else (Ok, digits_value ds, rest))"

definition parse_uint :: "string \<Rightarrow> 'a::len word option" where
  "parse_uint s =
     (case from_chars LENGTH('a) s of (ec, out, rest) \<Rightarrow>
        if ec \<noteq> Ok \<or> rest \<noteq> [] then None else Some (of_nat out))"

definition parse_bool :: "string \<Rightarrow> bool option" where
  "parse_bool s =
     (if s = ''1'' \<or> s = ''true'' \<or> s = ''TRUE'' \<or> s = ''True'' then Some True
      else if s = ''0'' \<or> s = ''false'' \<or> s = ''FALSE'' \<or> s = ''False'' then Some False
      else None)"

definition parse_log_level :: "string \<Rightarrow> LogLevel option" where
  "parse_log_level s =
     (if s = ''trace'' \<or> s = ''TRACE'' \<or> s = ''Trace'' then Some LL_Trace
      else if s = ''debug'' \<or> s = ''DEBUG'' \<or> s = ''Debug'' then Some LL_Debug
      else if s = ''info'' \<or> s = ''INFO'' \<or> s = ''Info'' then Some LL_Info
      else if s = ''warn'' \<or> s = ''WARN'' \<or> s = ''Warn'' \<or> s = ''warning'' \<or> s = ''WARNING'' \<or> s = ''Warning''
      then Some LL_Warn
      else if s = ''error'' \<or> s = ''ERROR'' \<or> s = ''Error'' then Some LL_Error
      else None)"

section \<open>Applying a key\<close>

definition apply_key_value :: "ServerConfig \<Rightarrow> string \<Rightarrow> string \<Rightarrow> ConfigLoadError + ServerConfig" where
  "apply_key_value cfg key val =
     (if key = ''listen.host'' then Inr (cfg\<lparr>listen := (listen cfg)\<lparr>cl_host := val\<rparr>\<rparr>)
      else if key = ''listen.port'' then
        (case parse_uint val :: u32 option of
           None \<Rightarrow> Inl (load_err InvalidValue ''listen.port must be 0..65535'' 0)
         | Some p \<Rightarrow>
             if p > 65535 then Inl (load_err InvalidValue ''listen.port must be 0..65535'' 0)
             else Inr (cfg\<lparr>listen := (listen cfg)\<lparr>cl_port := ucast p\<rparr>\<rparr>))
      else if key = ''limits.max_connections'' then
        (case parse_uint val of
           None \<Rightarrow> Inl (load_err InvalidValue ''limits.max_connections must be an integer'' 0)
         | Some n \<Rightarrow> Inr (cfg\<lparr>limits := (limits cfg)\<lparr>max_connections := n\<rparr>\<rparr>))
      else if key = ''limits.max_message_bytes'' then
        (case parse_uint val of
           None \<Rightarrow> Inl (load_err InvalidValue ''limits.max_message_bytes must be an integer'' 0)
         | Some n \<Rightarrow> Inr (cfg\<lparr>limits := (limits cfg)\<lparr>max_message_bytes := n\<rparr>\<rparr>))
      else if key = ''timeouts.idle_ms'' then
        (case parse_uint val of
           None \<Rightarrow> Inl (load_err InvalidValue ''timeouts.idle_ms must be an integer'' 0)
         | Some n \<Rightarrow> Inr (cfg\<lparr>timeouts := (timeouts cfg)\<lparr>idle_ms := n\<rparr>\<rparr>))
      else if key = ''runtime.worker_threads'' then
        (case parse_uint val of
           None \<Rightarrow> Inl (load_err InvalidValue ''runtime.worker_threads must be an integer'' 0)
         | Some n \<Rightarrow> Inr (cfg\<lparr>runtime := (runtime cfg)\<lparr>worker_threads := n\<rparr>\<rparr>))
      else if key = ''logging.level'' then
        (case parse_log_level val of
           None \<Rightarrow> Inl (load_err InvalidValue ''logging.level is not recognized'' 0)
         | Some l \<Rightarrow> Inr (cfg\<lparr>logging := (logging cfg)\<lparr>log_level := l\<rparr>\<rparr>))
      else if key = ''metrics.enabled'' then
        (case parse_bool val of
           None \<Rightarrow> Inl (load_err InvalidValue ''metrics.enabled must be true/false'' 0)
         | Some b \<Rightarrow> Inr (cfg\<lparr>metrics_cfg := (metrics_cfg cfg)\<lparr>metrics_enabled := b\<rparr>\<rparr>))
      else Inl (load_err UnknownKey (''unknown key: '' @ key) 0))"

section \<open>Loading\<close>

text \<open>The lines \<^verbatim>\<open>std::getline\<close> yields from the contents of a file.\<close>

function getlines :: "string \<Rightarrow> string list" where
  "getlines s =
     (if s = [] then []
      else takeWhile (\<lambda>c. c \<noteq> CHR 0x0A) s # getlines (tl (dropWhile (\<lambda>c. c \<noteq> CHR 0x0A) s)))"
  by pat_completeness auto
termination
proof (relation "measure length")
  fix s :: string
  assume "s \<noteq> []"
  then show "(tl (dropWhile (\<lambda>c. c \<noteq> CHR 0x0A) s), s) \<in> measure length"
    using length_dropWhile_le [of "\<lambda>c. c \<noteq> CHR 0x0A" s] by (cases s) (auto simp: le_imp_less_Suc)
qed simp

declare getlines.simps [simp del]

text \<open>The body of the loop for the line with number \<open>ln\<close>.\<close>

definition load_line :: "size_t \<Rightarrow> ServerConfig \<Rightarrow> string \<Rightarrow> ConfigLoadError + ServerConfig" where
  "load_line ln cfg line =
     (let sv = trim line
      in if sv = [] then Inr cfg
         else if hd sv = CHR ''#'' \<or> hd sv = CHR '';'' then Inr cfg
         else (case parse_kv sv of
                 None \<Rightarrow> Inl (load_err InvalidLine ''invalid line (expected key=value)'' ln)
               | Some (k, v) \<Rightarrow>
                   (case apply_key_value cfg k v of
                      Inl e \<Rightarrow> Inl (e\<lparr>cle_line := ln\<rparr>)
                    | Inr cfg' \<Rightarrow> Inr cfg')))"

fun load_lines :: "size_t \<Rightarrow> ServerConfig \<Rightarrow> string list \<Rightarrow> ConfigLoadError + ServerConfig" where
  "load_lines line_no cfg [] = Inr cfg"
| "load_lines line_no cfg (l # ls) =
     (case load_line (line_no + 1) cfg l of
        Inl e \<Rightarrow> Inl e
      | Inr cfg' \<Rightarrow> load_lines (line_no + 1) cfg' ls)"

definition env_keys :: "(string \<times> string) list" where
  "env_keys =
     [(''TCP_SERVER__listen__host'', ''listen.host''),
      (''TCP_SERVER__listen__port'', ''listen.port''),
      (''TCP_SERVER__limits__max_connections'', ''limits.max_connections''),
      (''TCP_SERVER__limits__max_message_bytes'', ''limits.max_message_bytes''),
      (''TCP_SERVER__timeouts__idle_ms'', ''timeouts.idle_ms''),
      (''TCP_SERVER__runtime__worker_threads'', ''runtime.worker_threads''),
      (''TCP_SERVER__logging__level'', ''logging.level''),
      (''TCP_SERVER__metrics__enabled'', ''metrics.enabled'')]"

fun apply_env :: "(string \<Rightarrow> string option) \<Rightarrow> (string \<times> string) list \<Rightarrow> ServerConfig \<Rightarrow> ConfigLoadError + ServerConfig" where
  "apply_env getenv [] cfg = Inr cfg"
| "apply_env getenv ((env, key) # eks) cfg =
     (case getenv env of
        None \<Rightarrow> apply_env getenv eks cfg
      | Some v \<Rightarrow>
          (case apply_key_value cfg key v of
             Inl e \<Rightarrow> Inl (e\<lparr>cle_line := 0, cle_message := ''env '' @ env @ '': '' @ cle_message e\<rparr>)
           | Inr cfg' \<Rightarrow> apply_env getenv eks cfg'))"

text \<open>\<open>file\<close> gives the contents at a path, if it can be opened.\<close>

definition load_config_from_file ::
  "(string \<Rightarrow> string option) \<Rightarrow> (string \<Rightarrow> string option) \<Rightarrow> string \<Rightarrow> ConfigLoadError + ServerConfig" where
  "load_config_from_file file getenv path =
     (case file path of
        None \<Rightarrow> Inl (load_err FileOpenFailed (''failed to open config file: '' @ path) 0)
      | Some content \<Rightarrow>
          (case load_lines 0 ServerConfig_default (getlines content) of
             Inl e \<Rightarrow> Inl e
           | Inr cfg \<Rightarrow> apply_env getenv env_keys cfg))"

section \<open>Validation\<close>

datatype ConfigValidateErrorCode = MissingRequiredValue | OutOfRange | InvalidCombination

record ConfigValidateError =
  cve_code :: ConfigValidateErrorCode
  cve_message :: string

definition missing :: "string \<Rightarrow> ConfigValidateError" where
  "missing msg = \<lparr>cve_code = MissingRequiredValue, cve_message = msg\<rparr>"

definition out_of_range :: "string \<Rightarrow> ConfigValidateError" where
  "out_of_range msg = \<lparr>cve_code = OutOfRange, cve_message = msg\<rparr>"

definition validate_config :: "ServerConfig \<Rightarrow> ConfigValidateError option" where
  "validate_config cfg =
     (if cl_port (listen cfg) = 0 then Some (missing ''listen.port is required and must be > 0'')
      else if max_connections (limits cfg) = 0
      then Some (missing ''limits.max_connections is required and must be > 0'')
      else if max_message_bytes (limits cfg) = 0
      then Some (missing ''limits.max_message_bytes is required and must be > 0'')
      else if idle_ms (timeouts cfg) = 0 then Some (missing ''timeouts.idle_ms is required and must be > 0'')
      else if worker_threads (runtime cfg) = 0 then Some (missing ''runtime.worker_threads is required and must be > 0'')
      else if max_message_bytes (limits cfg) > 1024 * 1024 * 1024
      then Some (out_of_range ''limits.max_message_bytes is unreasonably large (> 1 GiB)'')
      else None)"

end
