(* ===== verification/Config_Correct.thy ===== *)
theory Config_Correct
  imports Config
begin

text \<open>
  What loading and validating a configuration guarantee. The contract of a set of settings is the locale
  \<open>settings\<close>: applying a key sets that setting and no other, and the settings determine the
  configuration. \<^verbatim>\<open>apply_key_value\<close> is proved to satisfy it.
\<close>

section \<open>The contract\<close>

locale settings =
  fixes put_setting :: "'c \<Rightarrow> string \<Rightarrow> string \<Rightarrow> 'e + 'c"
    and show_value :: "'c \<Rightarrow> string \<Rightarrow> string"
    and keys :: "string list"
  assumes put_shown: "k \<in> set keys \<Longrightarrow> \<exists>c'. put_setting c k (show_value d k) = Inr c' \<and> show_value c' k = show_value d k"
    and put_other: "put_setting c k v = Inr c' \<Longrightarrow> j \<noteq> k \<Longrightarrow> show_value c' j = show_value c j"
    and put_known: "put_setting c k v = Inr c' \<Longrightarrow> k \<in> set keys"
    and put_again: "put_setting c k v = Inr c' \<Longrightarrow> put_setting c' k w = put_setting c k w"
    and put_same: "put_setting c k v = Inr c' \<Longrightarrow> show_value d k = show_value c' k \<Longrightarrow> put_setting d k v = Inr d"
    and show_inject: "(\<And>k. k \<in> set keys \<Longrightarrow> show_value c k = show_value d k) \<Longrightarrow> c = d"
begin

lemma last_put_wins: "put_setting c k v = Inr c1 \<Longrightarrow> put_setting c1 k w = Inr c2 \<Longrightarrow> put_setting c k w = Inr c2"
  using put_again by metis

fun put_all :: "'c \<Rightarrow> (string \<times> string) list \<Rightarrow> 'e + 'c" where
  "put_all c [] = Inr c"
| "put_all c ((k, v) # kvs) = (case put_setting c k v of Inl e \<Rightarrow> Inl e | Inr c' \<Rightarrow> put_all c' kvs)"

lemma put_all_shown:
  "set ks \<subseteq> set keys \<Longrightarrow> \<exists>c'. put_all c (map (\<lambda>k. (k, show_value d k)) ks) = Inr c' \<and>
     (\<forall>k\<in>set keys. show_value c' k = (if k \<in> set ks then show_value d k else show_value c k))"
proof (induction ks arbitrary: c)
  case (Cons k ks)
  then obtain c1 where c1: "put_setting c k (show_value d k) = Inr c1" "show_value c1 k = show_value d k"
    using put_shown [of k c d] by auto
  with Cons.IH [of c1] Cons.prems put_other [OF c1(1)] show ?case by auto
qed simp

lemma put_all_keys:
  "set keys \<subseteq> set ks \<Longrightarrow> set ks \<subseteq> set keys \<Longrightarrow> put_all c (map (\<lambda>k. (k, show_value d k)) ks) = Inr d"
  using put_all_shown [of ks c d] show_inject [of _ d] by (metis subset_iff)

end

section \<open>Printing settings\<close>

definition known_keys :: "string list" where
  "known_keys = [''listen.host'', ''listen.port'', ''limits.max_connections'', ''limits.max_message_bytes'',
     ''timeouts.idle_ms'', ''runtime.worker_threads'', ''logging.level'', ''metrics.enabled'']"

fun show_level :: "LogLevel \<Rightarrow> string" where
  "show_level LL_Trace = ''trace''" | "show_level LL_Debug = ''debug''" | "show_level LL_Info = ''info''"
| "show_level LL_Warn = ''warn''" | "show_level LL_Error = ''error''"

definition show_bool :: "bool \<Rightarrow> string" where
  "show_bool b = (if b then ''true'' else ''false'')"

definition show_setting :: "ServerConfig \<Rightarrow> string \<Rightarrow> string" where
  "show_setting cfg k =
     (if k = ''listen.host'' then cl_host (listen cfg)
      else if k = ''listen.port'' then decimal (unat (cl_port (listen cfg)))
      else if k = ''limits.max_connections'' then decimal (unat (max_connections (limits cfg)))
      else if k = ''limits.max_message_bytes'' then decimal (unat (max_message_bytes (limits cfg)))
      else if k = ''timeouts.idle_ms'' then decimal (unat (idle_ms (timeouts cfg)))
      else if k = ''runtime.worker_threads'' then decimal (unat (worker_threads (runtime cfg)))
      else if k = ''logging.level'' then show_level (log_level (logging cfg))
      else if k = ''metrics.enabled'' then show_bool (metrics_enabled (metrics_cfg cfg))
      else [])"

section \<open>Numbers\<close>

lemma takeWhile_digits: "list_all is_digit ds \<Longrightarrow> takeWhile is_digit ds = ds \<and> dropWhile is_digit ds = []"
  by (induction ds) auto

lemma parse_uint_decimal:
  "n < 2 ^ LENGTH('a) \<Longrightarrow> parse_uint (decimal n) = Some (of_nat n :: 'a::len word)"
proof -
  note digits = takeWhile_digits [OF conjunct2 [OF decimal_digits [of n]]]
  have "decimal n \<noteq> []" using decimal_digits by blast
  moreover assume "n < 2 ^ LENGTH('a)"
  ultimately have "from_chars LENGTH('a) (decimal n) = (Ok, n, [])"
    unfolding from_chars_def Let_def conjunct1 [OF digits] conjunct2 [OF digits] digits_value_decimal by simp
  then show ?thesis by (simp add: parse_uint_def)
qed

lemma parse_uint_unat [simp]: "parse_uint (decimal (unat x)) = Some (x :: 'a::len word)"
  using parse_uint_decimal [of "unat x", where ?'a = 'a] unsigned_less [of x, where ?'a = nat] by simp

lemma unat_cancel [simp]: "unat (x :: 'a::len word) = unat y \<longleftrightarrow> x = y"
  by (metis unsigned_word_eqI)

lemma port_bound: "unat (p :: u16) < 65536"
  using unsigned_less [of p, where ?'a = nat] by simp

lemma unat_port [simp]: "unat (ucast (p :: u16) :: u32) = unat p"
  using port_bound [of p] by (simp add: unsigned_ucast_eq take_bit_nat_eq_self)

lemma parse_port [simp]: "parse_uint (decimal (unat (p :: u16))) = Some (ucast p :: u32)"
  using parse_uint_unat [of "ucast p :: u32"] by simp

lemma port_fits [simp]: "\<not> (65535 :: u32) < ucast (p :: u16)"
  using port_bound [of p] by (simp add: word_less_nat_alt)

lemma ucast_port [simp]: "ucast (ucast (p :: u16) :: u32) = p"
  by (rule bit_word_eqI) (auto simp: bit_simps)

lemma decimal_inject [simp]: "decimal m = decimal n \<longleftrightarrow> m = n"
  by (metis digits_value_decimal)

lemma parse_level_show [simp]: "parse_log_level (show_level l) = Some l"
  by (cases l) (simp_all add: parse_log_level_def)

lemma show_level_inject [simp]: "show_level l = show_level m \<longleftrightarrow> l = m"
  by (metis parse_level_show option.inject)

lemma parse_bool_show [simp]: "parse_bool (show_bool b) = Some b"
  by (simp add: parse_bool_def show_bool_def)

lemma show_bool_inject [simp]: "show_bool a = show_bool b \<longleftrightarrow> a = b"
  by (cases a; cases b) (simp_all add: show_bool_def)

section \<open>\<open>apply_key_value\<close> satisfies the contract\<close>

lemma known_keys_cases:
  "k \<in> set known_keys \<Longrightarrow> k = ''listen.host'' \<or> k = ''listen.port'' \<or> k = ''limits.max_connections'' \<or>
     k = ''limits.max_message_bytes'' \<or> k = ''timeouts.idle_ms'' \<or> k = ''runtime.worker_threads'' \<or>
     k = ''logging.level'' \<or> k = ''metrics.enabled''"
  by (simp add: known_keys_def)

lemma apply_known: "apply_key_value c k v = Inr c' \<Longrightarrow> k \<in> set known_keys"
  by (auto simp: apply_key_value_def known_keys_def split: if_splits)

lemma apply_cases:
  assumes "apply_key_value c k v = Inr c'"
  obtains "k = ''listen.host''" "c' = c\<lparr>listen := (listen c)\<lparr>cl_host := v\<rparr>\<rparr>"
  | p where "k = ''listen.port''" "parse_uint v = Some (p :: u32)" "\<not> p > 65535"
      "c' = c\<lparr>listen := (listen c)\<lparr>cl_port := ucast p\<rparr>\<rparr>"
  | x where "k = ''limits.max_connections''" "parse_uint v = Some x" "c' = c\<lparr>limits := (limits c)\<lparr>max_connections := x\<rparr>\<rparr>"
  | y where "k = ''limits.max_message_bytes''" "parse_uint v = Some y" "c' = c\<lparr>limits := (limits c)\<lparr>max_message_bytes := y\<rparr>\<rparr>"
  | x where "k = ''timeouts.idle_ms''" "parse_uint v = Some x" "c' = c\<lparr>timeouts := (timeouts c)\<lparr>idle_ms := x\<rparr>\<rparr>"
  | x where "k = ''runtime.worker_threads''" "parse_uint v = Some x" "c' = c\<lparr>runtime := (runtime c)\<lparr>worker_threads := x\<rparr>\<rparr>"
  | l where "k = ''logging.level''" "parse_log_level v = Some l" "c' = c\<lparr>logging := (logging c)\<lparr>log_level := l\<rparr>\<rparr>"
  | b where "k = ''metrics.enabled''" "parse_bool v = Some b" "c' = c\<lparr>metrics_cfg := (metrics_cfg c)\<lparr>metrics_enabled := b\<rparr>\<rparr>"
  using assms unfolding apply_key_value_def
  by (auto split: if_splits option.splits)

lemma apply_again:
  assumes "apply_key_value c k v = Inr c'"
  shows "apply_key_value c' k w = apply_key_value c k w"
  using assms
  by (rule apply_cases) (simp_all add: apply_key_value_def split: option.splits)

lemma apply_other:
  assumes "apply_key_value c k v = Inr c'" "j \<noteq> k"
  shows "show_setting c' j = show_setting c j"
  using assms(1) by (rule apply_cases) (use assms(2) in \<open>auto simp: show_setting_def\<close>)

lemma apply_shown:
  assumes "k \<in> set known_keys"
  shows "\<exists>c'. apply_key_value c k (show_setting d k) = Inr c' \<and> show_setting c' k = show_setting d k"
  using known_keys_cases [OF assms]
  by (elim disjE) (simp_all add: apply_key_value_def show_setting_def)

lemma apply_same:
  assumes "apply_key_value c k v = Inr c'" "show_setting d k = show_setting c' k"
  shows "apply_key_value d k v = Inr d"
  using assms(1)
  by (rule apply_cases) (use assms(2) in \<open>auto simp: show_setting_def apply_key_value_def
      intro!: ServerConfig.equality ListenConfig.equality LimitsConfig.equality
      TimeoutsConfig.equality RuntimeConfig.equality LoggingConfig.equality MetricsConfig.equality\<close>)

lemma settings_inject:
  assumes "\<And>k. k \<in> set known_keys \<Longrightarrow> show_setting c k = show_setting d k"
  shows "c = d"
proof -
  have "cl_host (listen c) = cl_host (listen d)" using assms [of "''listen.host''"]
    by (simp add: known_keys_def show_setting_def)
  moreover have "cl_port (listen c) = cl_port (listen d)" using assms [of "''listen.port''"]
    by (simp add: known_keys_def show_setting_def)
  moreover have "max_connections (limits c) = max_connections (limits d)" using assms [of "''limits.max_connections''"]
    by (simp add: known_keys_def show_setting_def)
  moreover have "max_message_bytes (limits c) = max_message_bytes (limits d)" using assms [of "''limits.max_message_bytes''"]
    by (simp add: known_keys_def show_setting_def)
  moreover have "idle_ms (timeouts c) = idle_ms (timeouts d)" using assms [of "''timeouts.idle_ms''"]
    by (simp add: known_keys_def show_setting_def)
  moreover have "worker_threads (runtime c) = worker_threads (runtime d)" using assms [of "''runtime.worker_threads''"]
    by (simp add: known_keys_def show_setting_def)
  moreover have "log_level (logging c) = log_level (logging d)" using assms [of "''logging.level''"]
    by (simp add: known_keys_def show_setting_def)
  moreover have "metrics_enabled (metrics_cfg c) = metrics_enabled (metrics_cfg d)" using assms [of "''metrics.enabled''"]
    by (simp add: known_keys_def show_setting_def)
  ultimately show ?thesis
    by (intro ServerConfig.equality ListenConfig.equality LimitsConfig.equality TimeoutsConfig.equality
        RuntimeConfig.equality LoggingConfig.equality MetricsConfig.equality) simp_all
qed

interpretation conf: settings apply_key_value show_setting known_keys
proof
  fix k c d
  show "k \<in> set known_keys \<Longrightarrow> \<exists>c'. apply_key_value c k (show_setting d k) = Inr c' \<and> show_setting c' k = show_setting d k"
    by (rule apply_shown)
next
  fix c k v c' j
  assume a: "apply_key_value c k v = Inr c'"
  then show "k \<in> set known_keys" by (rule apply_known)
  show "j \<noteq> k \<Longrightarrow> show_setting c' j = show_setting c j" by (rule apply_other [OF a])
  show "apply_key_value c' k w = apply_key_value c k w" for w by (rule apply_again [OF a])
  show "show_setting d k = show_setting c' k \<Longrightarrow> apply_key_value d k v = Inr d" for d by (rule apply_same [OF a])
next
  fix c d
  assume "\<And>k. k \<in> set known_keys \<Longrightarrow> show_setting c k = show_setting d k"
  then show "c = d" by (rule settings_inject)
qed

section \<open>Text\<close>

definition print_config :: "ServerConfig \<Rightarrow> string" where
  "print_config cfg = concat (map (\<lambda>k. k @ ''='' @ show_setting cfg k @ [CHR 0x0A]) known_keys)"

lemma trim_plain:
  assumes "s = [] \<or> \<not> is_blank (hd s) \<and> \<not> is_blank (last s)"
  shows "trim s = s"
proof (cases "s = []")
  case False
  with assms have "dropWhile is_blank s = s" by (cases s) auto
  moreover have "dropWhile is_blank (rev s) = rev s"
    using False assms by (cases s rule: rev_cases) auto
  ultimately show ?thesis by (simp add: trim_def)
qed (simp add: trim_def)

lemma trim_idem_ends: "trim s = s \<Longrightarrow> s = [] \<or> \<not> is_blank (hd s) \<and> \<not> is_blank (last s)"
proof -
  assume t: "trim s = s"
  have nb: "dropWhile P xs = [] \<or> \<not> P (hd (dropWhile P xs))" for P and xs :: string
    by (induction xs) auto
  have "dropWhile is_blank s = s"
  proof -
    have "length (dropWhile is_blank (rev (dropWhile is_blank s))) = length s"
      using arg_cong [OF t, of length] by (simp add: trim_def)
    then have "length s \<le> length (dropWhile is_blank s)"
      using length_dropWhile_le [of is_blank "rev (dropWhile is_blank s)"] by simp
    then show ?thesis
      by (metis append_self_conv2 le_antisym length_0_conv length_append length_dropWhile_le
          takeWhile_dropWhile_id add_cancel_left_left)
  qed
  with t have "dropWhile is_blank (rev s) = rev s" by (simp add: trim_def rev_swap)
  with \<open>dropWhile is_blank s = s\<close> nb [of is_blank s] nb [of is_blank "rev s"] show ?thesis
    by (auto simp: hd_rev)
qed

lemma getlines_append:
  assumes "CHR 0x0A \<notin> set l"
  shows "getlines (l @ CHR 0x0A # rest) = l # getlines rest"
proof -
  have "takeWhile (\<lambda>c. c \<noteq> CHR 0x0A) (l @ CHR 0x0A # rest) = l"
    "dropWhile (\<lambda>c. c \<noteq> CHR 0x0A) (l @ CHR 0x0A # rest) = CHR 0x0A # rest"
    using assms by (induction l) auto
  then show ?thesis by (subst getlines.simps) simp
qed

lemma getlines_concat:
  "\<forall>l\<in>set ls. CHR 0x0A \<notin> set l \<Longrightarrow> getlines (concat (map (\<lambda>l. l @ [CHR 0x0A]) ls)) = ls"
  by (induction ls) (simp_all add: getlines_append, simp add: getlines.simps)

lemma load_line_setting:
  assumes "k \<in> set known_keys" "trim v = v"
  shows "load_line ln cfg (k @ ''='' @ v) =
    (case apply_key_value cfg k v of Inl e \<Rightarrow> Inl (e\<lparr>cle_line := ln\<rparr>) | Inr cfg' \<Rightarrow> Inr cfg')"
proof -
  have k: "CHR ''='' \<notin> set k" "k \<noteq> []" "\<not> is_blank (hd k)" "\<not> is_blank (last k)"
    "hd k \<noteq> CHR ''#''" "hd k \<noteq> CHR '';''"
    using known_keys_cases [OF assms(1)] by (elim disjE; simp add: is_blank_def)+
  have "\<not> is_blank (last (k @ ''='' @ v))"
    using trim_idem_ends [OF assms(2)] by (auto simp: is_blank_def)
  with k have "trim (k @ ''='' @ v) = k @ ''='' @ v" by (intro trim_plain) simp
  moreover have "parse_kv (k @ ''='' @ v) = Some (k, v)"
  proof -
    have "takeWhile (\<lambda>c. c \<noteq> CHR ''='') (k @ ''='' @ v) = k" "dropWhile (\<lambda>c. c \<noteq> CHR ''='') (k @ ''='' @ v) = ''='' @ v"
      using k(1) by (induction k) auto
    moreover have "trim k = k" using k by (intro trim_plain) simp
    ultimately show ?thesis using k(2) assms(2) by (simp add: parse_kv_def)
  qed
  ultimately show ?thesis using k by (simp add: load_line_def)
qed

lemma load_lines_settings:
  assumes "\<forall>(k, v)\<in>set kvs. k \<in> set known_keys \<and> trim v = v" "conf.put_all cfg kvs = Inr c"
  shows "load_lines ln cfg (map (\<lambda>(k, v). k @ ''='' @ v) kvs) = Inr c"
  using assms
proof (induction kvs arbitrary: cfg ln)
  case (Cons kv kvs)
  obtain k v where kv: "kv = (k, v)" by (cases kv)
  with Cons.prems obtain c1 where "apply_key_value cfg k v = Inr c1" "conf.put_all c1 kvs = Inr c"
    by (auto split: sum.splits)
  with Cons kv show ?case by (simp add: load_line_setting [simplified])
qed simp

lemma decimal_plain: "trim (decimal n) = decimal n \<and> CHR 0x0A \<notin> set (decimal n)"
proof -
  have d: "is_digit c \<Longrightarrow> \<not> is_blank c \<and> c \<noteq> CHR 0x0A" for c by (auto simp: is_digit_def is_blank_def)
  have all: "\<forall>c\<in>set (decimal n). is_digit c" and ne: "decimal n \<noteq> []"
    using decimal_digits [of n] by (auto simp: list_all_iff)
  then have "hd (decimal n) \<in> set (decimal n)" "last (decimal n) \<in> set (decimal n)" by simp_all
  with all d have "\<not> is_blank (hd (decimal n)) \<and> \<not> is_blank (last (decimal n))" by blast
  with all d ne show ?thesis by (intro conjI trim_plain) auto
qed

lemma show_setting_plain:
  assumes "trim (cl_host (listen cfg)) = cl_host (listen cfg)" "CHR 0x0A \<notin> set (cl_host (listen cfg))"
  shows "trim (show_setting cfg k) = show_setting cfg k \<and> CHR 0x0A \<notin> set (show_setting cfg k)"
proof -
  have "trim (show_level l) = show_level l \<and> CHR 0x0A \<notin> set (show_level l)" for l
    by (cases l) (auto simp: trim_def is_blank_def)
  moreover have "trim (show_bool b) = show_bool b \<and> CHR 0x0A \<notin> set (show_bool b)" for b
    by (cases b) (auto simp: show_bool_def trim_def is_blank_def)
  moreover have "trim [] = []" by (simp add: trim_def)
  ultimately show ?thesis using assms decimal_plain by (simp add: show_setting_def)
qed

lemma load_lines_printed:
  assumes "trim (cl_host (listen cfg)) = cl_host (listen cfg)" "CHR 0x0A \<notin> set (cl_host (listen cfg))"
  shows "load_lines 0 c (getlines (print_config cfg)) = Inr cfg"
proof -
  note plain = show_setting_plain [OF assms]
  let ?kvs = "map (\<lambda>k. (k, show_setting cfg k)) known_keys"
  have "CHR 0x0A \<notin> set k" if "k \<in> set known_keys" for k
    using known_keys_cases [OF that] by (elim disjE) simp_all
  with plain have "\<forall>l\<in>set (map (\<lambda>k. k @ ''='' @ show_setting cfg k) known_keys). CHR 0x0A \<notin> set l" by auto
  from getlines_concat [OF this]
  have "getlines (print_config cfg) = map (\<lambda>(k, v). k @ ''='' @ v) ?kvs"
    by (simp add: print_config_def comp_def)
  moreover have "conf.put_all c ?kvs = Inr cfg" by (rule conf.put_all_keys) simp_all
  with plain have "load_lines 0 c (map (\<lambda>(k, v). k @ ''='' @ v) ?kvs) = Inr cfg"
    by (intro load_lines_settings) auto
  ultimately show ?thesis by simp
qed

section \<open>Errors\<close>

text \<open>The format, apart from how it is parsed: a number in decimal digits below a bound, the values a key takes, and
  what is wrong with a line, if anything.\<close>

definition number_below :: "nat \<Rightarrow> string \<Rightarrow> bool" where
  "number_below b v \<longleftrightarrow> v \<noteq> [] \<and> list_all is_digit v \<and> digits_value v < b"

definition good_value :: "string \<Rightarrow> string \<Rightarrow> bool" where
  "good_value k v \<longleftrightarrow>
     k = ''listen.host'' \<or>
     k = ''listen.port'' \<and> number_below (2 ^ 16) v \<or>
     k \<in> {''limits.max_connections'', ''timeouts.idle_ms'', ''runtime.worker_threads''} \<and> number_below (2 ^ 32) v \<or>
     k = ''limits.max_message_bytes'' \<and> number_below (2 ^ 64) v \<or>
     k = ''logging.level'' \<and>
       v \<in> {''trace'', ''TRACE'', ''Trace'', ''debug'', ''DEBUG'', ''Debug'', ''info'', ''INFO'', ''Info'', ''warn'', ''WARN'',
         ''Warn'', ''warning'', ''WARNING'', ''Warning'', ''error'', ''ERROR'', ''Error''} \<or>
     k = ''metrics.enabled'' \<and> v \<in> {''1'', ''true'', ''TRUE'', ''True'', ''0'', ''false'', ''FALSE'', ''False''}"

definition line_fault :: "string \<Rightarrow> ConfigLoadErrorCode option" where
  "line_fault l =
     (let s = trim l;
          k = trim (takeWhile (\<lambda>c. c \<noteq> CHR ''='') s); v = trim (tl (dropWhile (\<lambda>c. c \<noteq> CHR ''='') s))
      in if s = [] \<or> hd s = CHR ''#'' \<or> hd s = CHR '';'' then None
         else if CHR ''='' \<notin> set s \<or> k = [] then Some InvalidLine
         else if k \<notin> set known_keys then Some UnknownKey
         else if good_value k v then None else Some InvalidValue)"

definition env_fault :: "(string \<Rightarrow> string option) \<Rightarrow> string \<times> string \<Rightarrow> bool" where
  "env_fault getenv nk \<longleftrightarrow> (case getenv (fst nk) of None \<Rightarrow> False | Some v \<Rightarrow> \<not> good_value (snd nk) v)"

definition first_at :: "('a \<Rightarrow> bool) \<Rightarrow> 'a list \<Rightarrow> nat \<Rightarrow> bool" where
  "first_at P xs i \<longleftrightarrow> i < length xs \<and> P (xs ! i) \<and> (\<forall>j<i. \<not> P (xs ! j))"

lemma first_at_0: "first_at P (x # xs) 0 \<longleftrightarrow> P x"
  by (simp add: first_at_def)

lemma first_at_Suc: "first_at P (x # xs) (Suc i) \<longleftrightarrow> \<not> P x \<and> first_at P xs i"
  by (auto simp: first_at_def nth_Cons less_Suc_eq_0_disj split: nat.split)

lemma first_at_some: "first_at P xs i \<Longrightarrow> \<exists>x\<in>set xs. P x"
  by (auto simp: first_at_def intro!: bexI [of _ "xs ! i"])

lemma parse_uint_eq:
  "parse_uint v = (if number_below (2 ^ LENGTH('a)) v then Some (of_nat (digits_value v) :: 'a::len word) else None)"
proof (cases "list_all is_digit v")
  case True
  then show ?thesis
    unfolding parse_uint_def from_chars_def Let_def number_below_def
      conjunct1 [OF takeWhile_digits [OF True]] conjunct2 [OF takeWhile_digits [OF True]] by simp
next
  case False
  then have "dropWhile is_digit v \<noteq> []" by (simp add: dropWhile_eq_Nil_conv list_all_iff)
  with False show ?thesis by (simp add: parse_uint_def from_chars_def number_below_def Let_def)
qed

lemma port_number: "number_below (2 ^ 32) v \<Longrightarrow> \<not> (65535 < (of_nat (digits_value v) :: u32)) \<longleftrightarrow> number_below (2 ^ 16) v"
  by (auto simp: number_below_def word_less_nat_alt unat_of_nat)

lemma if_Some_None: "(if b then Some x else y) = None \<longleftrightarrow> \<not> b \<and> y = None"
  by simp

lemma parse_log_level_None:
  "parse_log_level v = None \<longleftrightarrow>
     v \<notin> {''trace'', ''TRACE'', ''Trace'', ''debug'', ''DEBUG'', ''Debug'', ''info'', ''INFO'', ''Info'', ''warn'', ''WARN'',
       ''Warn'', ''warning'', ''WARNING'', ''Warning'', ''error'', ''ERROR'', ''Error''}"
  by (simp only: parse_log_level_def if_Some_None insert_iff empty_iff de_Morgan_disj simp_thms conj_assoc)

lemma parse_bool_None:
  "parse_bool v = None \<longleftrightarrow> v \<notin> {''1'', ''true'', ''TRUE'', ''True'', ''0'', ''false'', ''FALSE'', ''False''}"
  by (simp only: parse_bool_def if_Some_None insert_iff empty_iff de_Morgan_disj simp_thms conj_assoc)

lemma apply_succeeds: "k \<in> set known_keys \<Longrightarrow> (\<exists>c'. apply_key_value c k v = Inr c') \<longleftrightarrow> good_value k v"
proof -
  have num: "(\<exists>x. (parse_uint v :: 'a::len word option) = Some x) \<longleftrightarrow> number_below (2 ^ LENGTH('a)) v" for v
    by (simp add: parse_uint_eq)
  have port: "(case parse_uint v :: u32 option of None \<Rightarrow> False | Some p \<Rightarrow> \<not> 65535 < p) \<longleftrightarrow> number_below (2 ^ 16) v" for v
    using port_number [of v] by (auto simp: parse_uint_eq number_below_def)
  assume "k \<in> set known_keys"
  from known_keys_cases [OF this] show ?thesis
  proof (elim disjE)
    assume "k = ''listen.port''"
    with port [of v] show ?thesis
      by (cases "parse_uint v :: u32 option") (auto simp: apply_key_value_def good_value_def)
  next
    assume "k = ''logging.level''"
    then have "good_value k v \<longleftrightarrow> parse_log_level v \<noteq> None"
      unfolding parse_log_level_None good_value_def by simp
    with \<open>k = _\<close> show ?thesis by (cases "parse_log_level v") (simp_all add: apply_key_value_def)
  next
    assume "k = ''metrics.enabled''"
    then have "good_value k v \<longleftrightarrow> parse_bool v \<noteq> None" unfolding parse_bool_None good_value_def by simp
    with \<open>k = _\<close> show ?thesis by (cases "parse_bool v") (simp_all add: apply_key_value_def)
  qed (simp_all add: apply_key_value_def good_value_def parse_uint_eq)
qed

lemma apply_fails: "apply_key_value c k v = Inl e \<Longrightarrow> cle_code e = (if k \<in> set known_keys then InvalidValue else UnknownKey)"
  by (auto simp: apply_key_value_def known_keys_def load_err_def split: if_splits option.splits)

lemma load_line_fault:
  "case load_line ln c l of
     Inl e \<Rightarrow> line_fault l = Some (cle_code e) \<and> cle_line e = ln
   | Inr c' \<Rightarrow> line_fault l = None"
proof -
  let ?s = "trim l"
  let ?k = "trim (takeWhile (\<lambda>c. c \<noteq> CHR ''='') ?s)" and ?v = "trim (tl (dropWhile (\<lambda>c. c \<noteq> CHR ''='') ?s))"
  consider "?s = [] \<or> hd ?s = CHR ''#'' \<or> hd ?s = CHR '';''"
    | "\<not> (?s = [] \<or> hd ?s = CHR ''#'' \<or> hd ?s = CHR '';'')" "CHR ''='' \<notin> set ?s \<or> ?k = []"
    | "\<not> (?s = [] \<or> hd ?s = CHR ''#'' \<or> hd ?s = CHR '';'')" "\<not> (CHR ''='' \<notin> set ?s \<or> ?k = [])" by blast
  then show ?thesis
  proof cases
    case 1
    then show ?thesis by (auto simp: load_line_def line_fault_def Let_def)
  next
    case 2
    then show ?thesis by (auto simp: load_line_def line_fault_def parse_kv_def load_err_def Let_def)
  next
    case 3
    show ?thesis
    proof (cases "apply_key_value c ?k ?v")
      case (Inl e)
      with 3 apply_fails [OF Inl] apply_succeeds [of ?k c ?v] show ?thesis
        by (simp add: load_line_def line_fault_def parse_kv_def Let_def)
    next
      case (Inr c')
      with 3 apply_known [OF Inr] apply_succeeds [of ?k c ?v] show ?thesis
        by (simp add: load_line_def line_fault_def parse_kv_def Let_def)
    qed
  qed
qed

lemma load_lines_fault:
  "case load_lines n c ls of
     Inl e \<Rightarrow> \<exists>i. first_at (\<lambda>l. line_fault l \<noteq> None) ls i \<and> line_fault (ls ! i) = Some (cle_code e) \<and> cle_line e = n + i + 1
   | Inr c' \<Rightarrow> \<forall>l\<in>set ls. line_fault l = None"
proof (induction ls arbitrary: n c)
  case (Cons l ls)
  note line = load_line_fault [where ln = "n + 1" and c = c and l = l]
  show ?case
  proof (cases "load_line (n + 1) c l")
    case (Inl e)
    with line show ?thesis by (auto intro!: exI [of _ 0] simp: first_at_0)
  next
    case (Inr c1)
    with line have ok: "line_fault l = None" by simp
    show ?thesis
    proof (cases "load_lines (n + 1) c1 ls")
      case (Inl e)
      with Cons.IH [where n = "n + 1" and c = c1] obtain i where "first_at (\<lambda>l. line_fault l \<noteq> None) ls i"
        "line_fault (ls ! i) = Some (cle_code e)" "cle_line e = n + 1 + i + 1" by auto
      with ok Inl Inr show ?thesis by (auto intro!: exI [of _ "Suc i"] simp: first_at_Suc)
    next
      case (Inr c2)
      with \<open>load_line (n + 1) c l = Inr c1\<close> Cons.IH [where n = "n + 1" and c = c1] ok show ?thesis by simp
    qed
  qed
qed simp

section \<open>Environment\<close>

lemma env_keys_distinct: "distinct (map snd env_keys)"
  by (simp add: env_keys_def)

lemma apply_env_none: "\<forall>(n, k)\<in>set eks. getenv n = None \<Longrightarrow> apply_env getenv eks cfg = Inr cfg"
  by (induction getenv eks cfg rule: apply_env.induct) auto

lemma apply_env_other:
  "apply_env getenv eks cfg = Inr c \<Longrightarrow> k \<notin> snd ` {x \<in> set eks. getenv (fst x) \<noteq> None} \<Longrightarrow> show_setting c k = show_setting cfg k"
proof (induction getenv eks cfg rule: apply_env.induct)
  case (2 getenv env key eks cfg)
  from 2(4) have rest: "k \<notin> snd ` {x \<in> set eks. getenv (fst x) \<noteq> None}" by auto
  show ?case
  proof (cases "getenv env")
    case None
    with 2 rest show ?thesis by simp
  next
    case (Some v)
    with 2(3) obtain c1 where c1: "apply_key_value cfg key v = Inr c1" "apply_env getenv eks c1 = Inr c"
      by (auto split: sum.splits)
    from 2(4) Some have "k \<noteq> key" by (force simp: image_iff)
    with 2(2) [OF Some c1 rest] conf.put_other [OF c1(1)] show ?thesis by simp
  qed
qed simp

lemma apply_env_set:
  assumes "apply_env getenv eks cfg = Inr c" "distinct (map snd eks)" "(n, k) \<in> set eks" "getenv n = Some v"
  shows "apply_key_value c k v = Inr c"
  using assms
proof (induction getenv eks cfg rule: apply_env.induct)
  case (2 getenv env key eks cfg)
  show ?case
  proof (cases "(n, k) = (env, key)")
    case True
    with 2 obtain c1 where c1: "apply_key_value cfg k v = Inr c1" "apply_env getenv eks c1 = Inr c"
      by (auto split: sum.splits)
    from 2(4) True have "k \<notin> snd ` {x \<in> set eks. getenv (fst x) \<noteq> None}" by auto
    from conf.put_same [OF c1(1)] apply_env_other [OF c1(2) this] show ?thesis by simp
  next
    case False
    with 2 show ?thesis by (cases "getenv env") (auto split: sum.splits)
  qed
qed simp

lemma apply_env_fault:
  "snd ` set eks \<subseteq> set known_keys \<Longrightarrow>
   (case apply_env getenv eks c of
      Inl e \<Rightarrow> \<exists>i. first_at (env_fault getenv) eks i \<and> cle_code e = InvalidValue \<and> cle_line e = 0 \<and>
        prefix (''env '' @ fst (eks ! i) @ '': '') (cle_message e)
    | Inr c' \<Rightarrow> \<forall>nk\<in>set eks. \<not> env_fault getenv nk)"
proof (induction eks arbitrary: c)
  case (Cons ek eks)
  obtain env key where ek: "ek = (env, key)" by (cases ek)
  have key: "key \<in> set known_keys" using Cons.prems ek by simp
  have later: ?case if run: "apply_env getenv (ek # eks) c = apply_env getenv eks c1" and ok: "\<not> env_fault getenv ek" for c1
  proof (cases "apply_env getenv eks c1")
    case (Inl e)
    with Cons.IH [of c1] Cons.prems obtain i where "first_at (env_fault getenv) eks i" "cle_code e = InvalidValue"
      "cle_line e = 0" "prefix (''env '' @ fst (eks ! i) @ '': '') (cle_message e)" by auto
    with run ok Inl show ?thesis by (auto intro!: exI [of _ "Suc i"] simp: first_at_Suc)
  next
    case (Inr c')
    with Cons.IH [of c1] Cons.prems run ok show ?thesis by simp
  qed
  show ?case
  proof (cases "getenv env")
    case None
    show ?thesis by (rule later) (simp_all add: None env_fault_def ek)
  next
    case (Some v)
    show ?thesis
    proof (cases "apply_key_value c key v")
      case (Inl e)
      with apply_succeeds [OF key, of c v] have "\<not> good_value key v" by auto
      with apply_fails [OF Inl] key Some Inl ek show ?thesis
        by (auto simp: env_fault_def first_at_0 intro!: exI [of _ 0])
    next
      case (Inr c1)
      with apply_succeeds [OF key, of c v] have "good_value key v" by blast
      with Inr Some show ?thesis by (intro later) (simp_all add: env_fault_def ek)
    qed
  qed
qed simp

section \<open>Properties\<close>

text \<open>C28: Configurations round-trip through text. Every configuration whose host has no newline and no
  blanks at its ends, printed as one \<^verbatim>\<open>key=value\<close> line per setting, is loaded back exactly: all port
  numbers, all 32- and 64-bit limits, all levels, both flags, and hosts containing \<^verbatim>\<open>=\<close> or \<^verbatim>\<open>#\<close>.\<close>

theorem config_roundtrip:
  assumes "file path = Some (print_config cfg)" and "\<forall>(n, k)\<in>set env_keys. getenv n = None"
    and "trim (cl_host (listen cfg)) = cl_host (listen cfg)" and "CHR 0x0A \<notin> set (cl_host (listen cfg))"
  shows "load_config_from_file file getenv path = Inr cfg"
  using load_lines_printed [OF assms(3,4)] apply_env_none [OF assms(2)] assms(1)
  by (simp add: load_config_from_file_def)

definition demo_config :: ServerConfig where
  "demo_config = \<lparr>listen = \<lparr>cl_host = ''a=b'', cl_port = 65535\<rparr>,
     limits = \<lparr>max_connections = 100, max_message_bytes = 18446744073709551615\<rparr>,
     timeouts = \<lparr>idle_ms = 5000\<rparr>, runtime = \<lparr>worker_threads = 4\<rparr>,
     logging = \<lparr>log_level = LL_Warn\<rparr>, metrics_cfg = \<lparr>metrics_enabled = True\<rparr>\<rparr>"

theorem config_roundtrip_witness:
  "load_config_from_file (\<lambda>p. Some (print_config demo_config)) (\<lambda>_. None) ''server.conf'' = Inr demo_config"
  by (rule config_roundtrip) (simp_all add: demo_config_def trim_def is_blank_def)

text \<open>C29: Loading fails exactly for a reason, and reports the first one. A line is at fault if, blanks stripped, it is not
  empty nor a comment and has no \<^verbatim>\<open>=\<close> or no key, or a key that is not known, or a value that is not one of its key: any
  text for the host, decimal digits below \<open>2\<^sup>1\<^sup>6\<close>, \<open>2\<^sup>3\<^sup>2\<close> or \<open>2\<^sup>6\<^sup>4\<close> for the numbers, the listed spellings for the
  level and the flag. A variable is at fault if it is set to a value that is not one of its key. If the file
  cannot be opened, that is reported. Otherwise, if a line of it is at fault, the error has the kind of fault of the
  first such line and its 1-based number, whatever the environment. Otherwise, if a variable is at fault, the first such
  variable is named, with the kind InvalidValue and line 0. Otherwise loading succeeds.\<close>

theorem config_first_bad_line:
  "case file path of
     None \<Rightarrow> \<exists>e. load_config_from_file file getenv path = Inl e \<and> cle_code e = FileOpenFailed \<and> cle_line e = 0
   | Some content \<Rightarrow>
       if \<exists>l\<in>set (getlines content). line_fault l \<noteq> None
       then \<exists>i e. first_at (\<lambda>l. line_fault l \<noteq> None) (getlines content) i \<and>
              load_config_from_file file getenv path = Inl e \<and>
              line_fault (getlines content ! i) = Some (cle_code e) \<and> cle_line e = i + 1
       else if \<exists>nk\<in>set env_keys. env_fault getenv nk
       then \<exists>i e. first_at (env_fault getenv) env_keys i \<and> load_config_from_file file getenv path = Inl e \<and>
              cle_code e = InvalidValue \<and> cle_line e = 0 \<and>
              prefix (''env '' @ fst (env_keys ! i) @ '': '') (cle_message e)
       else \<exists>cfg. load_config_from_file file getenv path = Inr cfg"
proof (cases "file path")
  case None
  then show ?thesis by (simp add: load_config_from_file_def load_err_def)
next
  case (Some content)
  let ?ls = "getlines content" and ?c0 = ServerConfig_default
  note lines = load_lines_fault [where n = 0 and c = ?c0 and ls = ?ls]
  show ?thesis
  proof (cases "load_lines 0 ?c0 ?ls")
    case (Inl e)
    with lines obtain i where i: "first_at (\<lambda>l. line_fault l \<noteq> None) ?ls i"
      "line_fault (?ls ! i) = Some (cle_code e)" "cle_line e = i + 1" by auto
    from first_at_some [OF i(1)] i Inl Some show ?thesis by (auto simp: load_config_from_file_def)
  next
    case (Inr c)
    have "snd ` set env_keys \<subseteq> set known_keys" by (simp add: env_keys_def known_keys_def)
    note env = apply_env_fault [OF this, where getenv = getenv and c = c]
    show ?thesis
    proof (cases "apply_env getenv env_keys c")
      case (Inl e)
      with env obtain i where "first_at (env_fault getenv) env_keys i" "cle_code e = InvalidValue" "cle_line e = 0"
        "prefix (''env '' @ fst (env_keys ! i) @ '': '') (cle_message e)" by auto
      with first_at_some [of "env_fault getenv" env_keys i] lines Inr Inl Some show ?thesis
        by (auto simp: load_config_from_file_def)
    next
      case Inr': (Inr cfg)
      with env lines Inr Some show ?thesis by (auto simp: load_config_from_file_def)
    qed
  qed
qed

theorem config_first_bad_line_witness:
  "\<exists>e. load_config_from_file (\<lambda>p. Some (''# c'' @ [CHR 0x0A] @ ''listen.port=70000'' @ [CHR 0x0A] @ ''nokey'')) (\<lambda>_. None) [] = Inl e \<and>
     cle_code e = InvalidValue \<and> cle_line e = 2"
proof -
  let ?content = "''# c'' @ [CHR 0x0A] @ ''listen.port=70000'' @ [CHR 0x0A] @ ''nokey''"
  have g: "getlines ?content = [''# c'', ''listen.port=70000'', ''nokey'']"
    using getlines_append [of "''# c''" "''listen.port=70000'' @ [CHR 0x0A] @ ''nokey''"]
      getlines_append [of "''listen.port=70000''" "''nokey''"]
    by (simp add: getlines.simps)
  have f: "line_fault ''listen.port=70000'' = Some InvalidValue" "line_fault ''# c'' = None"
    by (simp_all add: line_fault_def trim_def is_blank_def known_keys_def good_value_def number_below_def is_digit_def
        digits_value_def digit_value_def)
  let ?ls = "[''# c'', ''listen.port=70000'', ''nokey'']"
  have "\<exists>i e. first_at (\<lambda>l. line_fault l \<noteq> None) ?ls i \<and>
      load_config_from_file (\<lambda>p. Some ?content) (\<lambda>_. None) [] = Inl e \<and>
      line_fault (?ls ! i) = Some (cle_code e) \<and> cle_line e = i + 1"
    using config_first_bad_line [of "\<lambda>p. Some ?content" "\<lambda>_. None" "[]"] f
    unfolding option.case g by simp
  then obtain i e where i: "first_at (\<lambda>l. line_fault l \<noteq> None) ?ls i"
    "load_config_from_file (\<lambda>p. Some ?content) (\<lambda>_. None) [] = Inl e"
    "line_fault (?ls ! i) = Some (cle_code e)" "cle_line e = i + 1" by blast
  have "i = 1"
    using i(1) f by (cases i; cases "i - 1") (simp_all add: first_at_0 first_at_Suc)
  with i f show ?thesis by auto
qed

text \<open>Environment overrides win, one setting each. Every variable read is the prefix followed by the
  key with each dot replaced by two underscores, and every known key has one. When loading succeeds,
  each setting whose variable is set has the value of the variable (applying it once more changes
  nothing), and each other setting has the value the file gives it.\<close>

lemma config_env_overrides:
  assumes "load_config_from_file file getenv path = Inr cfg"
  shows "map snd env_keys = known_keys \<and>
    list_all (\<lambda>(n, k). n = ''TCP_SERVER__'' @ concat (map (\<lambda>c. if c = CHR ''.'' then ''__'' else [c]) k)) env_keys \<and>
    (\<exists>content base. file path = Some content \<and>
       load_lines 0 ServerConfig_default (getlines content) = Inr base \<and>
       (\<forall>(n, k)\<in>set env_keys.
          (case getenv n of
             Some v \<Rightarrow> apply_key_value cfg k v = Inr cfg
           | None \<Rightarrow> show_setting cfg k = show_setting base k)))"
proof -
  from assms obtain content base where base: "file path = Some content"
    "load_lines 0 ServerConfig_default (getlines content) = Inr base" "apply_env getenv env_keys base = Inr cfg"
    by (auto simp: load_config_from_file_def split: option.splits sum.splits)
  have "show_setting cfg k = show_setting base k" if "(n, k) \<in> set env_keys" "getenv n = None" for n k
  proof -
    have "k \<notin> snd ` {x \<in> set env_keys. getenv (fst x) \<noteq> None}"
    proof
      assume "k \<in> snd ` {x \<in> set env_keys. getenv (fst x) \<noteq> None}"
      then obtain n' where n': "(n', k) \<in> set env_keys" "getenv n' \<noteq> None" by auto
      have "inj_on snd (set env_keys)" using env_keys_distinct by (simp add: distinct_map)
      from inj_onD [OF this _ n'(1) that(1)] have "n' = n" by simp
      with n'(2) that(2) show False by simp
    qed
    from apply_env_other [OF base(3) this] show ?thesis .
  qed
  with apply_env_set [OF base(3) env_keys_distinct] base(1,2)
  have "\<exists>content base. file path = Some content \<and>
       load_lines 0 ServerConfig_default (getlines content) = Inr base \<and>
       (\<forall>(n, k)\<in>set env_keys.
          (case getenv n of
             Some v \<Rightarrow> apply_key_value cfg k v = Inr cfg
           | None \<Rightarrow> show_setting cfg k = show_setting base k))"
    by (intro exI conjI) (auto split: option.splits)
  then show ?thesis by (simp add: env_keys_def known_keys_def)
qed

lemma config_env_overrides_witness:
  "\<exists>cfg. load_config_from_file (\<lambda>_. Some []) (\<lambda>n. if n = ''TCP_SERVER__metrics__enabled'' then Some ''1'' else None) [] = Inr cfg \<and>
     apply_key_value cfg ''metrics.enabled'' ''1'' = Inr cfg"
proof -
  let ?env = "\<lambda>n. if n = ''TCP_SERVER__metrics__enabled'' then Some ''1'' else None"
  have "\<exists>cfg. load_config_from_file (\<lambda>_. Some []) ?env [] = Inr cfg"
    by (simp add: load_config_from_file_def getlines.simps env_keys_def apply_key_value_def parse_bool_def)
  then obtain cfg where cfg: "load_config_from_file (\<lambda>_. Some []) ?env [] = Inr cfg" ..
  have "(''TCP_SERVER__metrics__enabled'', ''metrics.enabled'') \<in> set env_keys" by (simp add: env_keys_def)
  with config_env_overrides [OF cfg] have "apply_key_value cfg ''metrics.enabled'' ''1'' = Inr cfg" by fastforce
  with cfg show ?thesis by blast
qed

text \<open>Validation accepts exactly the usable configurations. No error is returned if and only if the
  port, both limits, the idle timeout and the worker count are positive and a message is at most one
  gibibyte; otherwise the first missing value is reported, and OutOfRange exactly when only the message
  limit is at fault. The code InvalidCombination is never returned.\<close>

lemma config_validation:
  "(validate_config cfg = None \<longleftrightarrow>
      0 < cl_port (listen cfg) \<and> 0 < max_connections (limits cfg) \<and> 0 < max_message_bytes (limits cfg) \<and>
      0 < idle_ms (timeouts cfg) \<and> 0 < worker_threads (runtime cfg) \<and> unat (max_message_bytes (limits cfg)) \<le> 2 ^ 30) \<and>
    ((\<exists>m. validate_config cfg = Some \<lparr>cve_code = OutOfRange, cve_message = m\<rparr>) \<longleftrightarrow>
      0 < cl_port (listen cfg) \<and> 0 < max_connections (limits cfg) \<and> 0 < max_message_bytes (limits cfg) \<and>
      0 < idle_ms (timeouts cfg) \<and> 0 < worker_threads (runtime cfg) \<and> 2 ^ 30 < unat (max_message_bytes (limits cfg))) \<and>
    validate_config cfg \<noteq> Some \<lparr>cve_code = InvalidCombination, cve_message = m\<rparr>"
  by (auto simp: validate_config_def missing_def out_of_range_def word_neq_0_conv word_less_nat_alt)

end
