(* ===== verification/Logging.thy ===== *)
theory Logging
  imports Config
begin

text \<open>
  \<^verbatim>\<open>logging.hpp\<close> and \<^verbatim>\<open>logging.cpp\<close>: the level filter and the text of a log record. The sink is the bytes
  written to standard error so far; every record is written under the sink's mutex, so records are not
  interleaved and a program's log is a sequence of calls.
\<close>

section \<open>Levels\<close>

fun level_value :: "LogLevel \<Rightarrow> nat" where
  "level_value LL_Trace = 0" | "level_value LL_Debug = 1" | "level_value LL_Info = 2"
| "level_value LL_Warn = 3" | "level_value LL_Error = 4"

instantiation LogLevel :: linorder
begin

definition less_eq_LogLevel :: "LogLevel \<Rightarrow> LogLevel \<Rightarrow> bool" where
  "a \<le> b \<longleftrightarrow> level_value a \<le> level_value b"

definition less_LogLevel :: "LogLevel \<Rightarrow> LogLevel \<Rightarrow> bool" where
  "a < b \<longleftrightarrow> level_value a < level_value b"

instance
proof
  fix a b :: LogLevel
  show "a \<le> b \<Longrightarrow> b \<le> a \<Longrightarrow> a = b"
    by (cases a; cases b) (simp_all add: less_eq_LogLevel_def)
qed (auto simp: less_eq_LogLevel_def less_LogLevel_def)

end

fun level_name :: "LogLevel \<Rightarrow> string" where
  "level_name LL_Trace = ''trace''" | "level_name LL_Debug = ''debug''" | "level_name LL_Info = ''info''"
| "level_name LL_Warn = ''warn''" | "level_name LL_Error = ''error''"

section \<open>Records\<close>

record LogField =
  lf_key :: string
  lf_value :: string

definition quote_char :: char where "quote_char = CHR 0x22"
definition backslash_char :: char where "backslash_char = CHR 0x5C"
definition newline_char :: char where "newline_char = CHR 0x0A"

definition needs_quotes :: "string \<Rightarrow> bool" where
  "needs_quotes s \<longleftrightarrow> (\<exists>ch\<in>set s. ch = CHR '' '' \<or> ch = CHR 0x09 \<or> ch = quote_char \<or> ch = CHR ''='')"

fun write_escaped :: "string \<Rightarrow> string" where
  "write_escaped [] = []"
| "write_escaped (ch # s) =
     (if ch = quote_char \<or> ch = backslash_char then [backslash_char] else []) @ [ch] @ write_escaped s"

definition write_kv :: "LogField \<Rightarrow> string" where
  "write_kv field = '' '' @ lf_key field @ ''='' @
     (if needs_quotes (lf_value field) then [quote_char] @ write_escaped (lf_value field) @ [quote_char]
      else lf_value field)"

definition log_text :: "LogLevel \<Rightarrow> string \<Rightarrow> LogField list \<Rightarrow> string" where
  "log_text level message flds =
     ''level='' @ level_name level @ '' msg='' @ [quote_char] @ write_escaped message @ [quote_char] @
     concat (map write_kv (filter (\<lambda>f. lf_key f \<noteq> []) flds)) @ [newline_char]"

record log_state =
  threshold :: LogLevel
  sink :: string

definition logging_init :: log_state where
  "logging_init = \<lparr>threshold = LL_Info, sink = []\<rparr>"

definition logging_configure :: "LoggingConfig \<Rightarrow> log_state \<Rightarrow> log_state" where
  "logging_configure cfg st = st\<lparr>threshold := log_level cfg\<rparr>"

definition logging_enabled :: "LogLevel \<Rightarrow> log_state \<Rightarrow> bool" where
  "logging_enabled level st \<longleftrightarrow> level_value level \<ge> level_value (threshold st)"

definition log_record :: "LogLevel \<Rightarrow> string \<Rightarrow> LogField list \<Rightarrow> log_state \<Rightarrow> log_state" where
  "log_record level message flds st =
     (if \<not> logging_enabled level st then st
      else st\<lparr>sink := sink st @ log_text level message flds\<rparr>)"

section \<open>Reading a record back\<close>

text \<open>A reader of the documented format: a quoted string up to the next unescaped quote, and fields
  separated by blanks, quoted or not. The fuel bounds the number of fields.\<close>

fun unquote :: "string \<Rightarrow> (string \<times> string) option" where
  "unquote [] = None"
| "unquote (c # cs) =
     (if c = quote_char then Some ([], cs)
      else if c = backslash_char
      then (case cs of [] \<Rightarrow> None | d # ds \<Rightarrow> map_option (\<lambda>(v, r). (d # v, r)) (unquote ds))
      else map_option (\<lambda>(v, r). (c # v, r)) (unquote cs))"

fun read_value :: "string \<Rightarrow> (string \<times> string) option" where
  "read_value [] = Some ([], [])"
| "read_value (c # s) =
     (if c = quote_char then unquote s
      else Some (takeWhile (\<lambda>c. c \<noteq> CHR '' '') (c # s), dropWhile (\<lambda>c. c \<noteq> CHR '' '') (c # s)))"

fun read_fields :: "nat \<Rightarrow> string \<Rightarrow> LogField list option" where
  "read_fields n [] = Some []"
| "read_fields 0 (c # s) = None"
| "read_fields (Suc n) (c # s) =
     (if c \<noteq> CHR '' '' \<or> CHR ''='' \<notin> set s then None
      else (case read_value (tl (dropWhile (\<lambda>c. c \<noteq> CHR ''='') s)) of
              None \<Rightarrow> None
            | Some (v, rest) \<Rightarrow>
                map_option (\<lambda>fs. \<lparr>lf_key = takeWhile (\<lambda>c. c \<noteq> CHR ''='') s, lf_value = v\<rparr> # fs)
                  (read_fields n rest)))"

lemma unquote_escaped: "unquote (write_escaped s @ quote_char # rest) = Some (s, rest)"
  by (induction s) (auto simp: quote_char_def backslash_char_def)

lemma read_value_written:
  assumes "rest = [] \<or> hd rest = CHR '' ''"
  shows "read_value ((if needs_quotes v then [quote_char] @ write_escaped v @ [quote_char] else v) @ rest) = Some (v, rest)"
proof (cases "needs_quotes v")
  case True
  then show ?thesis using unquote_escaped [of v rest] by simp
next
  case False
  then have plain: "\<forall>c\<in>set v. c \<noteq> CHR '' '' \<and> c \<noteq> quote_char" by (auto simp: needs_quotes_def)
  then have "takeWhile (\<lambda>c. c \<noteq> CHR '' '') (v @ rest) = v" "dropWhile (\<lambda>c. c \<noteq> CHR '' '') (v @ rest) = rest"
    using assms by (induction v) (cases rest; auto)+
  moreover have "read_value (v @ rest) = Some (takeWhile (\<lambda>c. c \<noteq> CHR '' '') (v @ rest),
      dropWhile (\<lambda>c. c \<noteq> CHR '' '') (v @ rest))"
  proof (cases v)
    case Nil
    then show ?thesis using assms by (cases rest) (auto simp: quote_char_def)
  next
    case (Cons c cs)
    with plain show ?thesis by simp
  qed
  ultimately show ?thesis using False by simp
qed

lemma read_fields_written:
  assumes "\<forall>f\<in>set fs. CHR ''='' \<notin> set (lf_key f)"
  shows "read_fields (length fs) (concat (map write_kv fs)) = Some fs"
  using assms
proof (induction fs)
  case (Cons f fs)
  let ?rest = "concat (map write_kv fs)"
  have rest: "?rest = [] \<or> hd ?rest = CHR '' ''" by (cases fs) (simp_all add: write_kv_def)
  have key: "takeWhile (\<lambda>c. c \<noteq> CHR ''='') (lf_key f @ CHR ''='' # r) = lf_key f"
    "dropWhile (\<lambda>c. c \<noteq> CHR ''='') (lf_key f @ CHR ''='' # r) = CHR ''='' # r" for r
  proof -
    have "CHR ''='' \<notin> set (lf_key f)" using Cons.prems by simp
    then show "takeWhile (\<lambda>c. c \<noteq> CHR ''='') (lf_key f @ CHR ''='' # r) = lf_key f"
      "dropWhile (\<lambda>c. c \<noteq> CHR ''='') (lf_key f @ CHR ''='' # r) = CHR ''='' # r"
      by (induction "lf_key f") (auto simp: takeWhile_append dropWhile_append)
  qed
  define w where
    "w = (if needs_quotes (lf_value f) then [quote_char] @ write_escaped (lf_value f) @ [quote_char] else lf_value f)"
  have "concat (map write_kv (f # fs)) = CHR '' '' # (lf_key f @ CHR ''='' # (w @ ?rest))"
    by (simp add: write_kv_def w_def)
  moreover have "read_value (w @ ?rest) = Some (lf_value f, ?rest)"
    unfolding w_def by (rule read_value_written [OF rest])
  ultimately show ?case
    using Cons by (simp add: key del: read_value.simps)
qed simp

definition read_level :: "string \<Rightarrow> LogLevel option" where
  "read_level s = List.find (\<lambda>l. level_name l = s) [LL_Trace, LL_Debug, LL_Info, LL_Warn, LL_Error]"

text \<open>A whole record, without its final newline.\<close>

definition read_record :: "nat \<Rightarrow> string \<Rightarrow> (LogLevel \<times> string \<times> LogField list) option" where
  "read_record n s =
     (let name = takeWhile (\<lambda>c. c \<noteq> CHR '' '') (drop 6 s); rest = dropWhile (\<lambda>c. c \<noteq> CHR '' '') (drop 6 s)
      in if take 6 s \<noteq> ''level='' \<or> take 6 rest \<noteq> '' msg='' @ [quote_char] then None
         else (case (read_level name, unquote (drop 6 rest)) of
                 (Some l, Some (msg, tail)) \<Rightarrow> map_option (\<lambda>fs. (l, msg, fs)) (read_fields n tail)
               | _ \<Rightarrow> None))"

lemma read_level_name [simp]: "read_level (level_name l) = Some l"
  by (cases l) (simp_all add: read_level_def)

lemma read_record_text:
  assumes "\<forall>f\<in>set fs. CHR ''='' \<notin> set (lf_key f)"
  shows "read_record (length fs)
    (''level='' @ level_name l @ '' msg='' @ [quote_char] @ write_escaped msg @ [quote_char] @ concat (map write_kv fs)) =
    Some (l, msg, fs)"
proof -
  have "takeWhile (\<lambda>c. c \<noteq> CHR '' '') (level_name l @ '' msg='' @ r) = level_name l"
    "dropWhile (\<lambda>c. c \<noteq> CHR '' '') (level_name l @ '' msg='' @ r) = '' msg='' @ r" for r
    by (cases l; simp)+
  note level = this [simplified]
  show ?thesis
    using read_fields_written [OF assms] unquote_escaped [of msg "concat (map write_kv fs)"]
    by (simp add: read_record_def level Let_def)
qed

section \<open>Sequences of calls\<close>

text \<open>The newlines of a record: one at its end, and those of its message, keys and values.\<close>

definition newlines :: "string \<Rightarrow> nat" where
  "newlines s = length (filter (\<lambda>c. c = newline_char) s)"

lemma newlines_simps [simp]:
  "newlines [] = 0" "newlines (a @ b) = newlines a + newlines b"
  "newlines (c # a) = (if c = newline_char then 1 else 0) + newlines a"
  by (simp_all add: newlines_def)

lemma newlines_escaped [simp]: "newlines (write_escaped s) = newlines s"
  by (induction s) (auto simp: newline_char_def backslash_char_def quote_char_def)

lemma newlines_field: "newlines (write_kv f) = newlines (lf_key f) + newlines (lf_value f)"
  by (simp add: write_kv_def newline_char_def quote_char_def)

lemma newlines_text:
  "newlines (log_text l msg flds) =
     newlines msg + sum_list (map (\<lambda>f. newlines (lf_key f) + newlines (lf_value f))
       (filter (\<lambda>f. lf_key f \<noteq> []) flds)) + 1"
proof -
  have "newlines (concat (map write_kv fs)) = sum_list (map (\<lambda>f. newlines (lf_key f) + newlines (lf_value f)) fs)" for fs
    by (induction fs) (simp_all add: newlines_field)
  moreover have "newlines (level_name l) = 0" by (cases l) (simp_all add: newline_char_def)
  ultimately show ?thesis
    by (simp add: log_text_def) (simp add: newline_char_def quote_char_def)
qed

lemma log_calls:
  "sink (fold (\<lambda>(l, m, fs). log_record l m fs) calls st) =
     sink st @ concat (map (\<lambda>(l, m, fs). log_text l m fs) (filter (\<lambda>(l, m, fs). threshold st \<le> l) calls))"
proof (induction calls arbitrary: st)
  case (Cons c calls)
  obtain l m fs where c: "c = (l, m, fs)" by (cases c)
  have "threshold (log_record l m fs st) = threshold st" by (simp add: log_record_def)
  with Cons [of "log_record l m fs st"] c show ?case
    by (simp add: log_record_def logging_enabled_def less_eq_LogLevel_def)
qed simp

section \<open>Properties\<close>

text \<open>C39: What can be read back from a log, and what cannot. The log of a sequence of calls is the text of exactly the
  records at or above the configured level, in order. A field whose key is empty leaves no trace. If no key contains an
  equals sign, a reader of the documented format recovers from a record its level, its message and its fields with a
  key, whatever bytes the message and the values contain; keys are written as they are, so with an equals sign in a key
  two different lists of fields can have the same text. A record has one newline more than its message and the keys
  and values written together: newlines are neither escaped nor quoted, so a message with a newline breaks the
  documented single-line format.\<close>

theorem log_record_format:
  assumes "\<forall>f\<in>set flds. CHR ''='' \<notin> set (lf_key f)"
  shows "let kept = filter (\<lambda>f. lf_key f \<noteq> []) flds
    in log_text l msg flds = butlast (log_text l msg flds) @ [newline_char] \<and>
       read_record (length kept) (butlast (log_text l msg flds)) = Some (l, msg, kept) \<and>
       newlines (log_text l msg flds) =
         newlines msg + sum_list (map (\<lambda>f. newlines (lf_key f) + newlines (lf_value f)) kept) + 1 \<and>
       log_text l msg [\<lparr>lf_key = ''a=1 b'', lf_value = ''2''\<rparr>] =
         log_text l msg [\<lparr>lf_key = ''a'', lf_value = ''1''\<rparr>, \<lparr>lf_key = ''b'', lf_value = ''2''\<rparr>] \<and>
       sink (fold (\<lambda>(l, m, fs). log_record l m fs) calls st) =
         sink st @ concat (map (\<lambda>(l, m, fs). log_text l m fs) (filter (\<lambda>(l, m, fs). threshold st \<le> l) calls))"
proof -
  let ?kept = "filter (\<lambda>f. lf_key f \<noteq> []) flds"
  let ?rec = "''level='' @ level_name l @ '' msg='' @ [quote_char] @ write_escaped msg @ [quote_char] @ concat (map write_kv ?kept)"
  have whole: "log_text l msg flds = ?rec @ [newline_char]" by (simp add: log_text_def)
  then have body: "butlast (log_text l msg flds) = ?rec" by (simp only: butlast_snoc)
  have "read_record (length ?kept) ?rec = Some (l, msg, ?kept)"
    using assms by (intro read_record_text) simp
  moreover have "log_text l msg [\<lparr>lf_key = ''a=1 b'', lf_value = ''2''\<rparr>] =
      log_text l msg [\<lparr>lf_key = ''a'', lf_value = ''1''\<rparr>, \<lparr>lf_key = ''b'', lf_value = ''2''\<rparr>]"
    by (simp add: log_text_def write_kv_def needs_quotes_def quote_char_def)
  ultimately show ?thesis
    using whole body log_calls [of calls st] newlines_text [of l msg flds] unfolding Let_def by (simp only: simp_thms)
qed

theorem log_record_format_witness:
  "let f = \<lparr>lf_key = ''peer'', lf_value = ''a='' @ [quote_char, backslash_char]\<rparr>
   in newlines (log_text LL_Warn (''two'' @ [newline_char] @ ''lines'') [f]) = 2"
  unfolding Let_def
proof -
  let ?f = "\<lparr>lf_key = ''peer'', lf_value = ''a='' @ [quote_char, backslash_char]\<rparr>"
  have "\<forall>f\<in>set [?f]. CHR ''='' \<notin> set (lf_key f)" by simp
  from log_record_format [OF this, of LL_Warn "''two'' @ [newline_char] @ ''lines''" "[]" logging_init]
  show "newlines (log_text LL_Warn (''two'' @ [newline_char] @ ''lines'') [?f]) = 2"
    by (simp add: newline_char_def quote_char_def backslash_char_def Let_def numeral_2_eq_2)
qed

end
