(* ===== verification/Logging_Threads.thy ===== *)
theory Logging_Threads
  imports Logging
begin

text \<open>
  \<^verbatim>\<open>logging::log\<close> called from any number of threads. One step of a thread is the load of the level, taking or
  releasing the mutex of the sink, or one call of the C library that writes to the sink (each is atomic by itself).
  \<open>begun\<close> records the calls in the order they took the mutex; no operation reads it.
\<close>

section \<open>The writes of one record\<close>

fun escaped_calls :: "string \<Rightarrow> string list" where
  "escaped_calls [] = []"
| "escaped_calls (ch # s) =
     (if ch = quote_char \<or> ch = backslash_char then [[backslash_char]] else []) @ [[ch]] @ escaped_calls s"

definition kv_calls :: "LogField \<Rightarrow> string list" where
  "kv_calls field = ['' '', lf_key field, ''=''] @
     (if needs_quotes (lf_value field) then [[quote_char]] @ escaped_calls (lf_value field) @ [[quote_char]]
      else [lf_value field])"

definition log_calls :: "LogLevel \<Rightarrow> string \<Rightarrow> LogField list \<Rightarrow> string list" where
  "log_calls level message flds =
     [''level='', level_name level, '' msg='' @ [quote_char]] @ escaped_calls message @ [[quote_char]] @
     concat (map kv_calls (filter (\<lambda>f. lf_key f \<noteq> []) flds)) @ [[newline_char]]"

lemma concat_escaped_calls [simp]: "concat (escaped_calls s) = write_escaped s"
  by (induction s) simp_all

lemma concat_kv_calls [simp]: "concat (kv_calls f) = write_kv f"
  by (simp add: kv_calls_def write_kv_def)

lemma concat_concat_kv [simp]: "concat (concat (map kv_calls fs)) = concat (map write_kv fs)"
  by (induction fs) simp_all

lemma concat_log_calls: "concat (log_calls level message flds) = log_text level message flds"
  by (simp add: log_calls_def log_text_def)

section \<open>Threads\<close>

datatype log_pc =
    L_Out
  | L_Check LogLevel string "LogField list"
  | L_Lock LogLevel string "LogField list"
  | L_Write "string list"

record log_threads =
  shared :: log_state
  sink_mutex :: "nat option"
  log_at :: "nat \<Rightarrow> log_pc"
  begun :: "(LogLevel \<times> string \<times> LogField list) list"

definition log_threads_init :: log_threads where
  "log_threads_init = \<lparr>shared = logging_init, sink_mutex = None, log_at = (\<lambda>_. L_Out), begun = []\<rparr>"

datatype logger_act = Log_call LogLevel string "LogField list" | Log_configure LoggingConfig | Log_step

definition log_goto :: "nat \<Rightarrow> log_pc \<Rightarrow> log_threads \<Rightarrow> log_threads" where
  "log_goto t c s = s\<lparr>log_at := (log_at s)(t := c)\<rparr>"

fun log_move :: "nat \<Rightarrow> log_pc \<Rightarrow> log_threads \<Rightarrow> log_threads option" where
  "log_move t L_Out s = None"
| "log_move t (L_Check level message flds) s =
     Some (log_goto t (if logging_enabled level (shared s) then L_Lock level message flds else L_Out) s)"
| "log_move t (L_Lock level message flds) s =
     (if sink_mutex s = None
      then Some (log_goto t (L_Write (log_calls level message flds))
                  (s\<lparr>sink_mutex := Some t, begun := begun s @ [(level, message, flds)]\<rparr>))
      else None)"
| "log_move t (L_Write (w # ws)) s =
     Some (log_goto t (L_Write ws) (s\<lparr>shared := (shared s)\<lparr>sink := sink (shared s) @ w\<rparr>\<rparr>))"
| "log_move t (L_Write []) s = Some (log_goto t L_Out (s\<lparr>sink_mutex := None\<rparr>))"

fun log_act :: "nat \<Rightarrow> logger_act \<Rightarrow> log_threads \<Rightarrow> log_threads option" where
  "log_act t (Log_call level message flds) s =
     (if log_at s t = L_Out then Some (log_goto t (L_Check level message flds) s) else None)"
| "log_act t (Log_configure cfg) s =
     (if log_at s t = L_Out then Some (s\<lparr>shared := logging_configure cfg (shared s)\<rparr>) else None)"
| "log_act t Log_step s = log_move t (log_at s t) s"

fun log_schedule :: "(nat \<times> logger_act) list \<Rightarrow> log_threads \<Rightarrow> log_threads option" where
  "log_schedule [] s = Some s"
| "log_schedule ((t, a) # sched) s =
     (case log_act t a s of None \<Rightarrow> None | Some s' \<Rightarrow> log_schedule sched s')"

section \<open>The invariant\<close>

fun writing :: "log_pc \<Rightarrow> bool" where
  "writing (L_Write ws) = True"
| "writing _ = False"

fun remaining :: "log_pc \<Rightarrow> string list" where
  "remaining (L_Write ws) = ws"
| "remaining _ = []"

definition text_of :: "LogLevel \<times> string \<times> LogField list \<Rightarrow> string" where
  "text_of = (\<lambda>(level, message, flds). log_text level message flds)"

text \<open>Everything begun is in the sink or still to be written by the holder of the mutex, whose remaining writes
  are the end of the last record.\<close>

definition lines_inv :: "log_threads \<Rightarrow> bool" where
  "lines_inv s \<longleftrightarrow> (\<forall>t. writing (log_at s t) \<longleftrightarrow> sink_mutex s = Some t) \<and>
     (case sink_mutex s of
        None \<Rightarrow> sink (shared s) = concat (map text_of (begun s))
      | Some t \<Rightarrow> begun s \<noteq> [] \<and> sink (shared s) @ concat (remaining (log_at s t)) = concat (map text_of (begun s)) \<and>
          length (concat (remaining (log_at s t))) \<le> length (text_of (last (begun s))))"

lemma lines_inv_init: "lines_inv log_threads_init"
  by (simp add: lines_inv_def log_threads_init_def logging_init_def)

lemma lines_inv_goto:
  assumes "lines_inv s" "\<not> writing (log_at s t)" "\<not> writing c"
  shows "lines_inv (log_goto t c s)"
proof (cases "sink_mutex s")
  case (Some u)
  with assms have "u \<noteq> t" by (auto simp: lines_inv_def)
  with Some assms show ?thesis by (auto simp: lines_inv_def log_goto_def)
qed (use assms in \<open>auto simp: lines_inv_def log_goto_def\<close>)

lemma lines_inv_move:
  assumes "log_move t (log_at s t) s = Some s'" "lines_inv s"
  shows "lines_inv s'"
proof (cases "log_at s t")
  case (L_Check level message flds)
  with assms(1) have "s' = log_goto t (if logging_enabled level (shared s) then L_Lock level message flds else L_Out) s"
    by simp
  with L_Check lines_inv_goto [OF assms(2)] show ?thesis by simp
next
  case (L_Lock level message flds)
  with assms show ?thesis
    by (auto simp: lines_inv_def log_goto_def text_of_def concat_log_calls split: if_splits)
next
  case (L_Write ws)
  with assms(2) have "sink_mutex s = Some t" by (simp add: lines_inv_def) (metis writing.simps(1))
  with L_Write assms show ?thesis by (cases ws) (auto simp: lines_inv_def log_goto_def split: if_splits)
qed (use assms in simp)

lemma lines_inv_act:
  assumes "log_act t a s = Some s'" "lines_inv s"
  shows "lines_inv s'"
proof (cases a)
  case (Log_call level message flds)
  with assms lines_inv_goto [of s t "L_Check level message flds"] show ?thesis by (auto split: if_splits)
next
  case (Log_configure cfg)
  with assms show ?thesis by (auto simp: lines_inv_def logging_configure_def split: if_splits option.splits)
next
  case Log_step
  with assms lines_inv_move show ?thesis by simp
qed

lemma lines_inv_schedule: "log_schedule sched s = Some s' \<Longrightarrow> lines_inv s \<Longrightarrow> lines_inv s'"
  by (induction sched s rule: log_schedule.induct) (auto split: option.splits intro: lines_inv_act)

text \<open>With the level never changed, only records at the initial level or above are begun.\<close>

fun admitted :: "log_pc \<Rightarrow> bool" where
  "admitted (L_Lock level message flds) = (LL_Info \<le> level)"
| "admitted _ = True"

definition level_inv :: "log_threads \<Rightarrow> bool" where
  "level_inv s \<longleftrightarrow> threshold (shared s) = LL_Info \<and> (\<forall>(level, message, flds)\<in>set (begun s). LL_Info \<le> level) \<and>
     (\<forall>t. admitted (log_at s t))"

lemma level_inv_move:
  assumes "log_move t (log_at s t) s = Some s'" "level_inv s"
  shows "level_inv s'"
proof (cases "log_at s t")
  case (L_Lock level message flds)
  with assms(2) have "LL_Info \<le> level" by (simp add: level_inv_def) (metis admitted.simps(1))
  with L_Lock assms show ?thesis by (auto simp: level_inv_def log_goto_def split: if_splits)
next
  case (L_Write ws)
  with assms show ?thesis by (cases ws) (auto simp: level_inv_def log_goto_def)
qed (use assms in \<open>auto simp: level_inv_def log_goto_def logging_enabled_def less_eq_LogLevel_def\<close>)

lemma level_inv_schedule:
  "log_schedule sched s = Some s' \<Longrightarrow> \<forall>t cfg. (t, Log_configure cfg) \<notin> set sched \<Longrightarrow> level_inv s \<Longrightarrow> level_inv s'"
proof (induction sched s rule: log_schedule.induct)
  case (2 t a sched s)
  from "2.prems"(1) obtain s1 where s1: "log_act t a s = Some s1" "log_schedule sched s1 = Some s'"
    by (auto split: option.splits)
  have "level_inv s1"
    using s1(1) "2.prems"(2,3) level_inv_move [of t s s1]
    by (cases a) (auto simp: level_inv_def log_goto_def split: if_splits)
  with "2.IH" [OF s1] "2.prems"(2) show ?case by simp
qed simp

section \<open>Property\<close>

text \<open>C27: Log lines are kept intact. In every interleaving of any number of threads calling \<^verbatim>\<open>log\<close> and \<^verbatim>\<open>configure\<close>,
  although a record is written by many separate calls, the sink is at every moment the complete texts of some
  records, in the order in which their calls took the mutex, followed by nothing or by a beginning of the text of
  the one record whose writer holds the mutex, which has exactly the rest of it still to write. Two threads are never
  writing, and while the level is not changed no record below the default level Info is ever begun.\<close>

theorem log_lines_intact:
  assumes "log_schedule sched log_threads_init = Some s"
  shows "(case sink_mutex s of
       None \<Rightarrow> sink (shared s) = concat (map text_of (begun s))
     | Some t \<Rightarrow> \<exists>finished current part. begun s = finished @ [current] \<and>
         sink (shared s) = concat (map text_of finished) @ part \<and>
         part @ concat (remaining (log_at s t)) = text_of current) \<and>
    (\<forall>t u. writing (log_at s t) \<and> writing (log_at s u) \<longrightarrow> t = u) \<and>
    ((\<forall>t cfg. (t, Log_configure cfg) \<notin> set sched) \<longrightarrow> (\<forall>(level, message, flds)\<in>set (begun s). LL_Info \<le> level))"
proof -
  have inv: "lines_inv s" by (rule lines_inv_schedule [OF assms lines_inv_init])
  have "\<exists>finished current part. begun s = finished @ [current] \<and>
         sink (shared s) = concat (map text_of finished) @ part \<and>
         part @ concat (remaining (log_at s t)) = text_of current" if t: "sink_mutex s = Some t" for t
  proof -
    let ?rest = "concat (remaining (log_at s t))"
    from inv t have i: "begun s \<noteq> []" "sink (shared s) @ ?rest = concat (map text_of (begun s))"
      "length ?rest \<le> length (text_of (last (begun s)))" by (simp_all add: lines_inv_def)
    then obtain finished current where b: "begun s = finished @ [current]" by (metis append_butlast_last_id)
    with i have "sink (shared s) @ ?rest = concat (map text_of finished) @ text_of current"
      "length ?rest \<le> length (text_of current)" by simp_all
    then obtain part where "sink (shared s) = concat (map text_of finished) @ part" "part @ ?rest = text_of current"
      by (auto simp: append_eq_append_conv2)
    with b show ?thesis by blast
  qed
  moreover have "sink_mutex s = None \<Longrightarrow> sink (shared s) = concat (map text_of (begun s))"
    using inv by (simp add: lines_inv_def)
  moreover have "t = u" if "writing (log_at s t)" "writing (log_at s u)" for t u
    using inv that by (auto simp: lines_inv_def)
  moreover have "level_inv log_threads_init"
    by (simp add: level_inv_def log_threads_init_def logging_init_def)
  then have "\<forall>(level, message, flds)\<in>set (begun s). LL_Info \<le> level" if "\<forall>t cfg. (t, Log_configure cfg) \<notin> set sched"
    using level_inv_schedule [OF assms that] by (simp add: level_inv_def)
  ultimately show ?thesis by (cases "sink_mutex s") auto
qed

text \<open>Two threads log at once; the second has to wait while the first is writing.\<close>

definition demo_logging :: "(nat \<times> logger_act) list" where
  "demo_logging = [(0, Log_call LL_Info ''a'' []), (1, Log_call LL_Error ''b'' []), (0, Log_step), (1, Log_step),
     (1, Log_step), (1, Log_step), (1, Log_step)]"

lemma demo_logging_run:
  "\<exists>s. log_schedule demo_logging log_threads_init = Some s \<and> sink_mutex s = Some 1 \<and> sink (shared s) = ''level=error''"
  by (simp add: demo_logging_def log_threads_init_def log_goto_def logging_init_def logging_enabled_def log_calls_def)

theorem log_lines_intact_witness:
  "\<exists>s finished. log_schedule demo_logging log_threads_init = Some s \<and> sink (shared s) = ''level=error'' \<and>
     (\<exists>current part. begun s = finished @ [current] \<and> ''level=error'' = concat (map text_of finished) @ part)"
proof -
  obtain s where s: "log_schedule demo_logging log_threads_init = Some s" "sink_mutex s = Some 1"
    "sink (shared s) = ''level=error''"
    using demo_logging_run by blast
  from conjunct1 [OF log_lines_intact [OF s(1)]] s show ?thesis by auto
qed

end
