(* ===== verification/Metrics.thy ===== *)
theory Metrics
  imports Config
begin

text \<open>
  \<^verbatim>\<open>metrics.hpp\<close> and \<^verbatim>\<open>metrics.cpp\<close>: counters and gauges by name, kept only while metrics are enabled. Here
  the calls come one after another; \<open>Metrics_Threads\<close> has them from several threads. A
  gauge's \<^verbatim>\<open>std::int64_t\<close> is a 64-bit word.
\<close>

record metrics =
  enabled_flag :: bool
  counters :: "string \<rightharpoonup> u64"
  gauges :: "string \<rightharpoonup> i64"

definition metrics_init :: metrics where
  "metrics_init = \<lparr>enabled_flag = False, counters = Map.empty, gauges = Map.empty\<rparr>"

definition metrics_configure :: "MetricsConfig \<Rightarrow> metrics \<Rightarrow> metrics" where
  "metrics_configure cfg m = m\<lparr>enabled_flag := metrics_enabled cfg\<rparr>"

text \<open>\<^verbatim>\<open>counters[name] += delta\<close> first inserts a zero when there is no entry.\<close>

definition counter_add :: "string \<Rightarrow> u64 \<Rightarrow> metrics \<Rightarrow> metrics" where
  "counter_add name delta m =
     (if \<not> enabled_flag m then m
      else m\<lparr>counters := (counters m)(name \<mapsto> (case counters m name of None \<Rightarrow> 0 | Some c \<Rightarrow> c) + delta)\<rparr>)"

definition gauge_set :: "string \<Rightarrow> i64 \<Rightarrow> metrics \<Rightarrow> metrics" where
  "gauge_set name val m =
     (if \<not> enabled_flag m then m else m\<lparr>gauges := (gauges m)(name \<mapsto> val)\<rparr>)"

definition counter_get :: "string \<Rightarrow> metrics \<Rightarrow> u64" where
  "counter_get name m = (case counters m name of None \<Rightarrow> 0 | Some c \<Rightarrow> c)"

definition gauge_get :: "string \<Rightarrow> metrics \<Rightarrow> i64" where
  "gauge_get name m = (case gauges m name of None \<Rightarrow> 0 | Some g \<Rightarrow> g)"

datatype metric_call = Configure MetricsConfig | Counter_add string u64 | Gauge_set string i64

fun metric_step :: "metric_call \<Rightarrow> metrics \<Rightarrow> metrics" where
  "metric_step (Configure cfg) m = metrics_configure cfg m"
| "metric_step (Counter_add n d) m = counter_add n d m"
| "metric_step (Gauge_set n v) m = gauge_set n v m"

definition metric_run :: "metric_call list \<Rightarrow> metrics \<Rightarrow> metrics" where
  "metric_run calls m = fold metric_step calls m"

section \<open>The abstract meaning\<close>

text \<open>The calls that happen while metrics are enabled.\<close>

fun effective :: "bool \<Rightarrow> metric_call list \<Rightarrow> metric_call list" where
  "effective on [] = []"
| "effective on (Configure cfg # cs) = effective (metrics_enabled cfg) cs"
| "effective on (c # cs) = (if on then c # effective on cs else effective on cs)"

definition is_configure :: "metric_call \<Rightarrow> bool" where
  "is_configure c = (case c of Configure _ \<Rightarrow> True | _ \<Rightarrow> False)"

definition deltas :: "string \<Rightarrow> metric_call list \<Rightarrow> u64 list" where
  "deltas n cs = concat (map (\<lambda>c. case c of Counter_add m d \<Rightarrow> if m = n then [d] else [] | _ \<Rightarrow> []) cs)"

definition settings_of :: "string \<Rightarrow> metric_call list \<Rightarrow> i64 list" where
  "settings_of n cs = concat (map (\<lambda>c. case c of Gauge_set m v \<Rightarrow> if m = n then [v] else [] | _ \<Rightarrow> []) cs)"

lemma counter_run:
  "counter_get n (metric_run cs m) = counter_get n m + sum_list (deltas n (effective (enabled_flag m) cs))"
proof (induction cs arbitrary: m)
  case Nil
  then show ?case by (simp add: metric_run_def deltas_def)
next
  case (Cons c cs)
  then show ?case
    by (cases c)
      (auto simp: metric_run_def deltas_def metrics_configure_def counter_add_def gauge_set_def counter_get_def)
qed

lemma gauge_run:
  "gauge_get n (metric_run cs m) = last (gauge_get n m # settings_of n (effective (enabled_flag m) cs))"
proof (induction cs arbitrary: m)
  case Nil
  then show ?case by (simp add: metric_run_def settings_of_def)
next
  case (Cons c cs)
  then show ?case
    by (cases c)
      (auto simp: metric_run_def settings_of_def metrics_configure_def counter_add_def gauge_set_def gauge_get_def)
qed

section \<open>Properties\<close>

text \<open>Metrics mean sums and last values. After any sequence of calls, a counter is the sum, modulo 2 to
  the 64, of the amounts added to it while metrics were enabled, and a gauge is the last value set while
  they were enabled, or zero; calls made while disabled have no effect at all.\<close>

lemma metrics_meaning:
  "counter_get n (metric_run calls metrics_init) = sum_list (deltas n (effective False calls)) \<and>
   gauge_get n (metric_run calls metrics_init) = last (0 # settings_of n (effective False calls)) \<and>
   metric_run calls (m\<lparr>enabled_flag := False\<rparr>) = metric_run (dropWhile (\<lambda>c. \<not> is_configure c) calls) (m\<lparr>enabled_flag := False\<rparr>)"
proof -
  have "metric_run calls (m\<lparr>enabled_flag := False\<rparr>) =
      metric_run (dropWhile (\<lambda>c. \<not> is_configure c) calls) (m\<lparr>enabled_flag := False\<rparr>)"
  proof (induction calls)
    case (Cons c cs)
    then show ?case
      by (cases c) (simp_all add: metric_run_def metrics_configure_def counter_add_def gauge_set_def is_configure_def)
  qed simp
  then show ?thesis
    using counter_run [of n calls metrics_init] gauge_run [of n calls metrics_init]
    by (simp add: metrics_init_def counter_get_def gauge_get_def)
qed

end
