(* ===== verification/Metrics_Threads.thy ===== *)
theory Metrics_Threads
  imports Metrics
begin

text \<open>
  The calls of \<^verbatim>\<open>metrics.cpp\<close> from any number of threads. One step is the load of the enabled flag, taking the mutex,
  or a critical section with the release of the mutex; \<^verbatim>\<open>configure\<close> is one store, which may fall between an
  update's load of the flag and its critical section. \<open>history\<close> records what happened; no operation reads it.
\<close>

section \<open>Calls\<close>

datatype metric_op =
    Op_counter_add string u64 | Op_gauge_set string i64 | Op_counter_get string | Op_gauge_get string

definition counter_increment :: "string \<Rightarrow> metric_op" where
  "counter_increment name = Op_counter_add name 1"

datatype metric_pc = M_Out | M_Check metric_op | M_Lock metric_op | M_Body metric_op

datatype metric_event =
    Ev_configured bool
  | Ev_admitted nat metric_op
  | Ev_added nat string u64 | Ev_set nat string i64
  | Ev_counter string u64 | Ev_gauge string i64

record metric_threads =
  table :: metrics
  table_mutex :: "nat option"
  metric_at :: "nat \<Rightarrow> metric_pc"
  history :: "metric_event list"

definition metric_threads_init :: metric_threads where
  "metric_threads_init = \<lparr>table = metrics_init, table_mutex = None, metric_at = (\<lambda>_. M_Out), history = []\<rparr>"

text \<open>Updates look at the flag first; the reading helpers do not.\<close>

fun metric_entry :: "metric_op \<Rightarrow> metric_pc" where
  "metric_entry (Op_counter_add n d) = M_Check (Op_counter_add n d)"
| "metric_entry (Op_gauge_set n v) = M_Check (Op_gauge_set n v)"
| "metric_entry (Op_counter_get n) = M_Lock (Op_counter_get n)"
| "metric_entry (Op_gauge_get n) = M_Lock (Op_gauge_get n)"

text \<open>The critical section; an update does not look at the flag again.\<close>

fun metric_body :: "nat \<Rightarrow> metric_op \<Rightarrow> metrics \<Rightarrow> metrics \<times> metric_event" where
  "metric_body t (Op_counter_add n d) m =
     (m\<lparr>counters := (counters m)(n \<mapsto> (case counters m n of None \<Rightarrow> 0 | Some c \<Rightarrow> c) + d)\<rparr>, Ev_added t n d)"
| "metric_body t (Op_gauge_set n v) m = (m\<lparr>gauges := (gauges m)(n \<mapsto> v)\<rparr>, Ev_set t n v)"
| "metric_body t (Op_counter_get n) m = (m, Ev_counter n (counter_get n m))"
| "metric_body t (Op_gauge_get n) m = (m, Ev_gauge n (gauge_get n m))"

definition metric_goto :: "nat \<Rightarrow> metric_pc \<Rightarrow> metric_event list \<Rightarrow> metric_threads \<Rightarrow> metric_threads" where
  "metric_goto t c evs s = s\<lparr>metric_at := (metric_at s)(t := c), history := history s @ evs\<rparr>"

fun metric_move :: "nat \<Rightarrow> metric_pc \<Rightarrow> metric_threads \<Rightarrow> metric_threads option" where
  "metric_move t M_Out s = None"
| "metric_move t (M_Check c) s =
     Some (if enabled_flag (table s) then metric_goto t (M_Lock c) [Ev_admitted t c] s else metric_goto t M_Out [] s)"
| "metric_move t (M_Lock c) s =
     (if table_mutex s = None then Some (metric_goto t (M_Body c) [] (s\<lparr>table_mutex := Some t\<rparr>)) else None)"
| "metric_move t (M_Body c) s =
     (case metric_body t c (table s) of (m, ev) \<Rightarrow>
        Some (metric_goto t M_Out [ev] (s\<lparr>table := m, table_mutex := None\<rparr>)))"

datatype metric_choice = M_Call metric_op | M_Configure MetricsConfig | M_Step

fun metric_act :: "nat \<Rightarrow> metric_choice \<Rightarrow> metric_threads \<Rightarrow> metric_threads option" where
  "metric_act t (M_Call c) s = (if metric_at s t = M_Out then Some (metric_goto t (metric_entry c) [] s) else None)"
| "metric_act t (M_Configure cfg) s =
     (if metric_at s t = M_Out
      then Some (metric_goto t M_Out [Ev_configured (metrics_enabled cfg)]
                  (s\<lparr>table := metrics_configure cfg (table s)\<rparr>))
      else None)"
| "metric_act t M_Step s = metric_move t (metric_at s t) s"

fun metric_schedule :: "(nat \<times> metric_choice) list \<Rightarrow> metric_threads \<Rightarrow> metric_threads option" where
  "metric_schedule [] s = Some s"
| "metric_schedule ((t, a) # sched) s =
     (case metric_act t a s of None \<Rightarrow> None | Some s' \<Rightarrow> metric_schedule sched s')"

section \<open>What a history means\<close>

definition added :: "string \<Rightarrow> metric_event list \<Rightarrow> u64 list" where
  "added n evs = concat (map (\<lambda>e. case e of Ev_added t m d \<Rightarrow> if m = n then [d] else [] | _ \<Rightarrow> []) evs)"

definition assigned :: "string \<Rightarrow> metric_event list \<Rightarrow> i64 list" where
  "assigned n evs = concat (map (\<lambda>e. case e of Ev_set t m v \<Rightarrow> if m = n then [v] else [] | _ \<Rightarrow> []) evs)"

definition flag_after :: "metric_event list \<Rightarrow> bool" where
  "flag_after evs = fold (\<lambda>e b. case e of Ev_configured on \<Rightarrow> on | _ \<Rightarrow> b) evs False"

text \<open>The update a thread has been admitted to and not yet made.\<close>

definition pending :: "nat \<Rightarrow> metric_event list \<Rightarrow> metric_op option" where
  "pending t evs = fold (\<lambda>e p. case e of
     Ev_admitted u c \<Rightarrow> if u = t then Some c else p
   | Ev_added u n d \<Rightarrow> if u = t then None else p
   | Ev_set u n v \<Rightarrow> if u = t then None else p
   | _ \<Rightarrow> p) evs None"

text \<open>When an event may follow a history.\<close>

fun follows :: "metric_event list \<Rightarrow> metric_event \<Rightarrow> bool" where
  "follows pre (Ev_configured b) = True"
| "follows pre (Ev_admitted t c) = flag_after pre"
| "follows pre (Ev_added t n d) = (pending t pre = Some (Op_counter_add n d))"
| "follows pre (Ev_set t n v) = (pending t pre = Some (Op_gauge_set n v))"
| "follows pre (Ev_counter n x) = (x = sum_list (added n pre))"
| "follows pre (Ev_gauge n x) = (x = last (0 # assigned n pre))"

definition consistent :: "metric_event list \<Rightarrow> bool" where
  "consistent evs \<longleftrightarrow> (\<forall>i<length evs. follows (take i evs) (evs ! i))"

lemma consistent_snoc [simp]: "consistent (evs @ [e]) \<longleftrightarrow> consistent evs \<and> follows evs e"
  by (auto simp: consistent_def nth_append less_Suc_eq)

lemma history_snoc [simp]:
  "added n (evs @ [e]) = added n evs @ (case e of Ev_added t m d \<Rightarrow> if m = n then [d] else [] | _ \<Rightarrow> [])"
  "assigned n (evs @ [e]) = assigned n evs @ (case e of Ev_set t m v \<Rightarrow> if m = n then [v] else [] | _ \<Rightarrow> [])"
  "flag_after (evs @ [e]) = (case e of Ev_configured on \<Rightarrow> on | _ \<Rightarrow> flag_after evs)"
  "pending t (evs @ [e]) = (case e of
     Ev_admitted u c \<Rightarrow> if u = t then Some c else pending t evs
   | Ev_added u n d \<Rightarrow> if u = t then None else pending t evs
   | Ev_set u n v \<Rightarrow> if u = t then None else pending t evs
   | _ \<Rightarrow> pending t evs)"
  by (simp_all add: added_def assigned_def flag_after_def pending_def split: metric_event.split)

section \<open>The invariant\<close>

fun is_update :: "metric_op \<Rightarrow> bool" where
  "is_update (Op_counter_add n d) = True" | "is_update (Op_gauge_set n v) = True" | "is_update _ = False"

text \<open>What a position says about the mutex and the history.\<close>

fun metric_pos_ok :: "nat \<Rightarrow> nat option \<Rightarrow> metric_event list \<Rightarrow> metric_pc \<Rightarrow> bool" where
  "metric_pos_ok t lock evs M_Out \<longleftrightarrow> lock \<noteq> Some t"
| "metric_pos_ok t lock evs (M_Check c) \<longleftrightarrow> lock \<noteq> Some t \<and> is_update c"
| "metric_pos_ok t lock evs (M_Lock c) \<longleftrightarrow> lock \<noteq> Some t \<and> (is_update c \<longrightarrow> pending t evs = Some c)"
| "metric_pos_ok t lock evs (M_Body c) \<longleftrightarrow> lock = Some t \<and> (is_update c \<longrightarrow> pending t evs = Some c)"

definition metrics_inv :: "metric_threads \<Rightarrow> bool" where
  "metrics_inv s \<longleftrightarrow> consistent (history s) \<and> enabled_flag (table s) = flag_after (history s) \<and>
     (\<forall>n. counter_get n (table s) = sum_list (added n (history s))) \<and>
     (\<forall>n. gauge_get n (table s) = last (0 # assigned n (history s))) \<and>
     (\<forall>t. metric_pos_ok t (table_mutex s) (history s) (metric_at s t))"

lemma metrics_inv_init: "metrics_inv metric_threads_init"
  by (simp add: metrics_inv_def metric_threads_init_def metrics_init_def consistent_def flag_after_def added_def
      assigned_def counter_get_def gauge_get_def)

lemma pos_ok_other:
  assumes "metric_pos_ok u lock evs c" "u \<noteq> t" "lock' = lock \<or> lock = None \<and> lock' = Some t \<or> lock = Some t \<and> lock' = None"
    and "pending u evs' = pending u evs"
  shows "metric_pos_ok u lock' evs' c"
  using assms by (cases c) auto

text \<open>A move of one thread keeps what the others rely on.\<close>

lemma metrics_inv_goto:
  assumes "metrics_inv s" "consistent (history s @ evs)" "enabled_flag m = flag_after (history s @ evs)"
    and "\<forall>n. counter_get n m = sum_list (added n (history s @ evs))"
    and "\<forall>n. gauge_get n m = last (0 # assigned n (history s @ evs))"
    and "\<forall>u. u \<noteq> t \<longrightarrow> pending u (history s @ evs) = pending u (history s)"
    and "lock = table_mutex s \<or> table_mutex s = None \<and> lock = Some t \<or> table_mutex s = Some t \<and> lock = None"
    and "metric_pos_ok t lock (history s @ evs) c"
  shows "metrics_inv (metric_goto t c evs (s\<lparr>table := m, table_mutex := lock\<rparr>))"
proof -
  have "metric_pos_ok u lock (history s @ evs) (metric_at s u)" if "u \<noteq> t" for u
  proof -
    have "metric_pos_ok u (table_mutex s) (history s) (metric_at s u)" using assms(1) by (simp add: metrics_inv_def)
    moreover have "pending u (history s @ evs) = pending u (history s)" using assms(6) that by blast
    ultimately show ?thesis by (rule pos_ok_other [OF _ that assms(7)])
  qed
  with assms(2-5,8) show ?thesis by (simp add: metrics_inv_def metric_goto_def)
qed

lemma metrics_inv_move:
  assumes "metric_move t (metric_at s t) s = Some s'" "metrics_inv s"
  shows "metrics_inv s'"
proof -
  have same: "s\<lparr>table := table s, table_mutex := table_mutex s\<rparr> = s" "s\<lparr>table_mutex := l\<rparr> = s\<lparr>table := table s, table_mutex := l\<rparr>"
    for l by simp_all
  have pos: "metric_pos_ok t (table_mutex s) (history s) (metric_at s t)" using assms(2) by (simp add: metrics_inv_def)
  note inv = assms(2) [unfolded metrics_inv_def]
  show ?thesis
  proof (cases "metric_at s t")
    case (M_Check c)
    show ?thesis
    proof (cases "enabled_flag (table s)")
      case True
      with assms(1) M_Check have "s' = metric_goto t (M_Lock c) [Ev_admitted t c] (s\<lparr>table := table s, table_mutex := table_mutex s\<rparr>)"
        by simp
      then show ?thesis
        by (simp only:, intro metrics_inv_goto [OF assms(2)]) (use inv True pos M_Check in auto)
    next
      case False
      with assms(1) M_Check have "s' = metric_goto t M_Out [] (s\<lparr>table := table s, table_mutex := table_mutex s\<rparr>)" by simp
      then show ?thesis
        by (simp only:, intro metrics_inv_goto [OF assms(2)]) (use inv pos M_Check in auto)
    qed
  next
    case (M_Lock c)
    with assms(1) have "s' = metric_goto t (M_Body c) [] (s\<lparr>table := table s, table_mutex := Some t\<rparr>)" "table_mutex s = None"
      by (simp_all split: if_splits)
    then show ?thesis
      by (simp only:, intro metrics_inv_goto [OF assms(2)]) (use inv pos M_Lock in auto)
  next
    case (M_Body c)
    obtain m ev where b: "metric_body t c (table s) = (m, ev)" by (cases "metric_body t c (table s)")
    with assms(1) M_Body have "s' = metric_goto t M_Out [ev] (s\<lparr>table := m, table_mutex := None\<rparr>)" by simp
    then show ?thesis
      by (simp only:, intro metrics_inv_goto [OF assms(2)])
        (use inv pos M_Body b in \<open>cases c; auto simp: counter_get_def gauge_get_def\<close>)+
  qed (use assms in simp)
qed

lemma metrics_inv_act:
  assumes "metric_act t a s = Some s'" "metrics_inv s"
  shows "metrics_inv s'"
proof -
  have same: "s\<lparr>table := m\<rparr> = s\<lparr>table := m, table_mutex := table_mutex s\<rparr>" for m by simp
  have pos: "metric_pos_ok t (table_mutex s) (history s) (metric_at s t)" using assms(2) by (simp add: metrics_inv_def)
  note inv = assms(2) [unfolded metrics_inv_def]
  show ?thesis
  proof (cases a)
    case (M_Call c)
    with assms(1) have "s' = metric_goto t (metric_entry c) [] (s\<lparr>table := table s, table_mutex := table_mutex s\<rparr>)"
      "metric_at s t = M_Out" by (auto split: if_splits)
    then show ?thesis
      by (simp only:, intro metrics_inv_goto [OF assms(2)]) (use inv pos in \<open>cases c; auto\<close>)+
  next
    case (M_Configure cfg)
    with assms(1) have "s' = metric_goto t M_Out [Ev_configured (metrics_enabled cfg)]
        (s\<lparr>table := metrics_configure cfg (table s), table_mutex := table_mutex s\<rparr>)" "metric_at s t = M_Out"
      by (auto split: if_splits)
    then show ?thesis
      by (simp only:, intro metrics_inv_goto [OF assms(2)])
        (use inv pos in \<open>auto simp: metrics_configure_def counter_get_def gauge_get_def\<close>)
  next
    case M_Step
    with assms metrics_inv_move show ?thesis by simp
  qed
qed

lemma metrics_inv_schedule: "metric_schedule sched s = Some s' \<Longrightarrow> metrics_inv s \<Longrightarrow> metrics_inv s'"
  by (induction sched s rule: metric_schedule.induct) (auto split: option.splits intro: metrics_inv_act)

text \<open>With the flag set, a critical section is the call of the sequential model.\<close>

lemma metric_body_sequential:
  "enabled_flag m \<Longrightarrow> fst (metric_body t (Op_counter_add n d) m) = counter_add n d m"
  "enabled_flag m \<Longrightarrow> fst (metric_body t (Op_gauge_set n v) m) = gauge_set n v m"
  by (simp_all add: counter_add_def gauge_set_def)

section \<open>Properties\<close>

text \<open>Thread 1 is admitted to an increment; thread 2 then disables metrics; thread 1 still increments, and thread 3
  reads the counter.\<close>

definition demo_late_update :: "(nat \<times> metric_choice) list" where
  "demo_late_update =
     [(2, M_Configure \<lparr>metrics_enabled = True\<rparr>), (1, M_Call (counter_increment ''n'')), (1, M_Step),
      (2, M_Configure \<lparr>metrics_enabled = False\<rparr>), (1, M_Step), (1, M_Step),
      (3, M_Call (Op_counter_get ''n'')), (3, M_Step), (3, M_Step)]"

text \<open>C26: Metrics are consistent under threads. Whatever the schedule of calls from any threads, an update is
  admitted only when the last configuration enabled metrics and is made once per admission, every read returns the
  sum modulo 2 to the 64 of the amounts added before it, or the value last set before it, the tables hold the same
  totals, and two threads are never in a critical section together. An update admitted before metrics are disabled
  may be made after it.\<close>

theorem metrics_threads_consistent:
  assumes "metric_schedule sched metric_threads_init = Some s"
  shows "(\<forall>i<length (history s). follows (take i (history s)) (history s ! i)) \<and>
    counter_get n (table s) = sum_list (added n (history s)) \<and>
    gauge_get n (table s) = last (0 # assigned n (history s)) \<and>
    (metric_at s t = M_Body c \<longrightarrow> metric_at s u = M_Body d \<longrightarrow> t = u)"
proof -
  have inv: "metrics_inv s" using metrics_inv_schedule [OF assms metrics_inv_init] .
  then have "metric_pos_ok v (table_mutex s) (history s) (metric_at s v)" for v by (simp add: metrics_inv_def)
  from this [of t] this [of u]
  have "metric_at s t = M_Body c \<longrightarrow> metric_at s u = M_Body d \<longrightarrow> t = u" by auto
  with inv show ?thesis by (simp add: metrics_inv_def consistent_def)
qed

theorem metrics_threads_consistent_witness:
  "\<exists>s. metric_schedule demo_late_update metric_threads_init = Some s \<and>
     history s = [Ev_configured True, Ev_admitted 1 (Op_counter_add ''n'' 1), Ev_configured False,
       Ev_added 1 ''n'' 1, Ev_counter ''n'' 1] \<and>
     follows (take 4 (history s)) (Ev_counter ''n'' 1) \<and> counter_get ''n'' (table s) = 1 \<and>
     \<not> enabled_flag (table s)"
proof -
  obtain s where s: "metric_schedule demo_late_update metric_threads_init = Some s"
    and h: "history s = [Ev_configured True, Ev_admitted 1 (Op_counter_add ''n'' 1), Ev_configured False,
       Ev_added 1 ''n'' 1, Ev_counter ''n'' 1]" and f: "\<not> enabled_flag (table s)"
    by (simp add: demo_late_update_def metric_threads_init_def metrics_init_def metric_goto_def counter_increment_def
        metrics_configure_def counter_get_def)
  have all: "\<forall>i<length (history s). follows (take i (history s)) (history s ! i)"
    and c: "counter_get ''n'' (table s) = sum_list (added ''n'' (history s))"
    using metrics_threads_consistent [OF s, of "''n''"] by blast+
  have "4 < length (history s)" "history s ! 4 = Ev_counter ''n'' 1" using h by simp_all
  with all have "follows (take 4 (history s)) (Ev_counter ''n'' 1)" by metis
  moreover have "counter_get ''n'' (table s) = 1" using c by (simp add: h added_def)
  ultimately show ?thesis using s h f by blast
qed

end
