(* ===== verification/Client_Server.thy ===== *)
theory Client_Server
  imports Server_Echo Echo_Client
begin

text \<open>
  A client and the server together, each run on its own kernel's answers. What TCP promises relates the two: the
  server has received on the connection a beginning of what the client has sent, and the client a beginning of what
  the server has sent. As a client sends its next request only after the reply to the last, this must hold at the
  moment of each of its rounds; a moment in the midst of a turn of the server is the end of the turn in which the
  kernel says there that it would block.
\<close>

section \<open>Requests as seen by the server\<close>

lemma repeated_frames:
  "list_all (fits k_max_payload) fs \<Longrightarrow> fits k_max_payload p \<Longrightarrow> prefix (concat (map frame fs)) (concat (replicate n (frame p))) \<Longrightarrow>
     fs = replicate (length fs) p \<and> length fs \<le> n"
proof (induction fs arbitrary: n)
  case (Cons q fs)
  have "concat (map frame (q # fs)) \<noteq> []" using codec.enc_nonempty [of q] by simp
  with Cons.prems(3) obtain m where n: "n = Suc m" by (cases n) auto
  from Cons.prems(3) n obtain zs where zs: "frame p @ concat (replicate m (frame p)) = frame q @ concat (map frame fs) @ zs"
    by (auto elim!: prefixE)
  have "drain (frame_dec undefined k_max_payload) (frame p @ concat (replicate m (frame p))) =
      drain (frame_dec undefined k_max_payload) (frame q @ concat (map frame fs) @ zs)" using zs by simp
  then have "q = p" using Cons.prems(1,2)
    by (simp add: codec.drain_enc split: prod.splits)
  with zs have "prefix (concat (map frame fs)) (concat (replicate m (frame p)))" by (auto intro: prefixI)
  with Cons.IH Cons.prems n \<open>q = p\<close> show ?case by auto
qed simp

text \<open>At some moment of the server's run it has received on \<open>h\<close> no more than the requests of the first \<open>k\<close> rounds and
  the one after them, and the replies to those rounds and the bytes \<open>got\<close> are among what it has sent.\<close>

definition round_delivers ::
  "target \<Rightarrow> posix \<Rightarrow> Acceptor \<Rightarrow> server \<Rightarrow> NativeSocket \<Rightarrow> byte list \<Rightarrow> nat \<Rightarrow> byte list \<Rightarrow> bool" where
  "round_delivers tgt px a sv0 h p k got \<longleftrightarrow>
     (\<exists>tks sv. serve_ticks tgt px a tks sv0 = Some (Done sv) \<and> fresh_opens (calls sv) {} \<and>
        prefix (received_from sv h) (concat (replicate (Suc k) (frame p))) \<and>
        prefix (concat (replicate k (frame p)) @ got) (sent_to sv h))"

lemma round_deliversI:
  "serve_ticks tgt px a tks sv0 = Some (Done sv) \<Longrightarrow> fresh_opens (calls sv) {} \<Longrightarrow>
     prefix (received_from sv h) (concat (replicate (Suc k) (frame p))) \<Longrightarrow>
     prefix (concat (replicate k (frame p)) @ got) (sent_to sv h) \<Longrightarrow> round_delivers tgt px a sv0 h p k got"
  by (auto simp: round_delivers_def)

lemma round_delivers_reply:
  assumes "start_server tgt px env = Done (port, a, sv0)" "fits k_max_payload p" "round_delivers tgt px a sv0 h p k got"
  shows "prefix got (frame p)"
proof -
  from assms(3) obtain tks sv where sv: "serve_ticks tgt px a tks sv0 = Some (Done sv)" "fresh_opens (calls sv) {}"
    "prefix (received_from sv h) (concat (replicate (Suc k) (frame p)))"
    "prefix (concat (replicate k (frame p)) @ got) (sent_to sv h)" by (auto simp: round_delivers_def)
  have "traffic_inv tgt sv"
    by (rule serve_ticks_traffic [OF sv(1) start_server_inv(1) [OF assms(1)] start_server_traffic [OF assms(1)] sv(2)])
  from traffic_echoes [OF this, of h] obtain fs rest where fs: "list_all (fits k_max_payload) fs"
    "received_from sv h = concat (map frame fs) @ rest" "prefix (sent_to sv h) (concat (map frame fs))" by blast
  from fs(2) sv(3) have rec: "prefix (concat (map frame fs)) (concat (replicate (Suc k) (frame p)))"
    by (metis append_prefixD)
  have "prefix (concat (replicate k (frame p)) @ got) (concat (replicate (Suc k) (frame p)))"
    using sv(4) fs(3) rec by (meson prefix_order.order_trans)
  moreover have "concat (replicate (Suc k) (frame p)) = concat (replicate k (frame p)) @ frame p"
    by (simp flip: replicate_append_same)
  ultimately show ?thesis by (metis same_prefix_prefix)
qed

section \<open>The client\<close>

lemma recv_waits:
  "fits k_max_payload p \<Longrightarrow> [] \<notin> set ds \<Longrightarrow> strict_prefix (got @ concat ds) (frame p) \<Longrightarrow>
     recv_one_echo_frame tgt p got (map Received ds) = None"
proof (induction ds arbitrary: got)
  case (Cons d ds)
  have d: "d \<noteq> []" using Cons.prems(2) by auto
  have sp: "strict_prefix (got @ d) (frame p)"
    using Cons.prems(3) by (metis append_assoc concat.simps(2) prefixI prefix_order.le_less_trans)
  then have len: "length (got @ d) < 4 + length p" using prefix_length_less [of "got @ d" "frame p"] by simp
  from codec.dec_prefix [OF Cons.prems(1) sp] obtain dec where
    "try_decode_frame tgt (got @ d) k_max_payload = Done dec" "fdr_status dec = Incomplete"
    using frame_dec_status by blast
  with Cons.IH [of "got @ d"] Cons.prems d len show ?case by (simp add: acc_size_def)
qed simp

lemma client_rounds_served:
  assumes "fits k_max_payload p"
  shows "length sss = length css \<Longrightarrow> length css \<le> n \<Longrightarrow> \<forall>ss\<in>set sss. send_all (frame p) 0 ss = Some (Done (), []) \<Longrightarrow>
    \<forall>cs\<in>set css. prefix (concat cs) (frame p) \<and> [] \<notin> set cs \<Longrightarrow> \<forall>cs\<in>set (butlast css). concat cs = frame p \<Longrightarrow>
    client_rounds tgt p n (concat sss) (concat (map (map Received) css)) =
      (if length css = n \<and> (\<forall>cs\<in>set css. concat cs = frame p) then Some (Done (), [], []) else None)"
proof (induction n arbitrary: sss css)
  case (Suc n)
  have enc: "append_encoded_frame tgt [] p k_max_payload = Done (Inr (), frame p)"
    using assms by (simp add: append_encoded_frame_eq)
  show ?case
  proof (cases css)
    case Nil
    have "send_all (frame p) 0 [] = None" using codec.enc_nonempty [of p] by (subst send_all.simps) simp
    with Nil Suc.prems(1) enc show ?thesis by simp
  next
    case (Cons c css')
    with Suc.prems(1) obtain s1 sss' where sss: "sss = s1 # sss'" by (cases sss) auto
    with Suc.prems(3) have sent: "send_all (frame p) 0 (s1 @ concat sss') = Some (Done (), concat sss')"
      by (simp add: send_all_append)
    show ?thesis
    proof (cases "concat c = frame p")
      case True
      have "c \<noteq> []" using True codec.enc_nonempty [of p] by auto
      with True Suc.prems(4) Cons have "recv_one_echo_frame tgt p [] (map Received c @ concat (map (map Received) css')) =
          Some (Done (), concat (map (map Received) css'))" by (intro recv_pieces [OF assms]) auto
      moreover have "client_rounds tgt p n (concat sss') (concat (map (map Received) css')) =
          (if length css' = n \<and> (\<forall>cs\<in>set css'. concat cs = frame p) then Some (Done (), [], []) else None)"
        using Suc.IH [of sss' css'] Suc.prems Cons sss by (auto split: if_splits)
      ultimately show ?thesis using Cons sss enc sent True by simp
    next
      case False
      then have "css' = []" using Suc.prems(5) Cons by (auto split: if_splits)
      moreover have "strict_prefix ([] @ concat c) (frame p)" using False Suc.prems(4) Cons by (simp add: strict_prefix_def)
      then have "recv_one_echo_frame tgt p [] (map Received c) = None"
        using Suc.prems(4) Cons by (intro recv_waits [OF assms]) auto
      ultimately show ?thesis using Cons sss enc sent False by simp
    qed
  qed
qed simp

section \<open>Property\<close>

text \<open>C5: Every client of the server is served. Take a started server, whatever other clients do to it, and a client
  whose socket connects and whose requests its kernel takes in some pieces. If in each of its rounds what its kernel
  delivers, in any pieces, is what TCP allows given the server's run, the client never aborts: it has returned, with
  its descriptor closed, once the replies to all its rounds have arrived completely, and until then it waits.\<close>

theorem client_is_served:
  assumes "start_server tgt px env = Done (port, a, sv0)" and "pb \<le> 2 ^ 20"
    and "0 \<le> rc sock" "rc (connecting port) = 0"
    and "length sss = length css" "length css \<le> nat rounds"
    and "\<forall>ss\<in>set sss. send_all (frame (make_payload pb cid)) 0 ss = Some (Done (), [])"
    and "\<forall>k<length css. round_delivers tgt px a sv0 h (make_payload pb cid) k (concat (css ! k)) \<and> [] \<notin> set (css ! k)"
    and "\<forall>k. Suc k < length css \<longrightarrow> length (concat (css ! k)) = length (frame (make_payload pb cid))"
  shows "client_worker ctgt sock connecting port cid rounds pb (concat sss) (concat (map (map Received) css)) =
    (if length css = nat rounds \<and> (\<forall>cs\<in>set css. length (concat cs) = length (frame (make_payload pb cid)))
     then Some (Done [Sys_opened (rc sock), Sys_close (rc sock)], [], []) else None)"
proof -
  let ?p = "make_payload pb cid"
  have fit: "fits k_max_payload ?p" using assms(2) by (simp add: fits_def make_payload_def k_max_payload_def)
  have pre: "prefix (concat (css ! k)) (frame ?p)" if "k < length css" for k
    using round_delivers_reply [OF assms(1) fit] assms(8) that by blast
  have full: "length (concat cs) = length (frame ?p) \<longleftrightarrow> concat cs = frame ?p" if "cs \<in> set css" for cs
  proof -
    from that pre obtain zs where zs: "frame ?p = concat cs @ zs" by (metis in_set_conv_nth prefixE)
    then have "length (frame ?p) = length (concat cs) + length zs" by (metis length_append)
    with zs show ?thesis by auto
  qed
  have "\<forall>cs\<in>set css. prefix (concat cs) (frame ?p) \<and> [] \<notin> set cs" using pre assms(8) by (metis in_set_conv_nth)
  moreover have "concat cs = frame ?p" if "cs \<in> set (butlast css)" for cs
  proof -
    from that obtain k where "k < length css - 1" "cs = css ! k"
      by (auto simp: in_set_conv_nth nth_butlast)
    with assms(9) full [of cs] show ?thesis by simp
  qed
  then have "\<forall>cs\<in>set (butlast css). concat cs = frame ?p" by blast
  ultimately have "client_rounds ctgt ?p (nat rounds) (concat sss) (concat (map (map Received) css)) =
      (if length css = nat rounds \<and> (\<forall>cs\<in>set css. concat cs = frame ?p) then Some (Done (), [], []) else None)"
    by (intro client_rounds_served [OF fit assms(5-7)])
  then show ?thesis using assms(3,4) full by (auto simp: client_worker_def connect_loopback_def)
qed

theorem client_is_served_witness:
  "client_worker \<lparr>build_mode = Debug, native_endian = Little\<rparr> \<lparr>rc = 4, err = 0\<rparr> (\<lambda>_. \<lparr>rc = 0, err = 0\<rparr>) 8080 7 1 1
     (concat [[Sent 5]]) (concat (map (map Received) [[[0, 0], [0, 1, 7]]])) =
     Some (Done [Sys_opened 4, Sys_close 4], [], [])"
proof -
  let ?tgt = "\<lparr>build_mode = Debug, native_endian = Little\<rparr>" and ?css = "[[[0, 0], [0, 1, 7 :: byte]]]"
  have p: "frame (make_payload 1 7) = [0, 0, 0, 1, 7]" by (simp add: make_payload_def frame_def push_be32_def)
  obtain sv where sv: "serve_ticks ?tgt linux demo_acceptor
      [hd demo_ticks, demo_read_tick, demo_read_tick\<lparr>before_deadline := False\<rparr>] demo_server = Some (Done sv)"
    "calls sv = calls demo_connected" "received_from sv 5 = [0, 0, 0, 1, 7]" "sent_to sv 5 = [0, 0, 0, 1, 7]"
    using demo_read_turn by blast
  have "fresh_opens (calls sv) {}" by (simp add: sv(2) demo_connected_def demo_server_def)
  from round_deliversI [OF sv(1) this, of 5 0 "make_payload 1 7" "[0, 0, 0, 1, 7]"]
  have "round_delivers ?tgt linux demo_acceptor demo_server 5 (make_payload 1 7) 0 [0, 0, 0, 1, 7]"
    unfolding p by (simp add: sv(3,4))
  then have del: "\<forall>k<length ?css. round_delivers ?tgt linux demo_acceptor demo_server 5 (make_payload 1 7) k
      (concat (?css ! k)) \<and> [] \<notin> set (?css ! k)" by simp
  have snd: "\<forall>ss\<in>set [[Sent 5]]. send_all (frame (make_payload 1 7)) 0 ss = Some (Done (), [])"
    unfolding p by (simp add: send_all.simps)
  from client_is_served [where sock = "\<lparr>rc = 4, err = 0\<rparr>" and connecting = "\<lambda>_. \<lparr>rc = 0, err = 0\<rparr>" and rounds = 1,
      OF demo_starts _ _ _ _ _ snd del, unfolded p]
  show ?thesis by simp
qed

end
