(* ===== verification/Winsock.thy ===== *)
theory Winsock
  imports Transport Acceptor
begin

text \<open>
  The branches of the networking sources under \<^verbatim>\<open>#if defined(_WIN32)\<close>, and how they relate to the POSIX branches
  that the other theories model. There \<^verbatim>\<open>NativeSocket\<close> and \<^verbatim>\<open>SOCKET\<close> are the same unsigned 64-bit integer; a value is
  represented by its signed reading, so that \<^verbatim>\<open>INVALID_SOCKET\<close>, all ones, is \<open>- 1\<close> and the code shared by both
  platforms needs no second model. Lengths are passed to \<^verbatim>\<open>recv\<close> and \<^verbatim>\<open>send\<close> as a 32-bit \<^verbatim>\<open>int\<close>, and an \<^verbatim>\<open>fd_set\<close> is an
  array of at most \<^verbatim>\<open>FD_SETSIZE\<close> handles. What Winsock answers, and its macro \<^verbatim>\<open>FD_SET\<close>, are parameters.
\<close>

section \<open>Winsock\<close>

definition INVALID_SOCKET :: NativeSocket where
  "INVALID_SOCKET = - 1"

definition SOCKET_ERROR :: int where
  "SOCKET_ERROR = - 1"

text \<open>\<open>set_capacity\<close> is \<^verbatim>\<open>FD_SETSIZE\<close> as the sources are compiled with, 64 by default.\<close>

record winsock =
  wsaewouldblock :: errno
  wsaeinprogress :: errno
  set_capacity :: nat
  add_to_set :: "NativeSocket \<Rightarrow> NativeSocket list \<Rightarrow> NativeSocket list"

text \<open>Documented: the macro \<^verbatim>\<open>FD_SET\<close> adds a handle that is not in the set, as long as the set has room.\<close>

definition fd_set_contract :: "winsock \<Rightarrow> bool" where
  "fd_set_contract ws \<longleftrightarrow>
     (\<forall>s S. add_to_set ws s S = (if s \<in> set S \<or> set_capacity ws \<le> length S then S else S @ [s]))"

text \<open>\<^verbatim>\<open>static_cast<int>(n)\<close> of a \<^verbatim>\<open>size_t\<close>.\<close>

definition as_int :: "size_t \<Rightarrow> int" where
  "as_int n = sint (of_nat n :: u32)"

text \<open>The values of \<^verbatim>\<open>winsock2.h\<close>, for concrete runs.\<close>

definition winsock2 :: winsock where
  "winsock2 = \<lparr>wsaewouldblock = 10035, wsaeinprogress = 10036, set_capacity = 64,
     add_to_set = (\<lambda>s S. if s \<in> set S \<or> 64 \<le> length S then S else S @ [s])\<rparr>"

section \<open>Session and handle\<close>

datatype session_call = WSAStartup | WSACleanup

text \<open>\<open>startup\<close> is what \<^verbatim>\<open>::WSAStartup\<close> returns.\<close>

definition NetworkSession_new_win :: "int \<Rightarrow> NetworkSession \<times> session_call list" where
  "NetworkSession_new_win startup =
     (if startup \<noteq> 0 then (\<lparr>ns_ok = False, ns_last_error = startup\<rparr>, [WSAStartup])
      else (\<lparr>ns_ok = True, ns_last_error = 0\<rparr>, [WSAStartup]))"

definition NetworkSession_destroy_win :: "NetworkSession \<Rightarrow> session_call list" where
  "NetworkSession_destroy_win ns = (if ns_ok ns then [WSACleanup] else [])"

definition create_tcp_v4_win :: "int_ret \<Rightarrow> SocketError + Socket" where
  "create_tcp_v4_win r =
     (if rc r = INVALID_SOCKET then Inl (make_error CreateFailed ''socket() failed'' (err r))
      else Inr \<lparr>native_handle = rc r\<rparr>)"

text \<open>The calls of \<^verbatim>\<open>::ioctlsocket(s, FIONBIO, &mode)\<close> made, each with its handle and mode.\<close>

definition set_nonblocking_win ::
  "int_ret \<Rightarrow> bool \<Rightarrow> Socket \<Rightarrow> (SocketError + unit) \<times> (NativeSocket \<times> u32) list" where
  "set_nonblocking_win r enable sk =
     (if \<not> Socket_valid sk then (Inl (make_error NotInitialized ''socket is invalid'' 0), [])
      else
        let mode = (if enable then 1 else 0); call = (native_handle sk, mode)
        in if rc r \<noteq> 0
           then (Inl (make_error NonBlockingFailed ''ioctlsocket(FIONBIO) failed'' (err r)), [call])
           else (Inr (), [call]))"

definition Socket_close_win :: "int_ret \<Rightarrow> Socket \<Rightarrow> (SocketError + unit) \<times> Socket \<times> syscall list" where
  "Socket_close_win r sk =
     (if native_handle sk = k_invalid_socket then (Inr (), sk, [])
      else
        let s = native_handle sk; sk' = sk\<lparr>native_handle := k_invalid_socket\<rparr>
        in if rc r \<noteq> 0
           then (Inl (make_error CloseFailed ''closesocket() failed'' (err r)), sk', [Sys_close s])
           else (Inr (), sk', [Sys_close s]))"

definition Socket_destroy_win :: "int_ret \<Rightarrow> Socket \<Rightarrow> syscall list" where
  "Socket_destroy_win r sk = (case Socket_close_win r sk of (_, _, calls) \<Rightarrow> calls)"

section \<open>Listening and accepting\<close>

fun try_addresses_win :: "int \<Rightarrow> errno \<Rightarrow> addr_env list \<Rightarrow> (ListenerError + Listener) \<times> syscall list" where
  "try_addresses_win backlog no [] =
     (Inl (listener_err BindFailed ''bind() failed for all resolved addresses'' no), [])"
| "try_addresses_win backlog no (a # as) =
     (if rc (a_socket a) = INVALID_SOCKET then try_addresses_win backlog (err (a_socket a)) as
      else
        let s = rc (a_socket a); sock = \<lparr>native_handle = s\<rparr>;
            opened = [Sys_opened s, Sys_setsockopt s]
        in if rc (a_setsockopt a) \<noteq> 0
           then (Inl (listener_err SetSockOptFailed ''setsockopt(SO_REUSEADDR) failed'' (err (a_setsockopt a))),
                 opened @ Socket_destroy_win (a_close a) sock)
           else if rc (a_bind a) \<noteq> 0
           then (case Socket_close_win (a_close a) sock of (_, sock', calls) \<Rightarrow>
                 (case try_addresses_win backlog (err (a_close a)) as of (res, rest) \<Rightarrow>
                    (res, opened @ [Sys_bind s] @ calls @ Socket_destroy_win (a_close a) sock' @ rest)))
           else if rc (a_listen a) \<noteq> 0
           then (Inl (listener_err ListenFailed ''listen() failed'' (err (a_listen a))),
                 opened @ [Sys_bind s, Sys_listen s backlog] @ Socket_destroy_win (a_close a) sock)
           else (case Socket_move sock of (new, old) \<Rightarrow>
                 (Inr \<lparr>listener_socket = new\<rparr>,
                  opened @ [Sys_bind s, Sys_listen s backlog] @ Socket_destroy_win (a_close a) old)))"

definition bind_and_listen_win ::
  "(string option \<Rightarrow> string \<Rightarrow> gai_ret) \<Rightarrow> string \<Rightarrow> u16 \<Rightarrow> int \<Rightarrow> (ListenerError + Listener) \<times> syscall list" where
  "bind_and_listen_win resolve host port backlog =
     (if backlog \<le> 0 then (Inl (listener_err ListenFailed ''backlog must be > 0'' 0), [])
      else
        let g = resolve (if host = [] then None else Some host) (decimal (unat port))
        in if gai_rc g \<noteq> 0 then (Inl (listener_err ResolveFailed ''getaddrinfo() failed'' (gai_rc g)), [])
           else try_addresses_win backlog (gai_errno g) (gai_list g))"

definition accept_one_win :: "int_ret \<Rightarrow> Socket \<Rightarrow> (AcceptError + Socket) \<times> syscall list" where
  "accept_one_win r listener =
     (if \<not> Socket_valid listener then (Inl (accept_err ''listener socket is invalid'' 0), [])
      else
        let call = Sys_accept (native_handle listener)
        in if rc r = INVALID_SOCKET then (Inl (accept_err ''accept() failed'' (err r)), [call])
           else (Inr \<lparr>native_handle = rc r\<rparr>, [call, Sys_opened (rc r)]))"

definition local_port_v4_win :: "target \<Rightarrow> int_ret \<Rightarrow> byte \<times> byte \<Rightarrow> Socket \<Rightarrow> AcceptError + u16" where
  "local_port_v4_win tgt r sin_port listener =
     (if \<not> Socket_valid listener then Inl (accept_err ''listener socket is invalid'' 0)
      else if rc r \<noteq> 0 then Inl (accept_err ''getsockname() failed'' (err r))
      else Inr (ntohs (native_endian tgt) (load_u16 (native_endian tgt) (fst sin_port) (snd sin_port))))"

text \<open>The test of the server's accept loop on the error of \<^verbatim>\<open>accept\<close>.\<close>

definition accept_would_block_win :: "winsock \<Rightarrow> errno \<Rightarrow> bool" where
  "accept_would_block_win ws e \<longleftrightarrow> e = wsaewouldblock ws \<or> e = wsaeinprogress ws"

section \<open>Receiving and sending\<close>

text \<open>\<open>recving len\<close> and \<open>sending len\<close> are what \<^verbatim>\<open>::recv\<close> and \<^verbatim>\<open>::send\<close> answer when they are passed the length \<open>len\<close>.\<close>

definition receive_nonblocking_win ::
  "winsock \<Rightarrow> (int \<Rightarrow> recv_ret) \<Rightarrow> Connection \<Rightarrow> byte list \<Rightarrow> ((RecvError + size_t) \<times> Connection) outcome" where
  "receive_nonblocking_win ws recving conn scratch =
     (if scratch = [] then Done (Inl (recv_err RecvInvalidArgument ''scratch buffer is empty'' 0), conn)
      else if \<not> Socket_valid (conn_socket conn)
      then Done (Inl (recv_err RecvIoError ''connection socket is invalid'' 0), conn)
      else
        (case recving (as_int (length scratch)) of
           RecvFailed e \<Rightarrow>
             if e = wsaewouldblock ws \<or> e = wsaeinprogress ws
             then Done (Inl (recv_err RecvWouldBlock ''recv would block'' e), conn)
             else Done (Inl (recv_err RecvIoError ''recv failed'' e), conn)
         | Received d \<Rightarrow>
             if length d = 0 then Done (Inl (recv_err RecvClosed ''peer closed connection'' 0), conn)
             else if length scratch < length d then Undefined ''span::first''
             else
               let scratch' = d @ drop (length d) scratch;
                   chunk = take (length d) scratch'
               in Done (Inr (length chunk), append_read chunk conn)))"

definition flush_write_nonblocking_win ::
  "winsock \<Rightarrow> target \<Rightarrow> (int \<Rightarrow> int_ret) \<Rightarrow> Connection \<Rightarrow> ((SendError + size_t) \<times> Connection) outcome" where
  "flush_write_nonblocking_win ws tgt sending conn =
     (if write_buf conn = [] then Done (Inr 0, conn)
      else if \<not> Socket_valid (conn_socket conn)
      then Done (Inl (send_err SendIoError ''connection socket is invalid'' 0), conn)
      else
        let r = sending (as_int (length (write_buf conn)))
        in if rc r = SOCKET_ERROR
           then (if err r = wsaewouldblock ws \<or> err r = wsaeinprogress ws
                 then Done (Inl (send_err SendWouldBlock ''send would block'' (err r)), conn)
                 else Done (Inl (send_err SendIoError ''send failed'' (err r)), conn))
           else if rc r \<le> 0 then Done (Inl (send_err SendIoError ''send returned non-positive'' 0), conn)
           else bind_outcome (consume_write tgt (nat (rc r)) conn) (\<lambda>conn'. Done (Inr (nat (rc r)), conn')))"

section \<open>The select backend\<close>

type_synonym fd_array = "NativeSocket list"

record select_call_win =
  wsc_nfds :: int
  wsc_read :: fd_array
  wsc_write :: fd_array
  wsc_except :: fd_array
  wsc_timeout :: "timeval option"

record select_ret_win =
  wsr_rc :: int
  wsr_err :: errno
  wsr_read :: fd_array
  wsr_write :: fd_array
  wsr_except :: fd_array

fun fill_sets_win :: "winsock \<Rightarrow> (NativeSocket \<times> EventMask) list \<Rightarrow>
    fd_array \<times> fd_array \<times> fd_array \<Rightarrow> fd_array \<times> fd_array \<times> fd_array" where
  "fill_sets_win ws [] st = st"
| "fill_sets_win ws ((sock, em) # es) (r, w, x) =
     (let r' = (if has em EM_Read then add_to_set ws sock r else r);
          w' = (if has em EM_Write then add_to_set ws sock w else w);
          x' = (if has em EM_Error then add_to_set ws sock x else x)
      in fill_sets_win ws es (r', w', x'))"

text \<open>The first argument of \<^verbatim>\<open>::select\<close> is 0: Winsock ignores it, and the computed maximum is not used.\<close>

definition select_args_win :: "winsock \<Rightarrow> int \<Rightarrow> NativeSocket list \<Rightarrow> SelectPoller \<Rightarrow> select_call_win" where
  "select_args_win ws timeout_ms order p =
     (case fill_sets_win ws (entries order p) ([], [], []) of (r, w, x) \<Rightarrow>
        \<lparr>wsc_nfds = 0, wsc_read = r, wsc_write = w, wsc_except = x, wsc_timeout = timeout_arg timeout_ms\<rparr>)"

definition fired_win :: "select_ret_win \<Rightarrow> NativeSocket \<Rightarrow> EventMask" where
  "fired_win ret sock =
     (let f0 = EM_None;
          f1 = (if sock \<in> set (wsr_read ret) then mask_or f0 EM_Read else f0);
          f2 = (if sock \<in> set (wsr_write ret) then mask_or f1 EM_Write else f1)
      in if sock \<in> set (wsr_except ret) then mask_or f2 EM_Error else f2)"

fun collect_events_win ::
  "select_ret_win \<Rightarrow> nat \<Rightarrow> (NativeSocket \<times> EventMask) list \<Rightarrow> Event list \<Rightarrow> Event list" where
  "collect_events_win ret cap [] acc = acc"
| "collect_events_win ret cap ((sock, m) # es) acc =
     (if length acc \<ge> cap then acc
      else
        let f = fired_win ret sock
        in collect_events_win ret cap es
             (if f \<noteq> EM_None then acc @ [\<lparr>ev_socket = sock, ev_mask = f\<rparr>] else acc))"

definition sp_wait_win ::
  "winsock \<Rightarrow> (select_call_win \<Rightarrow> select_ret_win) \<Rightarrow> nat \<Rightarrow> int \<Rightarrow> NativeSocket list \<Rightarrow> SelectPoller \<Rightarrow>
     PollError + Event list" where
  "sp_wait_win ws sel cap timeout_ms order p =
     (if cap = 0 then Inl (poll_err ''out_events must not be empty'' 0)
      else
        let ret = sel (select_args_win ws timeout_ms order p)
        in if wsr_rc ret = SOCKET_ERROR then Inl (poll_err ''select() failed'' (wsr_err ret))
           else if wsr_rc ret = 0 then Inr []
           else Inr (collect_events_win ret cap (entries order p) []))"

section \<open>What Winsock promises\<close>

text \<open>Documented: \<^verbatim>\<open>select\<close> leaves in the sets only handles that were in them.\<close>

definition select_contract_win :: "(select_call_win \<Rightarrow> select_ret_win) \<Rightarrow> bool" where
  "select_contract_win sel \<longleftrightarrow>
     (\<forall>c. wsr_rc (sel c) \<noteq> SOCKET_ERROR \<longrightarrow>
        set (wsr_read (sel c)) \<subseteq> set (wsc_read c) \<and> set (wsr_write (sel c)) \<subseteq> set (wsc_write c) \<and>
        set (wsr_except (sel c)) \<subseteq> set (wsc_except c))"

text \<open>Documented: \<^verbatim>\<open>send\<close> takes no more bytes than it is passed.\<close>

definition send_contract_win :: "(int \<Rightarrow> int_ret) \<Rightarrow> bool" where
  "send_contract_win sending \<longleftrightarrow> (\<forall>len. rc (sending len) \<le> max 0 len)"

text \<open>A call that returns a handle, those in use being below \<open>2\<^sup>6\<^sup>3\<close>, or \<^verbatim>\<open>INVALID_SOCKET\<close>.\<close>

definition handle_ret :: "int_ret \<Rightarrow> bool" where
  "handle_ret r \<longleftrightarrow> - 1 \<le> rc r"

section \<open>Facts\<close>

lemma as_int_small: "n < 2 ^ 31 \<Longrightarrow> as_int n = int n"
  by (simp add: as_int_def signed_of_nat signed_take_bit_int_eq_self)

lemma as_int_eq: "as_int n = (int n + 2147483648) mod 4294967296 - 2147483648"
  by (simp add: as_int_def signed_of_nat signed_take_bit_eq_take_bit_shift take_bit_eq_mod)

lemma as_int_le: "as_int n \<le> int n"
  using zmod_le_nonneg_dividend [of "int n + 2147483648" 4294967296] by (simp add: as_int_eq)

lemma as_int_big:
  assumes "2 ^ 31 \<le> n" "n \<le> 2 ^ 32"
  shows "as_int n \<le> 0"
proof -
  have "(int n + 2147483648) mod 4294967296 = (int n + 2147483648 - 4294967296) mod 4294967296"
    by (rule mod_pos_geq) (use assms in simp_all)
  also have "\<dots> = int n - 2147483648" using assms by (subst mod_pos_pos_trivial) simp_all
  finally show ?thesis using assms by (simp add: as_int_eq)
qed

lemma session_balanced:
  "NetworkSession_new_win startup = (ns, calls) \<Longrightarrow>
     ns_ok ns = (startup = 0) \<and> count_list (calls @ NetworkSession_destroy_win ns) WSACleanup = (if startup = 0 then 1 else 0)"
  by (auto simp: NetworkSession_new_win_def NetworkSession_destroy_win_def split: if_splits)

lemma close_agrees:
  "snd (Socket_close_win r sk) = snd (Socket_close r sk)"
  "isl (fst (Socket_close_win r sk)) = isl (fst (Socket_close r sk))"
  by (simp_all add: Socket_close_win_def Socket_close_def Let_def)

lemma destroy_agrees: "Socket_destroy_win r sk = Socket_destroy r sk"
  by (simp add: Socket_destroy_win_def Socket_destroy_def Socket_close_win_def Socket_close_def Let_def)

lemma invalid_handle: "handle_ret r \<Longrightarrow> rc r = INVALID_SOCKET \<longleftrightarrow> rc r < 0"
  by (auto simp: handle_ret_def INVALID_SOCKET_def)

lemma try_addresses_agree:
  "list_all (\<lambda>a. handle_ret (a_socket a)) as \<Longrightarrow> try_addresses_win backlog no as = try_addresses backlog no as"
proof (induction backlog no as rule: try_addresses_win.induct)
  case (2 backlog no a as)
  from 2(3) have h: "rc (a_socket a) = INVALID_SOCKET \<longleftrightarrow> rc (a_socket a) < 0" by (simp add: invalid_handle)
  from 2(3) have rest: "list_all (\<lambda>a. handle_ret (a_socket a)) as" by simp
  show ?case
  proof (cases "rc (a_socket a) < 0")
    case True
    with h 2(1) rest show ?thesis by simp
  next
    case False
    with h 2(2) [OF _ refl refl refl] rest show ?thesis
      by (simp add: Let_def destroy_agrees Socket_close_win_def Socket_close_def split: prod.splits)
  qed
qed simp

text \<open>The sockets registered for a condition, in the order the map is iterated.\<close>

definition interested :: "NativeSocket list \<Rightarrow> SelectPoller \<Rightarrow> EventMask \<Rightarrow> NativeSocket list" where
  "interested order p b = map fst (filter (\<lambda>(s, m). has m b) (entries order p))"

lemma fill_sets_win_eq:
  assumes "fd_set_contract ws"
  shows "distinct (map fst es) \<Longrightarrow> fst ` set es \<inter> (set r \<union> set w \<union> set x) = {} \<Longrightarrow>
    length r \<le> set_capacity ws \<Longrightarrow> length w \<le> set_capacity ws \<Longrightarrow> length x \<le> set_capacity ws \<Longrightarrow>
    fill_sets_win ws es (r, w, x) =
      (take (set_capacity ws) (r @ map fst (filter (\<lambda>(s, m). has m EM_Read) es)),
       take (set_capacity ws) (w @ map fst (filter (\<lambda>(s, m). has m EM_Write) es)),
       take (set_capacity ws) (x @ map fst (filter (\<lambda>(s, m). has m EM_Error) es)))"
proof (induction es arbitrary: r w x)
  case (Cons e es)
  obtain s m where e: "e = (s, m)" by fastforce
  let ?add = "\<lambda>b S. if has m b then add_to_set ws s S else S"
  have add: "set (?add b S) \<subseteq> insert s (set S) \<and> length (?add b S) \<le> set_capacity ws \<and>
      (\<forall>ys. take (set_capacity ws) (?add b S @ ys) = take (set_capacity ws) (S @ (if has m b then s # ys else ys)))"
    if "s \<notin> set S" "length S \<le> set_capacity ws" for b S
    using assms that by (auto simp: fd_set_contract_def take_Cons' Suc_diff_le)
  have fresh: "s \<notin> set r" "s \<notin> set w" "s \<notin> set x" "s \<notin> fst ` set es" using Cons.prems(1,2) e by auto
  note a = add [OF fresh(1) Cons.prems(3), of EM_Read] add [OF fresh(2) Cons.prems(4), of EM_Write]
    add [OF fresh(3) Cons.prems(5), of EM_Error]
  have dis: "fst ` set es \<inter> (insert s (set r) \<union> insert s (set w) \<union> insert s (set x)) = {}"
    using Cons.prems(2) fresh(4) by auto
  have "fill_sets_win ws es (?add EM_Read r, ?add EM_Write w, ?add EM_Error x) =
      (take (set_capacity ws) (?add EM_Read r @ map fst (filter (\<lambda>(s, m). has m EM_Read) es)),
       take (set_capacity ws) (?add EM_Write w @ map fst (filter (\<lambda>(s, m). has m EM_Write) es)),
       take (set_capacity ws) (?add EM_Error x @ map fst (filter (\<lambda>(s, m). has m EM_Error) es)))"
  proof (rule Cons.IH)
    show "distinct (map fst es)" using Cons.prems(1) by simp
    show "fst ` set es \<inter> (set (?add EM_Read r) \<union> set (?add EM_Write w) \<union> set (?add EM_Error x)) = {}"
      using dis conjunct1 [OF a(1)] conjunct1 [OF a(2)] conjunct1 [OF a(3)] by blast
  qed (use a in blast)+
  moreover have "map fst (filter (\<lambda>(s, m). has m b) ((s, m) # es)) =
      (if has m b then s # map fst (filter (\<lambda>(s, m). has m b) es) else map fst (filter (\<lambda>(s, m). has m b) es))" for b
    by simp
  moreover note a [THEN conjunct2, THEN conjunct2, rule_format]
  ultimately show ?case by (simp only: e fill_sets_win.simps Let_def)
qed simp

lemma select_args_win_eq:
  assumes "fd_set_contract ws" "iterates order p"
  shows "select_args_win ws t order p =
    \<lparr>wsc_nfds = 0, wsc_read = take (set_capacity ws) (interested order p EM_Read),
     wsc_write = take (set_capacity ws) (interested order p EM_Write),
     wsc_except = take (set_capacity ws) (interested order p EM_Error), wsc_timeout = timeout_arg t\<rparr>"
  using distinct_entries [OF assms(2)]
  by (simp add: select_args_win_def fill_sets_win_eq [OF assms(1)] interested_def)

text \<open>The events are those of the POSIX branch for the same sets.\<close>

definition as_sets :: "select_ret_win \<Rightarrow> select_ret" where
  "as_sets ret = \<lparr>sr_rc = wsr_rc ret, sr_err = wsr_err ret, sr_read = set (wsr_read ret),
     sr_write = set (wsr_write ret), sr_except = set (wsr_except ret)\<rparr>"

lemma fired_win_eq: "fired_win ret s = fired_mask (as_sets ret) s"
  by (simp add: fired_win_def fired_mask_def as_sets_def)

lemma collect_events_win_eq:
  "length acc \<le> cap \<Longrightarrow> collect_events_win ret cap es acc = take cap (acc @ ready_events (as_sets ret) es)"
proof (induction ret cap es acc rule: collect_events_win.induct)
  case (2 ret cap sock m es acc)
  then show ?case
    by (auto simp: ready_events_def fired_win_eq take_Cons' Let_def split: if_splits)
qed (simp add: ready_events_def)

section \<open>Properties\<close>

text \<open>C20: On Windows a receive and a send do what they do on POSIX. With buffers whose size fits an \<^verbatim>\<open>int\<close>, and the
  same answer of the system, none of them an interruption by a signal and \<^verbatim>\<open>WSAEWOULDBLOCK\<close> and \<^verbatim>\<open>WSAEINPROGRESS\<close> in
  the place of \<^verbatim>\<open>EAGAIN\<close> and \<^verbatim>\<open>EWOULDBLOCK\<close>, result and connection are the same; only the message differs when \<^verbatim>\<open>send\<close>
  returned 0.\<close>

theorem winsock_transport_agrees:
  assumes "eagain px = wsaewouldblock ws" "ewouldblock px = wsaeinprogress ws"
    and "length scratch < 2 ^ 31" "length (write_buf conn) < 2 ^ 31"
    and "\<not> recv_interrupted px (recving (int (length scratch)))"
    and "sending (int (length (write_buf conn))) = r"
    and "(if rc r = SOCKET_ERROR then err r \<noteq> eintr px \<and> sr = SendFailed (err r) else 0 \<le> rc r \<and> sr = Sent (nat (rc r)))"
  shows "map_option fst (receive_nonblocking px conn scratch [recving (int (length scratch))]) =
      Some (receive_nonblocking_win ws recving conn scratch) \<and>
    (if write_buf conn \<noteq> [] \<and> Socket_valid (conn_socket conn) \<and> rc r = 0
     then map_option fst (flush_write_nonblocking tgt px conn [sr]) =
            Some (Done (Inl (send_err SendIoError ''send returned 0'' 0), conn)) \<and>
          flush_write_nonblocking_win ws tgt sending conn =
            Done (Inl (send_err SendIoError ''send returned non-positive'' 0), conn)
     else map_option fst (flush_write_nonblocking tgt px conn [sr]) =
            Some (flush_write_nonblocking_win ws tgt sending conn))"
proof
  show "map_option fst (receive_nonblocking px conn scratch [recving (int (length scratch))]) =
      Some (receive_nonblocking_win ws recving conn scratch)"
    using assms(1-3,5)
    by (simp add: receive_nonblocking_def receive_nonblocking_win_def as_int_small Let_def split: recv_ret.split)
  from assms(7) have "\<not> send_interrupted px sr" by (auto split: if_splits)
  with assms(1,2,4,6,7) show "if write_buf conn \<noteq> [] \<and> Socket_valid (conn_socket conn) \<and> rc r = 0
     then map_option fst (flush_write_nonblocking tgt px conn [sr]) =
            Some (Done (Inl (send_err SendIoError ''send returned 0'' 0), conn)) \<and>
          flush_write_nonblocking_win ws tgt sending conn =
            Done (Inl (send_err SendIoError ''send returned non-positive'' 0), conn)
     else map_option fst (flush_write_nonblocking tgt px conn [sr]) =
            Some (flush_write_nonblocking_win ws tgt sending conn)"
    by (simp add: flush_write_nonblocking_def flush_write_nonblocking_win_def as_int_small Let_def SOCKET_ERROR_def
        split: if_splits)
qed

theorem winsock_transport_agrees_witness:
  "let c = \<lparr>conn_socket = \<lparr>native_handle = 5\<rparr>, conn_state = CS_Reading, read_buf = [], write_buf = [7, 8, 9]\<rparr>;
       px = \<lparr>eintr = 10004, eagain = 10035, ewouldblock = 10036, o_nonblock = 1, FD_SETSIZE = 64\<rparr>;
       tgt = \<lparr>build_mode = Debug, native_endian = Little\<rparr>
   in map_option fst (receive_nonblocking px c [0, 0] [RecvFailed 10035]) =
        Some (receive_nonblocking_win winsock2 (\<lambda>_. RecvFailed 10035) c [0, 0]) \<and>
      flush_write_nonblocking_win winsock2 tgt (\<lambda>len. \<lparr>rc = len - 1, err = 0\<rparr>) c = Done (Inr 2, c\<lparr>write_buf := [9]\<rparr>) \<and>
      map_option fst (flush_write_nonblocking tgt px c [Sent 2]) =
        Some (flush_write_nonblocking_win winsock2 tgt (\<lambda>len. \<lparr>rc = len - 1, err = 0\<rparr>) c)"
proof -
  let ?c = "\<lparr>conn_socket = \<lparr>native_handle = 5\<rparr>, conn_state = CS_Reading, read_buf = [], write_buf = [7, 8, 9 :: byte]\<rparr>"
  let ?px = "\<lparr>eintr = 10004, eagain = 10035, ewouldblock = 10036, o_nonblock = 1, FD_SETSIZE = 64\<rparr>"
  let ?tgt = "\<lparr>build_mode = Debug, native_endian = Little\<rparr>" and ?snd = "\<lambda>len. \<lparr>rc = len - 1, err = 0\<rparr>"
  have "flush_write_nonblocking_win winsock2 ?tgt ?snd ?c = Done (Inr 2, ?c\<lparr>write_buf := [9]\<rparr>)"
    by (simp add: flush_write_nonblocking_win_def as_int_small Socket_valid_def k_invalid_socket_def SOCKET_ERROR_def
        consume_write_def)
  with winsock_transport_agrees [of ?px winsock2 "[0, 0]" ?c "\<lambda>_. RecvFailed 10035" ?snd "\<lparr>rc = 2, err = 0\<rparr>" "Sent 2" ?tgt]
  show ?thesis by (simp add: winsock2_def SOCKET_ERROR_def)
qed

text \<open>C34: On Windows a write buffer that grows to 2 GiB cannot be flushed. The length passed to \<^verbatim>\<open>send\<close> is the size
  of the buffer reduced to a signed 32-bit \<^verbatim>\<open>int\<close>. If \<^verbatim>\<open>send\<close> takes no more than it is passed, the flush of a valid
  connection takes at most that many bytes, so that it always fails, and takes nothing, when that \<^verbatim>\<open>int\<close> is not
  positive, as it is for every size from \<open>2\<^sup>3\<^sup>1\<close> to \<open>2\<^sup>3\<^sup>2\<close>; up to \<open>2\<^sup>3\<^sup>1 - 1\<close> the whole buffer is offered.\<close>

theorem winsock_send_length:
  assumes "send_contract_win sending" and "write_buf conn \<noteq> []" "Socket_valid (conn_socket conn)"
  shows "(length (write_buf conn) < 2 ^ 31 \<longrightarrow> as_int (length (write_buf conn)) = int (length (write_buf conn))) \<and>
    (\<forall>n conn'. flush_write_nonblocking_win ws tgt sending conn = Done (Inr n, conn') \<longrightarrow>
       0 < n \<and> int n \<le> as_int (length (write_buf conn)) \<and> n \<le> length (write_buf conn)) \<and>
    (2 ^ 31 \<le> length (write_buf conn) \<and> length (write_buf conn) \<le> 2 ^ 32 \<longrightarrow>
       (\<exists>e. flush_write_nonblocking_win ws tgt sending conn = Done (Inl e, conn)))"
proof (intro conjI allI impI)
  let ?len = "as_int (length (write_buf conn))"
  show "length (write_buf conn) < 2 ^ 31 \<Longrightarrow> ?len = int (length (write_buf conn))" by (rule as_int_small)
  have bound: "rc (sending ?len) \<le> max 0 ?len" using assms(1) by (simp add: send_contract_win_def)
  fix n conn'
  assume fl: "flush_write_nonblocking_win ws tgt sending conn = Done (Inr n, conn')"
  then have n: "n = nat (rc (sending ?len))" "0 < rc (sending ?len)"
    using assms(2,3) by (auto simp: flush_write_nonblocking_win_def Let_def elim!: bind_outcome.elims split: if_splits)
  with bound show "0 < n" "int n \<le> ?len" by auto
  with as_int_le [of "length (write_buf conn)"] show "n \<le> length (write_buf conn)" by linarith
next
  let ?len = "as_int (length (write_buf conn))"
  assume big: "2 ^ 31 \<le> length (write_buf conn) \<and> length (write_buf conn) \<le> 2 ^ 32"
  then have "max 0 ?len = 0" using as_int_big by (simp add: max_absorb1)
  with assms(1) have "rc (sending ?len) \<le> 0" unfolding send_contract_win_def by metis
  then show "\<exists>e. flush_write_nonblocking_win ws tgt sending conn = Done (Inl e, conn)"
    using assms(2,3) by (simp add: flush_write_nonblocking_win_def Let_def)
qed

theorem winsock_send_length_witness:
  "\<exists>e. flush_write_nonblocking_win winsock2 \<lparr>build_mode = Debug, native_endian = Little\<rparr> (\<lambda>len. \<lparr>rc = max 0 len, err = 0\<rparr>)
     \<lparr>conn_socket = \<lparr>native_handle = 5\<rparr>, conn_state = CS_Writing, read_buf = [], write_buf = replicate (2 ^ 32) 0\<rparr> =
     Done (Inl e, \<lparr>conn_socket = \<lparr>native_handle = 5\<rparr>, conn_state = CS_Writing, read_buf = [], write_buf = replicate (2 ^ 32) 0\<rparr>)"
proof -
  have "send_contract_win (\<lambda>len. \<lparr>rc = max 0 len, err = 0\<rparr>)" by (simp add: send_contract_win_def)
  from winsock_send_length [OF this, where conn = "\<lparr>conn_socket = \<lparr>native_handle = 5\<rparr>, conn_state = CS_Writing,
      read_buf = [], write_buf = replicate (2 ^ 32) 0\<rparr>"]
  show ?thesis by (simp add: Socket_valid_def k_invalid_socket_def)
qed

text \<open>C33: On Windows the poller watches only the first \<^verbatim>\<open>FD_SETSIZE\<close> sockets and does not say so. For each condition,
  \<^verbatim>\<open>select\<close> is asked about exactly the first \<^verbatim>\<open>FD_SETSIZE\<close> sockets registered for it, in the order the map is
  iterated. If \<^verbatim>\<open>select\<close> leaves in its sets only what was in them, every event that \<^verbatim>\<open>wait\<close> reports is for one of these,
  no socket twice and never more than fit the caller's array; and \<^verbatim>\<open>wait\<close> fails only if \<^verbatim>\<open>select\<close> does: the sockets
  beyond are never reported, without an error.\<close>

theorem winsock_poller_watches:
  assumes "fd_set_contract ws" and "select_contract_win sel" and "iterates order p" and "0 < cap"
  shows "let c = select_args_win ws t order p; watched = \<lambda>b. take (set_capacity ws) (interested order p b)
    in wsc_read c = watched EM_Read \<and> wsc_write c = watched EM_Write \<and> wsc_except c = watched EM_Error \<and>
       (case sp_wait_win ws sel cap t order p of
          Inl e \<Rightarrow> wsr_rc (sel c) = SOCKET_ERROR
        | Inr evs \<Rightarrow> length evs \<le> cap \<and> distinct (map ev_socket evs) \<and>
            (\<forall>ev\<in>set evs. ev_mask ev \<noteq> EM_None \<and>
               (\<forall>b\<in>{EM_Read, EM_Write, EM_Error}. has (ev_mask ev) b \<longrightarrow> ev_socket ev \<in> set (watched b))))"
proof -
  let ?c = "select_args_win ws t order p" and ?w = "\<lambda>b. take (set_capacity ws) (interested order p b)"
  have sets: "wsc_read ?c = ?w EM_Read" "wsc_write ?c = ?w EM_Write" "wsc_except ?c = ?w EM_Error"
    by (simp_all add: select_args_win_eq [OF assms(1,3)])
  have "length evs \<le> cap \<and> distinct (map ev_socket evs) \<and> (\<forall>ev\<in>set evs. ev_mask ev \<noteq> EM_None \<and>
      (\<forall>b\<in>{EM_Read, EM_Write, EM_Error}. has (ev_mask ev) b \<longrightarrow> ev_socket ev \<in> set (?w b)))"
    if "sp_wait_win ws sel cap t order p = Inr evs" for evs
  proof (cases "wsr_rc (sel ?c) = 0")
    case True
    with that assms(4) show ?thesis by (simp add: sp_wait_win_def Let_def SOCKET_ERROR_def)
  next
    case False
    with that assms(4) have evs: "wsr_rc (sel ?c) \<noteq> SOCKET_ERROR"
      "evs = take cap (ready_events (as_sets (sel ?c)) (entries order p))"
      by (auto simp: sp_wait_win_def Let_def collect_events_win_eq split: if_splits)
    have sub: "set (wsr_read (sel ?c)) \<subseteq> set (?w EM_Read)" "set (wsr_write (sel ?c)) \<subseteq> set (?w EM_Write)"
      "set (wsr_except (sel ?c)) \<subseteq> set (?w EM_Error)"
      using assms(2) evs(1) unfolding select_contract_win_def sets [symmetric] by blast+
    have "ev_mask ev \<noteq> EM_None \<and>
        (\<forall>b\<in>{EM_Read, EM_Write, EM_Error}. has (ev_mask ev) b \<longrightarrow> ev_socket ev \<in> set (?w b))"
      if "ev \<in> set (ready_events (as_sets (sel ?c)) (entries order p))" for ev
    proof -
      from that obtain s where "ev = \<lparr>ev_socket = s, ev_mask = fired_mask (as_sets (sel ?c)) s\<rparr>"
        "fired_mask (as_sets (sel ?c)) s \<noteq> EM_None" by (auto simp: ready_events_def)
      with sub show ?thesis by (auto simp: fired_mask_bits(1-3) as_sets_def)
    qed
    with evs(2) distinct_ready_events [OF assms(3), of "as_sets (sel ?c)"] show ?thesis
      by (auto simp flip: take_map dest: in_set_takeD)
  qed
  moreover have "wsr_rc (sel ?c) = SOCKET_ERROR" if "sp_wait_win ws sel cap t order p = Inl e" for e
    using that assms(4) by (auto simp: sp_wait_win_def Let_def split: if_splits)
  ultimately show ?thesis unfolding Let_def sets by (simp split: sum.split)
qed

theorem winsock_poller_watches_witness:
  "let ws = \<lparr>wsaewouldblock = 10035, wsaeinprogress = 10036, set_capacity = 2,
         add_to_set = (\<lambda>s S. if s \<in> set S \<or> 2 \<le> length S then S else S @ [s])\<rparr>;
       p = \<lparr>interests = [3 \<mapsto> EM_Read, 5 \<mapsto> EM_Read, 8 \<mapsto> EM_Read]\<rparr>;
       sel = (\<lambda>c. \<lparr>wsr_rc = 2, wsr_err = 0, wsr_read = wsc_read c, wsr_write = [], wsr_except = []\<rparr>);
       res = sp_wait_win ws sel 4 50 [8, 3, 5] p
   in wsc_read (select_args_win ws 50 [8, 3, 5] p) = [8, 3] \<and>
      (\<exists>evs. res = Inr evs \<and> (\<forall>ev\<in>set evs. has (ev_mask ev) EM_Read \<longrightarrow> ev_socket ev \<in> {8, 3}))"
proof -
  let ?ws = "\<lparr>wsaewouldblock = 10035, wsaeinprogress = 10036, set_capacity = 2,
      add_to_set = (\<lambda>s S. if s \<in> set S \<or> 2 \<le> length S then S else S @ [s])\<rparr>"
  let ?p = "\<lparr>interests = [3 \<mapsto> EM_Read, 5 \<mapsto> EM_Read, 8 \<mapsto> EM_Read]\<rparr>"
  let ?sel = "\<lambda>c. \<lparr>wsr_rc = 2, wsr_err = 0, wsr_read = wsc_read c, wsr_write = [], wsr_except = []\<rparr>"
  have h: "fd_set_contract ?ws" "select_contract_win ?sel" "iterates [8, 3, 5] ?p"
    by (auto simp: fd_set_contract_def select_contract_win_def iterates_def split: if_splits)
  have w: "take 2 (interested [8, 3, 5] ?p EM_Read) = [8, 3]"
    by (simp add: interested_def entries_def mask_defs)
  from winsock_poller_watches [OF h, of 4 50] w show ?thesis
    by (auto simp: Let_def SOCKET_ERROR_def split: sum.splits)
qed

text \<open>On Windows handles are opened, accepted and closed as on POSIX. With handles below \<open>2\<^sup>6\<^sup>3\<close> and the same
  answers of the system, creating a socket, accepting a connection and opening the listener give the same result
  and make the same calls, except for the text that says why an address did not resolve; a close fails exactly if it
  does on POSIX, and has then made the same calls and also emptied the handle.\<close>

lemma winsock_handles_agree:
  assumes "handle_ret r" "list_all (\<lambda>a. handle_ret (a_socket a)) (gai_list g)" "resolve = (\<lambda>_ _. g)"
  shows "create_tcp_v4_win r = create_tcp_v4 r \<and> accept_one_win r sk = accept_one r sk \<and>
    local_port_v4_win tgt r sin_port sk = local_port_v4 tgt r sin_port sk \<and>
    isl (fst (Socket_close_win r sk)) = isl (fst (Socket_close r sk)) \<and> snd (Socket_close_win r sk) = snd (Socket_close r sk) \<and>
    snd (bind_and_listen_win resolve host port backlog) = snd (bind_and_listen resolve host port backlog) \<and>
    (gai_rc g = 0 \<longrightarrow> bind_and_listen_win resolve host port backlog = bind_and_listen resolve host port backlog)"
  using assms
  by (simp add: create_tcp_v4_win_def create_tcp_v4_def accept_one_win_def accept_one_def invalid_handle close_agrees
      local_port_v4_win_def local_port_v4_def bind_and_listen_win_def bind_and_listen_def try_addresses_agree Let_def)

lemma winsock_handles_agree_witness:
  "let g = \<lparr>gai_rc = 0, gai_message = [], gai_list = demo_addrs, gai_errno = 0\<rparr>
   in accept_one_win \<lparr>rc = 6, err = 0\<rparr> \<lparr>native_handle = 5\<rparr> = accept_one \<lparr>rc = 6, err = 0\<rparr> \<lparr>native_handle = 5\<rparr> \<and>
      bind_and_listen_win (\<lambda>_ _. g) [] 8080 128 = bind_and_listen (\<lambda>_ _. g) [] 8080 128"
  using winsock_handles_agree [of "\<lparr>rc = 6, err = 0\<rparr>" "\<lparr>gai_rc = 0, gai_message = [], gai_list = demo_addrs, gai_errno = 0\<rparr>"
      "\<lambda>_ _. \<lparr>gai_rc = 0, gai_message = [], gai_list = demo_addrs, gai_errno = 0\<rparr>" "\<lparr>native_handle = 5\<rparr>"
      undefined undefined "[]" 8080 128]
  by (simp add: handle_ret_def demo_addrs_def Let_def)

end
