(* ===== verification/Spec2Isabelle.thy ===== *)
theory Spec2Isabelle
  imports Server_Defined Server_Echo Server_Returns Echo_Benchmark Idle_Timeout Lifecycle Worker_Pool_Shutdown
    Worker_Pool_Order Config_Correct Logging_Threads Metrics_Threads Client_Server Winsock
begin

text \<open>
  A verification of the TCP echo server \<^verbatim>\<open>TCP-server-Cplusplus\<close>: a library of components (framing protocol,
  socket layer, poller, idle timeouts, shutdown lifecycle, worker pool, configuration, logging, metrics)
  and the echo server that puts them together.

  \<^bold>\<open>The program and its theories.\<close>
  \<^item> Framing (\<^verbatim>\<open>src/src/protocol\<close>): \<open>Frame_Decoder\<close> models \<^verbatim>\<open>try_decode_frame\<close> with its native-order load and
    byte swap, \<open>Frame_Encoder\<close> \<^verbatim>\<open>append_encoded_frame\<close>. \<open>Framing\<close> states what any length-prefixed codec must
    satisfy (locale \<open>framing\<close>) and proves, once, that a stream decodes the same however it is chunked;
    \<open>Frame_Codec\<close> interprets it on the code's decoder and encoder.
  \<^item> Sockets (\<^verbatim>\<open>src/src/net/socket.cpp\<close>): \<open>Posix\<close> has the constants and results of the operating system as
    parameters, \<open>Socket\<close> the RAII handle. Moves, assignment and destruction work on a store of objects;
    the abstraction \<open>one_holder\<close> gives unique ownership.
  \<^item> Connections (\<^verbatim>\<open>connection.cpp\<close>, \<^verbatim>\<open>recv.cpp\<close>, \<^verbatim>\<open>send.cpp\<close>): \<open>Connection\<close> has the record with both
    buffers, each an interpretation of the locale \<open>byte_queue\<close>; \<open>Transport\<close> the non-blocking receive and
    flush.
  \<^item> Poller (\<^verbatim>\<open>event_loop.hpp\<close>, \<^verbatim>\<open>select_poller.cpp\<close>): \<open>Poller\<close> states the abstract class as the locale \<open>poller\<close>
    and interprets it on \<^verbatim>\<open>SelectPoller\<close>; \<open>Registry\<close> is the contract it shares with the idle manager.
  \<^item> Accepting (\<^verbatim>\<open>acceptor.cpp\<close>, \<^verbatim>\<open>accept_ops.cpp\<close>, \<^verbatim>\<open>listener.hpp\<close>): \<open>Acceptor\<close>; its lemmas are proved in
    \<open>poller\<close> for every poller.
  \<^item> Idle timeouts (\<^verbatim>\<open>idle_timeout_manager.cpp\<close>): \<open>Idle_Timeout\<close>.
  \<^item> Shutdown (\<^verbatim>\<open>lifecycle.cpp\<close>): \<open>Lifecycle\<close>, one atomic access at a time, under any schedule.
  \<^item> Workers (\<^verbatim>\<open>dispatcher.cpp\<close>, \<^verbatim>\<open>worker_pool.cpp\<close>): \<open>Dispatcher\<close> has the handler interface (locale \<open>handler\<close>)
    and the echo handler; \<open>Worker_Pool\<close> the threads, mutexes, condition variables and queues as a step
    function, with its invariant; \<open>Worker_Pool_Safety\<close> conservation, responses and bounds;
    \<open>Worker_Pool_Progress\<close> wake-ups and the hang of \<^verbatim>\<open>shutdown\<close>; \<open>Worker_Pool_Shutdown\<close> that it returns otherwise;
    \<open>Worker_Pool_Order\<close> the order of the answers of a pool with one worker, through an abstraction of the pool to
    three sequences.
  \<^item> Configuration (\<^verbatim>\<open>config_loader.cpp\<close>, \<^verbatim>\<open>config_validator.cpp\<close>, \<^verbatim>\<open>config.hpp\<close>): \<open>Config\<close> is the code,
    \<open>Config_Correct\<close> its contract (locale \<open>settings\<close>) and theorems.
  \<^item> Diagnostics (\<^verbatim>\<open>src/src/infra\<close>): \<open>Logging\<close> and \<open>Metrics\<close> have the operations as one call after another would
    see them; \<open>Logging_Threads\<close> and \<open>Metrics_Threads\<close> the same code called from any number of threads, one load of
    an atomic, one acquisition of the mutex, one write or one critical section at a time.
  \<^item> The server (\<^verbatim>\<open>benchmarks/e2e_echo_benchmark.cpp\<close>): \<open>Echo_Server\<close> has the read and flush loops of one
    connection, \<open>Echo_Progress\<close> shows that they return, \<open>Echo_Count\<close> what they count; \<open>Server_Run\<close> has the slot
    table, accepting, the dispatch of events, and the whole of \<^verbatim>\<open>run_server\<close> with its start, loop and cleanup;
    \<open>Server_Safety\<close> its invariant (\<open>server_inv\<close>, over the table \<open>table_ok\<close>) and that it closes what it opened;
    \<open>Server_Echo\<close> that it is a set of independent echo connections (the relation \<open>echoes\<close> between what a descriptor
    received and what was sent on it); \<open>Server_Returns\<close> that it ends, by an account of the work pending on the
    connections; \<open>Server_Defined\<close> how it can fail.
  \<^item> Its clients (same file): \<open>Echo_Client\<close> has \<^verbatim>\<open>client_worker\<close> and what it calls, and the round trip of a client
    and one connection; \<open>Client_Server\<close> a client of the whole server, related to it only by what TCP promises; \<open>Echo_Benchmark\<close> the fixture's set-up and tear-down and the two benchmarks that run the clients.
  \<^item> Windows (the branches under \<^verbatim>\<open>#if defined(_WIN32)\<close> of the networking sources and of the server's accept loop):
    \<open>Winsock\<close>, with what it shares with the POSIX branches and where it differs.
  \<^item> Programs around the decoder (\<^verbatim>\<open>decoder_benchmark.cpp\<close>, \<^verbatim>\<open>decoder_fuzz.cpp\<close>): \<open>Harness\<close>.

  \<^bold>\<open>How code becomes definitions.\<close> A class is a record, an operation a function from the state and the
  results of the system calls it makes to its result and the new state; \<^verbatim>\<open>std::expected\<close> is a sum with
  the error on the left. A failed assertion or \<^verbatim>\<open>std::abort\<close> is \<open>Abort\<close>, undefined behaviour \<open>Undefined\<close>;
  theorems say when they cannot happen, or that they can. \<open>build_mode\<close> selects whether assertions run.
  Fixed-width integers are words. All theories but \<open>Winsock\<close> model the POSIX branches. What the kernel returns is an
  argument: a value for a single call, a list of successive results (a script) for a loop. Threads are
  program counters over a shared state and a schedule chooses who moves.

  \<^bold>\<open>Termination and fuel.\<close> The retry loops over \<^verbatim>\<open>EINTR\<close> and the read and flush loops recurse over their
  script, and return \<open>None\<close> exactly when the kernel has given no answer yet; all other loops are
  structural or have a measure proved here. The server's loop recurses over a list of turns (what the clock,
  \<^verbatim>\<open>select\<close> and the kernel say in each); \<open>None\<close> means the list ended first, and
  \<open>Server_Returns\<close> says how many answers are enough. The only fuel is that of the log reader, a specification:
  it is the number of fields, and the theorem shows it is enough. Schedules are finite lists of any length.

  \<^bold>\<open>What the theorems show.\<close> The codec round-trips, never reads outside its input and decodes
  a stream the same in any chunking; descriptors have one owner and are never closed twice or leaked; receives and
  flushes lose no byte; the poller reports what was asked for; idle sockets are evicted exactly; the lifecycle is
  monotone and reaches its end only drained; the pool keeps its bounds, loses no task and does not deadlock before
  it is stopped, and stopping it ends unless a worker is just going to sleep; configurations round-trip, and loading fails
  exactly for a fault of the file or the environment and names the first; a connection is a function of the calls made
  on it; the echo server ends when its deadline has passed, sends on every connection a
  beginning of the echo of what it received there, and nothing else, its slots, its poller and the open
  descriptors agree after every turn, whenever it returns everything it opened is closed, and no kernel that
  respects the buffers and the size of an \<^verbatim>\<open>fd_set\<close> drives it into undefined behaviour; a
  client gets its request back and is counted once, and a client of the whole server, whatever other clients do,
  never aborts and returns when the replies to its rounds have arrived. On Windows handles, receives, sends and the
  poller behave as on POSIX within the limits of an \<^verbatim>\<open>int\<close> and of \<^verbatim>\<open>FD_SETSIZE\<close>. With one worker the pool answers in the order it was asked;
  log records are never mixed, and metrics read by any thread are the totals of what was added before. Some
  theorems establish defects: an assertion of the lifecycle fails when the server is
  drained between a request and that assertion; stopping the pool can
  hang; a descriptor the selector cannot represent is accepted and makes the next wait undefined; failing to
  create any socket is reported as a failed bind; newlines in log messages and equals signs in log keys are not escaped; on Windows sockets
  beyond \<^verbatim>\<open>FD_SETSIZE\<close> are silently not watched and a write buffer of 2 GiB cannot be flushed.

  \<^bold>\<open>What is not modelled.\<close> The Windows branches of the benchmark's clients; the start of the threads of the
  end-to-end benchmark and the times it reports; weakly
  ordered memory (the relaxed atomics of the level and of the metrics flag are read as of the last store);
  translation units that only include a header; the tests. \<^verbatim>\<open>std::bad_alloc\<close> and other allocation failures
  are outside the model.
\<close>

section \<open>Program entry\<close>

text \<open>\<^verbatim>\<open>main.cpp\<close> starts nothing yet: it returns at once.\<close>

definition tcp_server_main :: int where
  "tcp_server_main = 0"

section \<open>A validated configuration fits the components\<close>

lemma message_limit_fits: "unat (m :: u64) \<le> 2 ^ 30 \<Longrightarrow> fits m p \<longleftrightarrow> length p \<le> unat m"
  by (simp add: fits_def)

lemma effective_cap: "unat (m :: u64) \<le> 2 ^ 30 \<Longrightarrow> effective_max_payload m = m"
proof -
  assume "unat m \<le> 2 ^ 30"
  then have "m \<le> ucast (4294967295 :: u32)" by (simp add: word_le_nat_alt)
  then show ?thesis by (simp add: effective_max_payload_def min_def)
qed

text \<open>C36: What validation guarantees the other components. With a configuration that passes validation: the
  decoder and the encoder use the configured message limit unclipped, so a payload is encoded exactly
  when it is within the limit, and then decoded back from any longer input; the worker pool can be
  constructed with the configured number of workers and any positive capacity; the idle limit is
  positive, so idle sockets are evicted, and polling never overflows the clock arithmetic.\<close>

theorem validated_config_fits:
  assumes "validate_config cfg = None"
  shows "effective_max_payload (max_message_bytes (limits cfg)) = max_message_bytes (limits cfg) \<and>
    (\<forall>p out. (append_encoded_frame tgt out p (max_message_bytes (limits cfg)) = Done (Inr (), out @ frame p)) \<longleftrightarrow>
       length p \<le> unat (max_message_bytes (limits cfg))) \<and>
    (\<forall>p rest. length p \<le> unat (max_message_bytes (limits cfg)) \<longrightarrow>
       try_decode_frame tgt (frame p @ rest) (max_message_bytes (limits cfg)) =
         Done \<lparr>fdr_status = Complete, consumed_bytes = 4 + length p, fdr_payload = p\<rparr>) \<and>
    (\<forall>q. 0 < q \<longrightarrow> (\<exists>pool. WorkerPool_config b (unat (worker_threads (runtime cfg))) q disp opts = Inr pool \<and>
       cfg_workers pool = unat (worker_threads (runtime cfg)))) \<and>
    (\<forall>m order now. idle_after m = uint (idle_ms (timeouts cfg)) \<and> iterates_activity order m \<and> 0 \<le> now \<and> now < 2 ^ 63 \<and>
       (\<forall>s t. last_activity m s = Some t \<longrightarrow> 0 \<le> t \<and> t < 2 ^ 63) \<longrightarrow>
       idle_after m \<noteq> 0 \<and> (\<exists>ex m'. poll_expired now order m = Done (ex, m')))"
proof -
  let ?m = "max_message_bytes (limits cfg)"
  from assms have pos: "unat ?m \<le> 2 ^ 30" "idle_ms (timeouts cfg) \<noteq> 0" "worker_threads (runtime cfg) \<noteq> 0"
    by (auto simp: validate_config_def word_less_nat_alt split: if_splits)
  then have w: "unat (worker_threads (runtime cfg)) \<noteq> 0" "uint (idle_ms (timeouts cfg)) \<noteq> 0"
    by (simp_all add: unat_eq_0 uint_0_iff)
  have "\<exists>pool. WorkerPool_config b (unat (worker_threads (runtime cfg))) q disp opts = Inr pool \<and>
      cfg_workers pool = unat (worker_threads (runtime cfg))" if "0 < q" for q
    using that w(1) by (auto simp: WorkerPool_config_def)
  moreover have "idle_after m \<noteq> 0 \<and> (\<exists>ex m'. poll_expired now order m = Done (ex, m'))"
    if "idle_after m = uint (idle_ms (timeouts cfg)) \<and> iterates_activity order m \<and> 0 \<le> now \<and> now < 2 ^ 63 \<and>
       (\<forall>s t. last_activity m s = Some t \<longrightarrow> 0 \<le> t \<and> t < 2 ^ 63)" for m order now
    using that w(2) idle_no_overflow [of m "idle_ms (timeouts cfg)" order now] by auto
  moreover have "append_encoded_frame tgt out p ?m = Done (Inr (), out @ frame p) \<longleftrightarrow> length p \<le> unat ?m" for p out
    using message_limit_fits [OF pos(1), of p] by (simp add: append_encoded_frame_eq)
  moreover have "try_decode_frame tgt (frame p @ rest) ?m =
      Done \<lparr>fdr_status = Complete, consumed_bytes = 4 + length p, fdr_payload = p\<rparr>"
    if "length p \<le> unat ?m" for p rest
    using message_limit_fits [OF pos(1), of p] that by (intro try_decode_frame_frame) simp
  ultimately show ?thesis using effective_cap [OF pos(1)] by blast
qed

definition small_config :: ServerConfig where
  "small_config = \<lparr>listen = \<lparr>cl_host = [], cl_port = 8080\<rparr>,
     limits = \<lparr>max_connections = 100, max_message_bytes = 65536\<rparr>,
     timeouts = \<lparr>idle_ms = 5000\<rparr>, runtime = \<lparr>worker_threads = 4\<rparr>,
     logging = \<lparr>log_level = LL_Info\<rparr>, metrics_cfg = \<lparr>metrics_enabled = False\<rparr>\<rparr>"

theorem validated_config_fits_witness:
  "effective_max_payload (max_message_bytes (limits small_config)) = max_message_bytes (limits small_config) \<and>
   (\<exists>pool. WorkerPool_config Debug 4 16 echo_runs lossless = Inr pool \<and> cfg_workers pool = 4)"
proof -
  have v: "validate_config small_config = None"
    by (simp add: validate_config_def small_config_def word_less_nat_alt)
  from validated_config_fits [OF v, of _ Debug echo_runs lossless]
  have a: "effective_max_payload (max_message_bytes (limits small_config)) = max_message_bytes (limits small_config)"
    and p: "\<forall>q. 0 < q \<longrightarrow> (\<exists>pool. WorkerPool_config Debug (unat (worker_threads (runtime small_config))) q echo_runs lossless = Inr pool \<and>
      cfg_workers pool = unat (worker_threads (runtime small_config)))" by blast+
  have "unat (worker_threads (runtime small_config)) = 4" by (simp add: small_config_def)
  with p have "\<exists>pool. WorkerPool_config Debug 4 16 echo_runs lossless = Inr pool \<and> cfg_workers pool = 4"
    by (metis zero_less_numeral)
  with a show ?thesis by blast
qed

end
